(* ===== verification/Prelude.thy ===== *)
theory Prelude
  imports Main "HOL-Library.Word"
begin

text \<open>
  Shared material of the development: the machine types of the Rust sources, results as a
  sum type, byte slices, and little and big endian encodings of \<open>u32\<close>.

  Conventions. \<open>u8\<close>, \<open>u16\<close> and \<open>u32\<close> are words of their width, so \<open>+\<close>, \<open>-\<close> and \<open>*\<close> on
  them wrap (the release build semantics); \<open>usize\<close> is \<open>nat\<close> (the crate requires at least
  32 bits, and every \<open>usize\<close> the sources compute is bounded by a buffer length plus a few
  tag sizes). A slice \<open>&[u8]\<close> is a \<open>byte list\<close>, a mutable slice is passed in and returned.
\<close>

unbundle bit_operations_syntax

type_synonym byte = "8 word"
type_synonym u16 = "16 word"
type_synonym u32 = "32 word"

named_theorems lfs_defs \<open>definitions the component proofs unfold\<close>
named_theorems le_simps \<open>encoding and decoding of little and big endian words\<close>


section \<open>Slices\<close>

text \<open>\<open>slice xs i n\<close> is Rust's \<open>xs[i..i + n]\<close> and \<open>splice xs i ys\<close> is
  \<open>xs[i..i + ys.len()].copy_from_slice(ys)\<close>; both are used with the range inside \<open>xs\<close>.\<close>

definition slice :: "'a list \<Rightarrow> nat \<Rightarrow> nat \<Rightarrow> 'a list" where
  "slice xs i n = take n (drop i xs)"

definition splice :: "'a list \<Rightarrow> nat \<Rightarrow> 'a list \<Rightarrow> 'a list" where
  "splice xs i ys = take i xs @ ys @ drop (i + length ys) xs"

lemma length_slice [simp]: "length (slice xs i n) = min n (length xs - i)"
  by (simp add: slice_def)

lemma length_slice_in: "i + n \<le> length xs \<Longrightarrow> length (slice xs i n) = n"
  by simp

lemma length_splice [simp]: "i + length ys \<le> length xs \<Longrightarrow> length (splice xs i ys) = length xs"
  by (simp add: splice_def)

lemma splice_Nil [simp]: "splice xs i [] = xs"
  by (simp add: splice_def)

lemma nth_slice [simp]: "j < n \<Longrightarrow> i + j < length xs \<Longrightarrow> slice xs i n ! j = xs ! (i + j)"
  by (simp add: slice_def)

lemma nth_splice:
  "i + length ys \<le> length xs \<Longrightarrow> j < length xs \<Longrightarrow>
   splice xs i ys ! j = (if i \<le> j \<and> j < i + length ys then ys ! (j - i) else xs ! j)"
  by (auto simp: splice_def nth_append)

lemma slice_splice_same [simp]:
  "i + length ys \<le> length xs \<Longrightarrow> n = length ys \<Longrightarrow> slice (splice xs i ys) i n = ys"
  by (simp add: slice_def splice_def)

lemma slice_splice_before:
  "k + n \<le> i \<Longrightarrow> i + length ys \<le> length xs \<Longrightarrow> slice (splice xs i ys) k n = slice xs k n"
  by (rule nth_equalityI) (auto simp: nth_splice)

lemma slice_splice_after:
  "i + length ys \<le> k \<Longrightarrow> k + n \<le> length xs \<Longrightarrow> slice (splice xs i ys) k n = slice xs k n"
  by (rule nth_equalityI) (auto simp: nth_splice)

lemma take_splice_before [simp]:
  "k \<le> i \<Longrightarrow> i + length ys \<le> length xs \<Longrightarrow> take k (splice xs i ys) = take k xs"
  by (simp add: splice_def)

lemma drop_splice_after:
  "i + length ys \<le> k \<Longrightarrow> i + length ys \<le> length xs \<Longrightarrow> drop k (splice xs i ys) = drop k xs"
  by (simp add: splice_def drop_append)

lemma slice_slice: "j + m \<le> n \<Longrightarrow> slice (slice xs i n) j m = slice xs (i + j) m"
  by (simp add: slice_def drop_take take_take min_def add.commute)

lemma slice_append_split: "slice xs i (m + n) = slice xs i m @ slice xs (i + m) n"
  by (simp add: slice_def take_add add.commute)

lemma slice_append_left: "i + n \<le> length xs \<Longrightarrow> slice (xs @ ys) i n = slice xs i n"
  by (simp add: slice_def)

lemma slice_append_right: "length xs \<le> i \<Longrightarrow> slice (xs @ ys) i n = slice ys (i - length xs) n"
  by (simp add: slice_def)

lemma slice_0 [simp]: "slice xs i 0 = []"
  by (simp add: slice_def)

lemma slice_full [simp]: "slice xs 0 (length xs) = xs"
  by (simp add: slice_def)

lemma slice_eq_of_take:
  "i + n \<le> k \<Longrightarrow> take k xs = take k ys \<Longrightarrow> slice xs i n = slice ys i n"
  by (metis (no_types, lifting) add.commute le_add_diff_inverse slice_def take_drop take_take min.absorb1)


lemma nth_list_update_total: "j < length xs \<Longrightarrow> xs[i := x] ! j = (if i = j then x else xs ! j)"
  by (cases "i < length xs") (auto simp: nth_list_update)


section \<open>Results\<close>

text \<open>Rust's \<open>Result<T, E>\<close> is a sum with the error on the left; \<open>rbind\<close> is the
  \<open>?\<close> operator.\<close>

fun rbind :: "'e + 'a \<Rightarrow> ('a \<Rightarrow> 'e + 'b) \<Rightarrow> 'e + 'b" where
  "rbind (Inl e) f = Inl e"
| "rbind (Inr x) f = f x"

lemma rbind_cong [fundef_cong]:
  "r = r' \<Longrightarrow> (\<And>x. r' = Inr x \<Longrightarrow> f x = g x) \<Longrightarrow> rbind r f = rbind r' g"
  by (cases r') auto

lemma rbind_Inr_iff [simp]: "rbind r f = Inr y \<longleftrightarrow> (\<exists>x. r = Inr x \<and> f x = Inr y)"
  by (cases r) auto

lemma rbind_Inl_iff: "rbind r f = Inl e \<longleftrightarrow> r = Inl e \<or> (\<exists>x. r = Inr x \<and> f x = Inl e)"
  by (cases r) auto

lemma rbind_split: "P (rbind r f) \<longleftrightarrow> (\<forall>e. r = Inl e \<longrightarrow> P (Inl e)) \<and> (\<forall>x. r = Inr x \<longrightarrow> P (f x))"
  by (cases r) auto


section \<open>Byte order\<close>

definition to_le_bytes :: "u32 \<Rightarrow> byte list" where
  "to_le_bytes x = [ucast x, ucast (drop_bit 8 x), ucast (drop_bit 16 x), ucast (drop_bit 24 x)]"

definition to_be_bytes :: "u32 \<Rightarrow> byte list" where
  "to_be_bytes x = [ucast (drop_bit 24 x), ucast (drop_bit 16 x), ucast (drop_bit 8 x), ucast x]"

text \<open>\<open>u32::from_le_bytes([b[i], b[i+1], b[i+2], b[i+3]])\<close> and its big endian twin, read at
  offset \<open>i\<close> of a slice that holds the four bytes.\<close>

definition le_u32_at :: "byte list \<Rightarrow> nat \<Rightarrow> u32" where
  "le_u32_at b i =
     ucast (b ! i) OR push_bit 8 (ucast (b ! (i + 1))) OR
     push_bit 16 (ucast (b ! (i + 2))) OR push_bit 24 (ucast (b ! (i + 3)))"

definition be_u32_at :: "byte list \<Rightarrow> nat \<Rightarrow> u32" where
  "be_u32_at b i =
     push_bit 24 (ucast (b ! i)) OR push_bit 16 (ucast (b ! (i + 1))) OR
     push_bit 8 (ucast (b ! (i + 2))) OR ucast (b ! (i + 3))"

lemma length_to_le_bytes [simp, le_simps]: "length (to_le_bytes x) = 4"
  by (simp add: to_le_bytes_def)

lemma length_to_be_bytes [simp, le_simps]: "length (to_be_bytes x) = 4"
  by (simp add: to_be_bytes_def)

lemma word_of_bytes:
  "ucast (ucast x :: byte) OR push_bit 8 (ucast (ucast (drop_bit 8 x) :: byte)) OR
   push_bit 16 (ucast (ucast (drop_bit 16 x) :: byte)) OR
   push_bit 24 (ucast (ucast (drop_bit 24 x) :: byte)) = (x :: u32)"
proof (rule bit_word_eqI)
  fix n assume "n < LENGTH(32)"
  then have "n < 32" by simp
  then consider "n < 8" | "8 \<le> n" "n < 16" | "16 \<le> n" "n < 24" | "24 \<le> n" "n < 32" by linarith
  then show "bit (ucast (ucast x :: byte) OR push_bit 8 (ucast (ucast (drop_bit 8 x) :: byte)) OR
     push_bit 16 (ucast (ucast (drop_bit 16 x) :: byte)) OR
     push_bit 24 (ucast (ucast (drop_bit 24 x) :: byte)) :: u32) n = bit x n"
    by cases (auto simp: bit_simps)
qed

lemma le_u32_at_to_le_bytes [simp, le_simps]:
  "slice b i 4 = to_le_bytes x \<Longrightarrow> le_u32_at b i = x"
proof -
  assume s: "slice b i 4 = to_le_bytes x"
  then have "length (slice b i 4) = 4" by simp
  then have "i + 4 \<le> length b" by simp
  then have nth: "b ! (i + k) = to_le_bytes x ! k" if "k < 4" for k
    using that nth_slice [of k 4 i b] s by simp
  show ?thesis
    using nth [of 0] nth [of 1] nth [of 2] nth [of 3] word_of_bytes [of x]
    by (simp add: le_u32_at_def to_le_bytes_def)
qed

lemma be_u32_at_to_be_bytes [simp, le_simps]:
  "slice b i 4 = to_be_bytes x \<Longrightarrow> be_u32_at b i = x"
proof -
  assume s: "slice b i 4 = to_be_bytes x"
  then have "length (slice b i 4) = 4" by simp
  then have "i + 4 \<le> length b" by simp
  then have nth: "b ! (i + k) = to_be_bytes x ! k" if "k < 4" for k
    using that nth_slice [of k 4 i b] s by simp
  show ?thesis
    using nth [of 0] nth [of 1] nth [of 2] nth [of 3] word_of_bytes [of x]
    by (simp add: be_u32_at_def to_be_bytes_def ac_simps)
qed

lemma le_u32_at_append:
  "i + 4 \<le> length xs \<Longrightarrow> le_u32_at (xs @ ys) i = le_u32_at xs i"
  by (simp add: le_u32_at_def nth_append)

lemma le_u32_at_append_right:
  "length xs \<le> i \<Longrightarrow> le_u32_at (xs @ ys) i = le_u32_at ys (i - length xs)"
  by (simp add: le_u32_at_def nth_append Suc_diff_le)

lemma le_u32_at_encode [simp, le_simps]: "le_u32_at (to_le_bytes x) 0 = x"
  by (rule le_u32_at_to_le_bytes) (simp add: slice_def)

lemma le_u32_at_slice: "j + 4 \<le> n \<Longrightarrow> i + n \<le> length b \<Longrightarrow>
   le_u32_at (slice b i n) j = le_u32_at b (i + j)"
  by (simp add: le_u32_at_def add.assoc)

lemma byte_bit_False [simp]: "8 \<le> n \<Longrightarrow> \<not> bit (p :: byte) n"
  using bit_imp_le_length [of p n] by auto

lemma u16_bit_False [simp]: "16 \<le> n \<Longrightarrow> \<not> bit (p :: u16) n"
  using bit_imp_le_length [of p n] by auto

lemma u32_bit_False [simp]: "32 \<le> n \<Longrightarrow> \<not> bit (p :: u32) n"
  using bit_imp_le_length [of p n] by auto

lemma unat_u32_less [simp]: "unat (w :: u32) < 4294967296"
  using unsigned_less [of w] by simp

lemma unat_u16_less: "unat (w :: u16) < 65536"
  using unsigned_less [of w] by simp

lemma unat_small_of_nat: "n < 4294967296 \<Longrightarrow> unat (of_nat n :: u32) = n"
  by (simp add: unat_of_nat)

lemma of_nat_le_u32: "m \<le> unat (x :: u32) \<Longrightarrow> x - of_nat m = of_nat (unat x - m)"
  by (metis of_nat_diff of_nat_unat ucast_id)

lemma unat_diff_of_nat: "m \<le> unat (x :: u32) \<Longrightarrow> unat (x - of_nat m) = unat x - m"
  using unat_u32_less [of x] unat_small_of_nat [of "unat x - m"] of_nat_le_u32 [of m x]
  by (simp only: less_imp_diff_less)

lemma bit_top_u32 [simp]: "bit (2147483648 :: u32) n \<longleftrightarrow> n = 31"
proof -
  have "(2147483648 :: u32) = push_bit 31 1" by simp
  then show ?thesis by (auto simp only: bit_simps possible_bit_word len_num1 len_bit0 len_bit1)
qed

lemma bit_top_int [simp]: "bit (2147483648 :: int) n \<longleftrightarrow> n = 31"
proof -
  have "(2147483648 :: int) = push_bit 31 1" by simp
  then show ?thesis by (auto simp only: bit_simps possible_bit_int)
qed

lemma word_bit_ge_exp: "unat (a :: 'a::len word) < 2 ^ k \<Longrightarrow> k \<le> n \<Longrightarrow> \<not> bit a n"
proof -
  assume a: "unat a < 2 ^ k" and n: "k \<le> n"
  from a have "take_bit k (unat a) = unat a" by (simp add: take_bit_nat_eq_self)
  then have "bit (unat a) n \<longleftrightarrow> n < k \<and> bit (unat a) n"
    by (metis bit_take_bit_iff)
  with n show ?thesis by (simp add: bit_unsigned_iff)
qed

lemma to_le_bytes_le_u32_at:
  assumes "length b = 4" shows "to_le_bytes (le_u32_at b 0) = b"
proof -
  from assms obtain p q r s where b: "b = [p, q, r, s]"
    by (auto simp: numeral_eq_Suc length_Suc_conv)
  have "ucast (le_u32_at b 0) = p"
    unfolding b le_u32_at_def by (rule bit_word_eqI) (simp add: bit_simps)
  moreover have "ucast (drop_bit 8 (le_u32_at b 0)) = q"
    unfolding b le_u32_at_def by (rule bit_word_eqI) (auto simp: bit_simps)
  moreover have "ucast (drop_bit 16 (le_u32_at b 0)) = r"
    unfolding b le_u32_at_def by (rule bit_word_eqI) (auto simp: bit_simps)
  moreover have "ucast (drop_bit 24 (le_u32_at b 0)) = s"
    unfolding b le_u32_at_def by (rule bit_word_eqI) (auto simp: bit_simps)
  ultimately show ?thesis by (simp add: to_le_bytes_def b)
qed

lemma to_le_bytes_inject: "to_le_bytes x = to_le_bytes y \<longleftrightarrow> x = y"
  by (metis le_u32_at_encode)

end
