(* ===== verification/Errors.thy ===== *)
theory Errors
  imports Prelude
begin

text \<open>
  The crate's error type (\<open>src/src/error.rs\<close>): every fallible operation of the model returns
  \<open>'a result\<close>, a sum with the error on the left, so each early return of the source is a
  branch of the model.
\<close>

datatype error =
    Io
  | NotLittleFs
  | UnsupportedVersion u32
  | CrcMismatch
  | InvalidTag
  | InvalidPath
  | ShortRead
  | OutOfRange
  | ReadOnly
  | NotFound
  | AlreadyExists
  | GeometryMismatch
  | Corrupt
  | Unformatted
  | NotEmpty

type_synonym 'a result = "error + 'a"

text \<open>\<open>impl Display for Error\<close>.\<close>

fun error_display :: "error \<Rightarrow> string" where
  "error_display Io = ''storage I/O error''"
| "error_display NotLittleFs = ''not a LittleFS v2 image''"
| "error_display (UnsupportedVersion _) = ''unsupported on disk format version''"
| "error_display CrcMismatch = ''CRC check failed''"
| "error_display InvalidTag = ''invalid metadata tag''"
| "error_display InvalidPath = ''invalid path component''"
| "error_display ShortRead = ''storage returned a short read''"
| "error_display OutOfRange = ''value exceeds the negotiated geometry limit''"
| "error_display ReadOnly = ''filesystem is mounted read only''"
| "error_display NotFound = ''no such file or directory''"
| "error_display AlreadyExists = ''name already exists''"
| "error_display GeometryMismatch = ''storage geometry does not match the superblock''"
| "error_display Corrupt = ''filesystem is corrupt''"
| "error_display Unformatted = ''root metadata pair is in erased state (device not formatted)''"
| "error_display NotEmpty = ''directory is not empty''"

text \<open>\<open>require c e\<close> is the guard \<open>if !c { return Err(e) }\<close> as a result.\<close>

definition require :: "bool \<Rightarrow> error \<Rightarrow> unit result" where
  "require c e = (if c then Inr () else Inl e)"

lemma require_Inr [simp]: "require c e = Inr u \<longleftrightarrow> c"
  by (simp add: require_def)

lemma require_Inl [simp]: "require c e = Inl e' \<longleftrightarrow> \<not> c \<and> e = e'"
  by (auto simp: require_def)

end
