(* ===== verification/Tags.thy ===== *)
theory Tags
  imports Errors
begin

text \<open>
  The 32 bit on disk tag (\<open>src/src/tag.rs\<close>): one valid bit, an 11 bit type (3 bits abstract type
  and 8 bits chunk), a 10 bit id and a 10 bit length. \<open>Tag\<close> is a transparent newtype over
  \<open>u32\<close>, so it is modelled by the word itself and \<open>Tag::from_bits\<close>/\<open>into_bits\<close> are the
  identity.
\<close>

type_synonym tag = u32

datatype abstract_type =
  AT_Name | AT_From | AT_Struct | AT_UserAttr | AT_Splice | AT_Crc | AT_Tail | AT_Globals

definition AbstractType_from_bits :: "byte \<Rightarrow> abstract_type option" where
  "AbstractType_from_bits b =
     (if b = 0 then Some AT_Name
      else if b = 1 then Some AT_From
      else if b = 2 then Some AT_Struct
      else if b = 3 then Some AT_UserAttr
      else if b = 4 then Some AT_Splice
      else if b = 5 then Some AT_Crc
      else if b = 6 then Some AT_Tail
      else if b = 7 then Some AT_Globals
      else None)"

datatype tag_type =
    RegularFile
  | Directory
  | Superblock
  | FromMove
  | FromUserAttrs
  | DirStruct
  | InlineStruct
  | CtzStruct
  | UserAttr byte
  | Create
  | Delete
  | CommitCrc byte
  | ForwardCrc
  | SoftTail
  | HardTail
  | MoveState
  | RelocateState
  | Unknown byte byte

text \<open>The match of \<open>TagType::from_bits\<close>, arm by arm in the source's order.\<close>

definition TagType_of_pair :: "byte \<Rightarrow> byte \<Rightarrow> tag_type" where
  "TagType_of_pair a c =
     (if a = 0 \<and> c = 0x01 then RegularFile
      else if a = 0 \<and> c = 0x02 then Directory
      else if a = 0 \<and> c = 0xff then Superblock
      else if a = 1 \<and> c = 0x01 then FromMove
      else if a = 1 \<and> c = 0x02 then FromUserAttrs
      else if a = 2 \<and> c = 0x00 then DirStruct
      else if a = 2 \<and> c = 0x01 then InlineStruct
      else if a = 2 \<and> c = 0x02 then CtzStruct
      else if a = 3 then UserAttr c
      else if a = 4 \<and> c = 0x01 then Create
      else if a = 4 \<and> c = 0xff then Delete
      else if a = 5 \<and> c AND 0x80 = 0 then CommitCrc c
      else if a = 5 \<and> c = 0xff then ForwardCrc
      else if a = 6 \<and> c = 0x00 then SoftTail
      else if a = 6 \<and> c = 0x01 then HardTail
      else if a = 7 \<and> c = 0xff then MoveState
      else if a = 7 \<and> c = 0xfe then RelocateState
      else Unknown a c)"

definition TagType_from_bits :: "u16 \<Rightarrow> tag_type" where
  "TagType_from_bits type_field =
     (let abstract_type = ucast (drop_bit 8 type_field AND 0x7);
          chunk = ucast (type_field AND 0xff)
      in TagType_of_pair abstract_type chunk)"

fun TagType_pair :: "tag_type \<Rightarrow> byte \<times> byte" where
  "TagType_pair RegularFile = (0x0, 0x01)"
| "TagType_pair Directory = (0x0, 0x02)"
| "TagType_pair Superblock = (0x0, 0xff)"
| "TagType_pair FromMove = (0x1, 0x01)"
| "TagType_pair FromUserAttrs = (0x1, 0x02)"
| "TagType_pair DirStruct = (0x2, 0x00)"
| "TagType_pair InlineStruct = (0x2, 0x01)"
| "TagType_pair CtzStruct = (0x2, 0x02)"
| "TagType_pair (UserAttr c) = (0x3, c)"
| "TagType_pair Create = (0x4, 0x01)"
| "TagType_pair Delete = (0x4, 0xff)"
| "TagType_pair (CommitCrc c) = (0x5, c)"
| "TagType_pair ForwardCrc = (0x5, 0xff)"
| "TagType_pair SoftTail = (0x6, 0x00)"
| "TagType_pair HardTail = (0x6, 0x01)"
| "TagType_pair MoveState = (0x7, 0xff)"
| "TagType_pair RelocateState = (0x7, 0xfe)"
| "TagType_pair (Unknown a c) = (a, c)"

definition TagType_into_bits :: "tag_type \<Rightarrow> u16" where
  "TagType_into_bits t =
     (let (abstract_type, chunk) = TagType_pair t
      in push_bit 8 (ucast abstract_type) OR ucast chunk)"

definition ID_NONE :: u16 where "ID_NONE = 0x3ff"

definition LEN_SPECIAL :: u16 where "LEN_SPECIAL = 0x3ff"

definition Tag_new :: "bool \<Rightarrow> tag_type \<Rightarrow> u16 \<Rightarrow> u16 \<Rightarrow> tag" where
  "Tag_new valid tt i len =
     (let valid_bit = (if valid then 0 else push_bit 31 1);
          type_field = push_bit 20 (ucast (TagType_into_bits tt));
          id_field = push_bit 10 (ucast (i AND 0x3ff));
          length_field = ucast (len AND 0x3ff)
      in valid_bit OR type_field OR id_field OR length_field)"

definition is_valid :: "tag \<Rightarrow> bool" where
  "is_valid t \<longleftrightarrow> drop_bit 31 t = 0"

definition type_bits :: "tag \<Rightarrow> u16" where
  "type_bits t = ucast (drop_bit 20 t AND 0x7ff)"

definition tag_type :: "tag \<Rightarrow> tag_type" where
  "tag_type t = TagType_from_bits (type_bits t)"

text \<open>\<open>Tag::abstract_type\<close>: \<open>None\<close> is the source's \<open>unreachable!()\<close> arm.\<close>

definition tag_abstract_type :: "tag \<Rightarrow> abstract_type option" where
  "tag_abstract_type t = AbstractType_from_bits (ucast (drop_bit 28 t AND 0x7))"

definition tag_id :: "tag \<Rightarrow> u16" where
  "tag_id t = ucast (drop_bit 10 t AND 0x3ff)"

definition has_no_id :: "tag \<Rightarrow> bool" where
  "has_no_id t \<longleftrightarrow> tag_id t = ID_NONE"

definition tag_length :: "tag \<Rightarrow> u16" where
  "tag_length t = ucast (t AND 0x3ff)"

definition is_special_length :: "tag \<Rightarrow> bool" where
  "is_special_length t \<longleftrightarrow> tag_length t = LEN_SPECIAL"

definition tag_xor :: "tag \<Rightarrow> tag \<Rightarrow> tag" where
  "tag_xor s t = s XOR t"

definition body_len :: "tag \<Rightarrow> nat" where
  "body_len t = (if is_special_length t then 0 else unat (tag_length t))"

definition dsize :: "tag \<Rightarrow> nat" where
  "dsize t = 4 + body_len t"

definition ccrc_chunk :: "tag \<Rightarrow> byte option" where
  "ccrc_chunk t = (case tag_type t of CommitCrc c \<Rightarrow> Some c | _ \<Rightarrow> None)"

definition is_ccrc :: "tag \<Rightarrow> bool" where
  "is_ccrc t \<longleftrightarrow> (case tag_type t of CommitCrc _ \<Rightarrow> True | _ \<Rightarrow> False)"


section \<open>Field extraction as bit ranges\<close>

lemma and_masks [simp]:
  "x AND 0x3ff = take_bit 10 x" "x AND 0x7ff = take_bit 11 x"
  for x :: "'a::len word"
  using take_bit_eq_mask [of 10 x] take_bit_eq_mask [of 11 x]
  by (simp_all add: mask_eq_exp_minus_1)

lemma and_masks_small [simp]:
  "x AND 0x7 = take_bit 3 x" "x AND 0xff = take_bit 8 x"
  for x :: "'a::len word"
  using take_bit_eq_mask [of 3 x] take_bit_eq_mask [of 8 x]
  by (simp_all add: mask_eq_exp_minus_1)

lemmas tag_field_defs = is_valid_def type_bits_def tag_id_def tag_length_def Tag_new_def

lemma is_valid_bit: "is_valid t \<longleftrightarrow> \<not> bit t 31"
proof -
  have "drop_bit 31 t = (if bit t 31 then 1 else 0)" for t :: tag
  proof (rule bit_word_eqI)
    fix n show "bit (drop_bit 31 t) n = bit (if bit t 31 then 1 else 0 :: u32) n"
      by (cases n) (auto simp: bit_simps)
  qed
  then show ?thesis by (simp add: is_valid_def)
qed

lemma bit_type_bits: "bit (type_bits t) n \<longleftrightarrow> n < 11 \<and> bit t (20 + n)"
  by (auto simp: type_bits_def bit_simps)

lemma bit_tag_id: "bit (tag_id t) n \<longleftrightarrow> n < 10 \<and> bit t (10 + n)"
  by (auto simp: tag_id_def bit_simps)

lemma bit_tag_length: "bit (tag_length t) n \<longleftrightarrow> n < 10 \<and> bit t n"
  by (auto simp: tag_length_def bit_simps)

lemma bit_Tag_new:
  "bit (Tag_new v tt i len) n \<longleftrightarrow>
     (n = 31 \<and> \<not> v) \<or> (20 \<le> n \<and> n < 32 \<and> bit (TagType_into_bits tt) (n - 20)) \<or>
     (10 \<le> n \<and> n < 20 \<and> bit i (n - 10)) \<or> (n < 10 \<and> bit len n)"
  by (auto simp: Tag_new_def Let_def bit_simps)

lemma tag_length_less: "unat (tag_length t) < 1024"
proof -
  have "tag_length t = take_bit 10 (tag_length t)"
    by (rule bit_word_eqI) (auto simp: bit_tag_length bit_simps)
  then have "unat (tag_length t) = take_bit 10 (unat (tag_length t))"
    by (metis unsigned_take_bit_eq)
  then show ?thesis
    using take_bit_nat_less_exp [of 10 "unat (tag_length t)"] by simp
qed

lemma tag_id_less: "unat (tag_id t) < 1024"
proof -
  have "tag_id t = take_bit 10 (tag_id t)"
    by (rule bit_word_eqI) (auto simp: bit_tag_id bit_simps)
  then have "unat (tag_id t) = take_bit 10 (unat (tag_id t))"
    by (metis unsigned_take_bit_eq)
  then show ?thesis
    using take_bit_nat_less_exp [of 10 "unat (tag_id t)"] by simp
qed

lemma body_len_le: "body_len t \<le> 0x3fe"
proof -
  have "unat (tag_length t) \<noteq> 0x3ff" if "\<not> is_special_length t"
    using that by (metis LEN_SPECIAL_def is_special_length_def of_nat_numeral of_nat_unat ucast_id)
  with tag_length_less [of t] show ?thesis by (auto simp: body_len_def)
qed

lemma dsize_ge [simp]: "4 \<le> dsize t" "0 < dsize t"
  by (simp_all add: dsize_def)


section \<open>The type field\<close>

text \<open>The natural domain of a type: \<open>CommitCrc\<close> chunks have bit 7 clear, and an \<open>Unknown\<close> is
  one no known arm claims.\<close>

definition natural_type :: "tag_type \<Rightarrow> bool" where
  "natural_type t \<longleftrightarrow>
     (case t of CommitCrc c \<Rightarrow> c AND 0x80 = 0
      | Unknown a c \<Rightarrow> a < 8 \<and> TagType_of_pair a c = Unknown a c
      | _ \<Rightarrow> True)"

lemma TagType_of_pair_TagType_pair:
  "natural_type t \<Longrightarrow> TagType_of_pair (fst (TagType_pair t)) (snd (TagType_pair t)) = t"
  by (cases t) (simp_all add: natural_type_def TagType_of_pair_def)

lemma TagType_pair_of_pair: "TagType_pair (TagType_of_pair a c) = (a, c)"
  by (simp add: TagType_of_pair_def)

lemma natural_type_of_pair: "a < 8 \<Longrightarrow> natural_type (TagType_of_pair a c)"
  by (simp add: TagType_of_pair_def natural_type_def)

lemma TagType_pair_less: "natural_type t \<Longrightarrow> fst (TagType_pair t) < 8"
  by (cases t) (simp_all add: natural_type_def)

lemma byte_less_8_bit: "(a :: byte) < 8 \<Longrightarrow> bit a n \<Longrightarrow> n < 3"
  using word_bit_ge_exp [of a 3 n] by (force simp: word_less_nat_alt)

lemma bit_TagType_into_bits:
  "bit (TagType_into_bits t) n \<longleftrightarrow>
     (8 \<le> n \<and> n < 16 \<and> bit (fst (TagType_pair t)) (n - 8)) \<or> (n < 8 \<and> bit (snd (TagType_pair t)) n)"
  by (auto simp: TagType_into_bits_def bit_simps split: prod.splits)

lemma TagType_from_into_bits:
  assumes "natural_type t" shows "TagType_from_bits (TagType_into_bits t) = t"
proof -
  have "ucast (take_bit 3 (drop_bit 8 (TagType_into_bits t))) = fst (TagType_pair t)"
    by (rule bit_word_eqI)
       (auto simp: bit_TagType_into_bits bit_simps
             dest: byte_less_8_bit [OF TagType_pair_less [OF assms]])
  moreover have "ucast (take_bit 8 (TagType_into_bits t)) = snd (TagType_pair t)"
    by (rule bit_word_eqI) (auto simp: bit_TagType_into_bits bit_simps)
  ultimately show ?thesis
    using TagType_of_pair_TagType_pair [OF assms] by (simp add: TagType_from_bits_def)
qed

lemma TagType_into_from_bits: "TagType_into_bits (TagType_from_bits w) = take_bit 11 w"
  by (rule bit_word_eqI)
     (auto simp: bit_TagType_into_bits TagType_from_bits_def TagType_pair_of_pair bit_simps)

lemma natural_type_from_bits: "natural_type (TagType_from_bits w)"
proof -
  have "(ucast (take_bit 3 (drop_bit 8 w)) :: byte) < 8"
    using take_bit_nat_less_exp [of 3 "unat (drop_bit 8 w)"]
    by (simp add: word_less_nat_alt unsigned_ucast_eq unsigned_take_bit_eq)
  then show ?thesis
    by (simp add: TagType_from_bits_def natural_type_of_pair)
qed

lemma natural_tag_type [simp]: "natural_type (tag_type t)"
  by (simp add: tag_type_def natural_type_from_bits)


section \<open>Building and reading a tag\<close>

lemma is_valid_Tag_new [simp]: "natural_type tt \<Longrightarrow> is_valid (Tag_new v tt i len) = v"
  using byte_less_8_bit [OF TagType_pair_less, of tt 3]
  by (auto simp: is_valid_bit bit_Tag_new bit_TagType_into_bits)

lemma type_bits_Tag_new: "natural_type tt \<Longrightarrow> type_bits (Tag_new v tt i len) = TagType_into_bits tt"
  by (rule bit_word_eqI)
     (auto simp: bit_type_bits bit_Tag_new bit_TagType_into_bits
           dest: byte_less_8_bit [OF TagType_pair_less])

lemma tag_type_Tag_new [simp]: "natural_type tt \<Longrightarrow> tag_type (Tag_new v tt i len) = tt"
  by (simp add: tag_type_def type_bits_Tag_new TagType_from_into_bits)

lemma tag_id_Tag_new [simp]: "tag_id (Tag_new v tt i len) = take_bit 10 i"
  by (rule bit_word_eqI) (auto simp: bit_tag_id bit_Tag_new bit_simps)

lemma tag_length_Tag_new [simp]: "tag_length (Tag_new v tt i len) = take_bit 10 len"
  by (rule bit_word_eqI) (auto simp: bit_tag_length bit_Tag_new bit_simps)

lemma natural_type_known [simp]:
  "natural_type RegularFile" "natural_type Directory" "natural_type Superblock"
  "natural_type FromMove" "natural_type FromUserAttrs" "natural_type DirStruct"
  "natural_type InlineStruct" "natural_type CtzStruct" "natural_type (UserAttr c)"
  "natural_type Create" "natural_type Delete" "natural_type ForwardCrc"
  "natural_type SoftTail" "natural_type HardTail" "natural_type MoveState"
  "natural_type RelocateState" "natural_type (CommitCrc c) \<longleftrightarrow> c AND 0x80 = 0"
  by (simp_all add: natural_type_def)

lemma byte_less_8_cases: "b < 8 \<Longrightarrow> b \<in> {0, 1, 2, 3, 4, 5, 6, 7}" for b :: byte
proof -
  assume "b < 8"
  then have "unat b \<in> set [0..<8]" by (simp add: word_less_nat_alt)
  then have "of_nat (unat b) \<in> (of_nat :: nat \<Rightarrow> byte) ` set [0..<8]" by (rule imageI)
  then show ?thesis by (simp add: upt_rec)
qed

lemma tag_abstract_type_total: "tag_abstract_type t \<noteq> None"
proof -
  have "(ucast (take_bit 3 (drop_bit 28 t)) :: byte) < 8"
    using take_bit_nat_less_exp [of 3 "unat (drop_bit 28 t)"]
    by (simp add: word_less_nat_alt unsigned_ucast_eq unsigned_take_bit_eq)
  from byte_less_8_cases [OF this] show ?thesis
    by (auto simp: tag_abstract_type_def AbstractType_from_bits_def)
qed


lemma take_bit_eq_iff_bits:
  "take_bit k x = take_bit k y \<longleftrightarrow> (\<forall>n<k. bit x n = bit y n)" for x y :: "'a::len word"
  by (auto simp: bit_eq_iff bit_simps dest: bit_imp_le_length)

lemma TagType_of_pair_ccrc:
  "(case TagType_of_pair a c of CommitCrc _ \<Rightarrow> True | _ \<Rightarrow> False) \<longleftrightarrow> a = 5 \<and> c AND 0x80 = 0"
  by (simp add: TagType_of_pair_def)

lemma byte_and_0x80: "c AND 0x80 = 0 \<longleftrightarrow> \<not> bit c 7" for c :: byte
  using and_exp_eq_0_iff_not_bit [of c 7] by simp

lemma is_ccrc_bits:
  "is_ccrc t \<longleftrightarrow> bit t 28 \<and> \<not> bit t 29 \<and> bit t 30 \<and> \<not> bit t 27"
proof -
  have b5: "(5 :: byte) = take_bit 3 5" by simp
  have "ucast (take_bit 3 (drop_bit 8 (type_bits t))) = (5 :: byte) \<longleftrightarrow>
        take_bit 3 (ucast (drop_bit 8 (type_bits t)) :: byte) = take_bit 3 5"
    by (subst b5) (simp add: bit_eq_iff bit_simps)
  also have "\<dots> \<longleftrightarrow> bit t 28 \<and> \<not> bit t 29 \<and> bit t 30"
    unfolding take_bit_eq_iff_bits
    by (simp add: numeral_eq_Suc All_less_Suc2 bit_simps bit_type_bits)
  finally show ?thesis
    by (simp add: is_ccrc_def tag_type_def TagType_from_bits_def TagType_of_pair_ccrc
        byte_and_0x80 bit_simps bit_type_bits)
qed

lemma is_ccrc_iff_chunk: "is_ccrc t \<longleftrightarrow> (\<exists>c. ccrc_chunk t = Some c)"
  by (auto simp: is_ccrc_def ccrc_chunk_def split: tag_type.splits)

lemma ccrc_chunk_Some: "ccrc_chunk t = Some c \<longleftrightarrow> tag_type t = CommitCrc c"
  by (auto simp: ccrc_chunk_def split: tag_type.splits)

lemma tag_xor_self_inverse: "tag_xor (tag_xor s t) t = s"
  by (simp add: tag_xor_def xor.assoc)

text \<open>Every 32 bit word is exactly the tag built from its own decoded valid bit, concrete
  type, id and length: decoding loses no bit, unknown type fields included.\<close>

theorem tag_decode_encode:
  "Tag_new (is_valid w) (tag_type w) (tag_id w) (tag_length w) = w"
proof (rule bit_word_eqI)
  fix n assume "n < LENGTH(32)"
  then have "n < 32" by simp
  then consider "n < 10" | "10 \<le> n" "n < 20" | "20 \<le> n" "n < 31" | "n = 31" by linarith
  then show "bit (Tag_new (is_valid w) (tag_type w) (tag_id w) (tag_length w)) n = bit w n"
    by cases
       (auto simp: bit_Tag_new bit_tag_id bit_tag_length is_valid_bit tag_type_def
          TagType_into_from_bits bit_simps bit_type_bits)
qed

text \<open>A tag built from a type in its natural domain reads back its valid bit and its type
  unchanged, and its id and length masked to ten bits.\<close>

theorem tag_encode_decode:
  assumes "natural_type tt"
  shows "is_valid (Tag_new v tt i len) = v \<and> tag_type (Tag_new v tt i len) = tt \<and>
         tag_id (Tag_new v tt i len) = i AND 0x3ff \<and>
         tag_length (Tag_new v tt i len) = len AND 0x3ff"
  using assms by simp

theorem tag_encode_decode_witness:
  "natural_type Superblock \<and> tag_type (Tag_new True Superblock 0 8) = Superblock \<and>
   Tag_new True Superblock 0 8 = 0x0ff00008"
  using tag_encode_decode [of Superblock True 0 8]
  by (simp add: Tag_new_def TagType_into_bits_def)

text \<open>The tags that end a commit are exactly those the mask test
  \<open>(tag & 0x78000000) == 0x50000000\<close> selects: type fields \<open>0x500\<close> to \<open>0x57f\<close>, whatever the
  valid bit, id and length.\<close>

theorem is_ccrc_mask: "is_ccrc t \<longleftrightarrow> t AND 0x78000000 = 0x50000000"
proof -
  have m: "(0x78000000 :: u32) = push_bit 27 (mask 4)" "(0x50000000 :: u32) = push_bit 27 (take_bit 4 10)"
    by (simp_all add: mask_eq_exp_minus_1)
  have "t AND 0x78000000 = push_bit 27 (take_bit 4 (drop_bit 27 t))"
    unfolding m by (rule bit_word_eqI) (auto simp: bit_simps)
  moreover have "push_bit 27 (take_bit 4 x) = push_bit 27 (take_bit 4 y) \<longleftrightarrow> take_bit 4 x = take_bit 4 y"
    for x y :: u32
  proof -
    have "drop_bit 27 (push_bit 27 (take_bit 4 z)) = take_bit 4 z" for z :: u32
      by (rule bit_word_eqI) (auto simp: bit_simps)
    then show ?thesis by metis
  qed
  ultimately have "t AND 0x78000000 = 0x50000000 \<longleftrightarrow> take_bit 4 (drop_bit 27 t) = take_bit 4 10"
    unfolding m by (simp only:)
  also have "\<dots> \<longleftrightarrow> \<not> bit t 27 \<and> bit t 28 \<and> \<not> bit t 29 \<and> bit t 30"
    unfolding take_bit_eq_iff_bits
    by (simp add: numeral_eq_Suc All_less_Suc2 bit_simps)
  finally show ?thesis by (auto simp: is_ccrc_bits)
qed
end
