(* ===== verification/Blocks.thy ===== *)
theory Blocks
  imports Errors "HOL-Library.Word"
begin

text \<open>
  Block coordinates (\<open>src/src/block.rs\<close>): a block address is a \<open>u32\<close> newtype with the all ones
  sentinel \<open>NONE\<close>, a metadata pair is two addresses whose order carries no meaning on disk.
\<close>

datatype block_address = BlockAddress (as_u32: u32)

instantiation block_address :: linorder
begin

definition less_eq_block_address :: "block_address \<Rightarrow> block_address \<Rightarrow> bool" where
  "less_eq_block_address x y \<longleftrightarrow> as_u32 x \<le> as_u32 y"

definition less_block_address :: "block_address \<Rightarrow> block_address \<Rightarrow> bool" where
  "less_block_address x y \<longleftrightarrow> as_u32 x < as_u32 y"

instance
  by standard
    (auto simp: less_eq_block_address_def less_block_address_def block_address.expand)

end

definition block_NONE :: block_address where
  "block_NONE = BlockAddress 0xFFFFFFFF"

definition is_none :: "block_address \<Rightarrow> bool" where
  "is_none b \<longleftrightarrow> as_u32 b = 0xFFFFFFFF"

record block_pair =
  bp_a :: block_address
  bp_b :: block_address

definition pair_new :: "block_address \<Rightarrow> block_address \<Rightarrow> block_pair" where
  "pair_new x y = \<lparr>bp_a = x, bp_b = y\<rparr>"

definition ROOT_BLOCK_PAIR :: block_pair where
  "ROOT_BLOCK_PAIR = pair_new (BlockAddress 0) (BlockAddress 1)"

definition pair_sorted :: "block_pair \<Rightarrow> block_address \<times> block_address" where
  "pair_sorted p = (if bp_a p \<le> bp_b p then (bp_a p, bp_b p) else (bp_b p, bp_a p))"

definition is_same_pair :: "block_pair \<Rightarrow> block_pair \<Rightarrow> bool" where
  "is_same_pair p q \<longleftrightarrow> pair_sorted p = pair_sorted q"

definition pair_is_null :: "block_pair \<Rightarrow> bool" where
  "pair_is_null p \<longleftrightarrow> is_none (bp_a p) \<or> is_none (bp_b p)"

definition contains_pair :: "block_pair list \<Rightarrow> block_pair \<Rightarrow> bool" where
  "contains_pair pairs p = list_ex (\<lambda>q. is_same_pair q p) pairs"

text \<open>A pair as the set of the two physical blocks it names.\<close>

definition pair_blocks :: "block_pair \<Rightarrow> block_address set" where
  "pair_blocks p = {bp_a p, bp_b p}"

lemma pair_new_sel [simp]: "bp_a (pair_new x y) = x" "bp_b (pair_new x y) = y"
  by (simp_all add: pair_new_def)

lemma is_none_iff [simp]: "is_none b \<longleftrightarrow> b = block_NONE"
  by (cases b) (simp add: is_none_def block_NONE_def)

lemma pair_sorted_le: "fst (pair_sorted p) \<le> snd (pair_sorted p)"
  by (auto simp: pair_sorted_def)

lemma pair_sorted_set: "{fst (pair_sorted p), snd (pair_sorted p)} = pair_blocks p"
  by (auto simp: pair_sorted_def pair_blocks_def)

text \<open>Order insensitive identity is equality of the physical block sets, hence an
  equivalence; this is the key of every visited set in the walkers.\<close>

lemma is_same_pair_blocks: "is_same_pair p q \<longleftrightarrow> pair_blocks p = pair_blocks q"
proof
  assume "is_same_pair p q"
  then show "pair_blocks p = pair_blocks q"
    using pair_sorted_set [of p] pair_sorted_set [of q] by (simp add: is_same_pair_def)
next
  assume "pair_blocks p = pair_blocks q"
  then show "is_same_pair p q"
    by (auto simp: is_same_pair_def pair_sorted_def pair_blocks_def doubleton_eq_iff)
qed

lemma is_same_pair_refl [simp]: "is_same_pair p p"
  by (simp add: is_same_pair_blocks)

lemma is_same_pair_sym: "is_same_pair p q \<Longrightarrow> is_same_pair q p"
  by (simp add: is_same_pair_blocks)

lemma is_same_pair_trans: "is_same_pair p q \<Longrightarrow> is_same_pair q r \<Longrightarrow> is_same_pair p r"
  by (simp add: is_same_pair_blocks)

lemma is_same_pair_swap [simp]: "is_same_pair (pair_new x y) (pair_new y x)"
  by (auto simp: is_same_pair_blocks pair_blocks_def)

lemma contains_pair_iff: "contains_pair ps p \<longleftrightarrow> pair_blocks p \<in> pair_blocks ` set ps"
  by (auto simp: contains_pair_def list_ex_iff is_same_pair_blocks)

lemma contains_pair_append [simp]:
  "contains_pair (ps @ qs) p \<longleftrightarrow> contains_pair ps p \<or> contains_pair qs p"
  by (simp add: contains_pair_def)

end
