(* ===== verification/Crc.thy ===== *)
theory Crc
  imports Prelude
begin

text \<open>
  The CRC-32 of LittleFS (\<open>src/src/crc.rs\<close>): the table driven \<open>update\<close> the crate uses, the
  bit by bit \<open>update_bitwise\<close> it documents as the reference, and their equivalence. The
  detection lemmas say what a stored commit CRC rules out.
\<close>

definition NIBBLE_TABLE :: "u32 list" where
  "NIBBLE_TABLE =
     [0x00000000, 0x1db71064, 0x3b6e20c8, 0x26d930ac, 0x76dc4190, 0x6b6b51f4, 0x4db26158, 0x5005713c,
      0xedb88320, 0xf00f9344, 0xd6d6a3e8, 0xcb61b38c, 0x9b64c2b0, 0x86d3d2d4, 0xa00ae278, 0xbdbdf21c]"

definition crc_INIT :: u32 where "crc_INIT = 0xFFFFFFFF"

definition crc_byte :: "u32 \<Rightarrow> byte \<Rightarrow> u32" where
  "crc_byte crc b =
     (let crc1 = drop_bit 4 crc XOR (NIBBLE_TABLE ! unat ((crc XOR ucast b) AND 0xf))
      in drop_bit 4 crc1 XOR (NIBBLE_TABLE ! unat ((crc1 XOR ucast (drop_bit 4 b)) AND 0xf)))"

fun crc_update :: "u32 \<Rightarrow> byte list \<Rightarrow> u32" where
  "crc_update crc [] = crc"
| "crc_update crc (b # bs) = crc_update (crc_byte crc b) bs"

definition crc_compute :: "byte list \<Rightarrow> u32" where
  "crc_compute data = crc_update crc_INIT data"

definition crc_bit :: "u32 \<Rightarrow> u32" where
  "crc_bit crc = (let m = - (crc AND 1) in drop_bit 1 crc XOR (0xEDB88320 AND m))"

fun crc_update_bitwise :: "u32 \<Rightarrow> byte list \<Rightarrow> u32" where
  "crc_update_bitwise crc [] = crc"
| "crc_update_bitwise crc (b # bs) = crc_update_bitwise ((crc_bit ^^ 8) (crc XOR ucast b)) bs"


section \<open>One bit step\<close>

lemma crc_bit_eq: "crc_bit x = (if bit x 0 then drop_bit 1 x XOR 0xEDB88320 else drop_bit 1 x)"
proof (cases "bit x 0")
  case True
  then have "x AND 1 = 1" by (simp add: and_one_eq bit_0 mod_2_eq_odd)
  with True show ?thesis by (simp add: crc_bit_def)
next
  case False
  then have "x AND 1 = 0" by (simp add: and_one_eq bit_0 mod_2_eq_odd)
  with False show ?thesis by (simp add: crc_bit_def)
qed

lemma drop_bit_xor: "drop_bit n (x XOR y) = drop_bit n x XOR drop_bit n (y :: u32)"
  by (rule bit_word_eqI) (simp add: bit_simps)

lemma crc_bit_xor: "crc_bit (x XOR y) = crc_bit x XOR crc_bit y"
  by (auto simp: crc_bit_eq bit_xor_iff drop_bit_xor ac_simps simp flip: xor.assoc)

lemma crc_bits_xor: "(crc_bit ^^ n) (x XOR y) = (crc_bit ^^ n) x XOR (crc_bit ^^ n) y"
  by (induction n arbitrary: x y) (simp_all add: crc_bit_xor del: funpow.simps add: funpow_Suc_right)

lemma crc_bit_shift: "\<not> bit x 0 \<Longrightarrow> crc_bit x = drop_bit 1 x"
  by (simp add: crc_bit_eq)

lemma crc_bits_shift: "(\<And>k. k < n \<Longrightarrow> \<not> bit x k) \<Longrightarrow> (crc_bit ^^ n) x = drop_bit n x"
proof (induction n arbitrary: x)
  case (Suc n)
  then have "crc_bit x = drop_bit 1 x" by (simp add: crc_bit_shift)
  moreover have "(crc_bit ^^ n) (drop_bit 1 x) = drop_bit n (drop_bit 1 x)"
    using Suc.prems by (intro Suc.IH) (simp add: bit_simps)
  ultimately show ?case by (simp add: funpow_Suc_right del: funpow.simps)
qed simp

text \<open>The step is injective: its top bit tells which branch was taken.\<close>

lemma crc_bit_zero: "crc_bit x = 0 \<Longrightarrow> x = 0"
proof -
  assume z: "crc_bit x = 0"
  have nb: "\<not> bit x 0"
  proof
    assume b: "bit x 0"
    then have "bit (crc_bit x) 31 \<longleftrightarrow> True"
      by (simp add: crc_bit_eq bit_simps)
    with z show False by simp
  qed
  with z have d: "drop_bit 1 x = 0" by (simp add: crc_bit_eq)
  show "x = 0"
  proof (rule bit_word_eqI)
    fix n
    have "bit (drop_bit 1 x) k = False" for k using d by simp
    then have "\<not> bit x (Suc k)" for k by (simp add: bit_simps)
    with nb show "bit x n = bit 0 n" by (cases n) simp_all
  qed
qed

lemma crc_bits_zero: "(crc_bit ^^ n) x = 0 \<Longrightarrow> x = 0"
  by (induction n arbitrary: x) (auto dest: crc_bit_zero)

lemma xor_right_inject: "x XOR z = y XOR z \<longleftrightarrow> x = (y :: u32)"
proof
  assume "x XOR z = y XOR z"
  then have "(x XOR z) XOR z = (y XOR z) XOR z" by simp
  then show "x = y" by (simp add: xor.assoc)
qed simp

lemma xor_eq_0_iff_eq: "x XOR y = 0 \<longleftrightarrow> x = (y :: u32)"
  using xor_right_inject [of x y y] by simp

lemma crc_bits_inject: "(crc_bit ^^ n) x = (crc_bit ^^ n) y \<longleftrightarrow> x = y"
  using crc_bits_zero [of n "x XOR y"] by (auto simp: crc_bits_xor xor_eq_0_iff_eq)


section \<open>The nibble table encodes four bit steps\<close>

lemma NIBBLE_TABLE_entries: "\<forall>n\<in>set [0..<16]. (crc_bit ^^ 4) (of_nat n) = NIBBLE_TABLE ! n"
  by code_simp

lemma nibble_step: "(crc_bit ^^ 4) x = drop_bit 4 x XOR (NIBBLE_TABLE ! unat (x AND 0xf))"
proof -
  have f: "x AND 0xf = take_bit 4 x"
    using take_bit_eq_mask [of 4 x] by (simp add: mask_eq_exp_minus_1)
  have "unat (take_bit 4 x) < 16"
    using take_bit_nat_less_exp [of 4 "unat x"] by (simp add: unsigned_take_bit_eq)
  then have t: "(crc_bit ^^ 4) (take_bit 4 x) = NIBBLE_TABLE ! unat (take_bit 4 x)"
    using NIBBLE_TABLE_entries by (metis atLeastLessThan_iff le0 of_nat_unat set_upt ucast_id)
  have "x = take_bit 4 x XOR push_bit 4 (drop_bit 4 x)"
    by (rule bit_word_eqI) (auto simp: bit_simps)
  then have "(crc_bit ^^ 4) x = (crc_bit ^^ 4) (take_bit 4 x) XOR (crc_bit ^^ 4) (push_bit 4 (drop_bit 4 x))"
    by (metis crc_bits_xor)
  also have "(crc_bit ^^ 4) (push_bit 4 (drop_bit 4 x)) = drop_bit 4 (push_bit 4 (drop_bit 4 x))"
    by (rule crc_bits_shift) (simp add: bit_simps)
  also have "\<dots> = drop_bit 4 x"
    by (rule bit_word_eqI) (auto simp: bit_simps dest: bit_imp_le_length)
  finally show ?thesis by (simp add: t f ac_simps)
qed

lemma crc_byte_bitwise: "crc_byte crc b = (crc_bit ^^ 8) (crc XOR ucast b)"
proof -
  define crc1 where "crc1 = drop_bit 4 crc XOR (NIBBLE_TABLE ! unat ((crc XOR ucast b) AND 0xf))"
  have d1: "drop_bit 4 (ucast b :: u32) = ucast (drop_bit 4 b)"
    by (rule bit_word_eqI) (auto simp: bit_simps dest: bit_imp_le_length)
  have d2: "drop_bit 4 (ucast (drop_bit 4 b) :: u32) = 0"
    by (rule bit_word_eqI) (auto simp: bit_simps)
  have one: "(crc_bit ^^ 4) (crc XOR ucast b) = crc1 XOR ucast (drop_bit 4 b)"
    by (simp add: nibble_step crc1_def drop_bit_xor d1 ac_simps)
  have "(crc_bit ^^ 8) (crc XOR ucast b) = (crc_bit ^^ 4) ((crc_bit ^^ 4) (crc XOR ucast b))"
    using funpow_add [of 4 4 crc_bit] by simp
  also have "\<dots> = drop_bit 4 crc1 XOR (NIBBLE_TABLE ! unat ((crc1 XOR ucast (drop_bit 4 b)) AND 0xf))"
    unfolding one by (simp add: nibble_step drop_bit_xor d2)
  finally show ?thesis by (simp add: crc_byte_def crc1_def Let_def)
qed

lemma crc_update_append [simp]: "crc_update s (xs @ ys) = crc_update (crc_update s xs) ys"
  by (induction xs arbitrary: s) simp_all

lemma crc_byte_inject: "crc_byte s b = crc_byte t b \<longleftrightarrow> s = t"
  by (simp add: crc_byte_bitwise crc_bits_inject xor_right_inject)

lemma crc_update_inject: "crc_update s xs = crc_update t xs \<longleftrightarrow> s = t"
  by (induction xs arbitrary: s t) (simp_all add: crc_byte_inject)


section \<open>Short bursts\<close>

text \<open>Up to four bytes enter the register as one little endian word.\<close>

fun le_word :: "byte list \<Rightarrow> u32" where
  "le_word [] = 0"
| "le_word (b # bs) = ucast b XOR push_bit 8 (le_word bs)"

lemma bit_le_word_ge: "8 * length bs \<le> n \<Longrightarrow> \<not> bit (le_word bs) n"
  by (induction bs arbitrary: n) (auto simp: bit_simps)

lemma crc_update_le_word:
  "length bs \<le> 4 \<Longrightarrow> crc_update s bs = (crc_bit ^^ (8 * length bs)) (s XOR le_word bs)"
proof (induction bs arbitrary: s)
  case (Cons b bs)
  have w: "(crc_bit ^^ 8) (push_bit 8 (le_word bs)) = le_word bs"
  proof -
    have "(crc_bit ^^ 8) (push_bit 8 (le_word bs)) = drop_bit 8 (push_bit 8 (le_word bs))"
      by (rule crc_bits_shift) (simp add: bit_simps)
    also have "\<dots> = le_word bs"
    proof (rule bit_word_eqI)
      fix n show "bit (drop_bit 8 (push_bit 8 (le_word bs))) n = bit (le_word bs) n"
        using Cons.prems bit_le_word_ge [of bs n] by (cases "n < 24") (auto simp: bit_simps)
    qed
    finally show ?thesis .
  qed
  have "crc_update s (b # bs) = (crc_bit ^^ (8 * length bs)) (crc_byte s b XOR le_word bs)"
    using Cons by simp
  also have "crc_byte s b XOR le_word bs = (crc_bit ^^ 8) (s XOR le_word (b # bs))"
    by (simp add: crc_byte_bitwise crc_bits_xor w xor.assoc)
  finally show ?case
    using funpow_add [of "8 * length bs" 8 crc_bit] by (simp add: add.commute)
qed simp

lemma le_word_inject:
  "length xs = length ys \<Longrightarrow> length xs \<le> 4 \<Longrightarrow> le_word xs = le_word ys \<Longrightarrow> xs = ys"
proof (induction xs ys rule: list_induct2)
  case (Cons x xs y ys)
  have bits: "bit (le_word (x # xs)) n = bit (le_word (y # ys)) n" for n
    using Cons.prems by simp
  have "x = y"
  proof (rule bit_word_eqI)
    fix n assume "n < LENGTH(8)"
    then show "bit x n = bit y n" using bits [of n] by (simp add: bit_simps)
  qed
  moreover have "le_word xs = le_word ys"
  proof (rule bit_word_eqI)
    fix n show "bit (le_word xs) n = bit (le_word ys) n"
      using bits [of "8 + n"] Cons.prems Cons.hyps
      by (cases "n < 24") (auto simp: bit_simps bit_le_word_ge)
  qed
  ultimately show ?case using Cons by simp
qed simp

lemma crc_update_burst:
  assumes "length u = length v" and "length u \<le> 4" and "u \<noteq> v"
  shows "crc_update s (p @ u @ q) \<noteq> crc_update s (p @ v @ q)"
proof
  assume "crc_update s (p @ u @ q) = crc_update s (p @ v @ q)"
  then have "crc_update (crc_update s p) u = crc_update (crc_update s p) v"
    by (simp add: crc_update_inject)
  then have "crc_update s p XOR le_word u = crc_update s p XOR le_word v"
    using assms by (simp add: crc_update_le_word crc_bits_inject)
  then have "le_word u = le_word v"
    by (simp add: xor_right_inject xor.commute [of "crc_update s p"])
  with assms show False using le_word_inject by blast
qed

text \<open>C32. The table driven CRC equals the bit by bit reference over the polynomial
  \<open>0xEDB88320\<close>, for every seed and every input.\<close>

theorem crc_table_matches_bitwise: "crc_update crc data = crc_update_bitwise crc data"
  by (induction data arbitrary: crc) (simp_all add: crc_byte_bitwise)

text \<open>C33. Corruption confined to at most four consecutive bytes is always detected: if two equally
  long inputs differ only inside such a window, their CRCs differ.\<close>

theorem crc_detects_short_bursts:
  assumes "length u = length v" and "length u \<le> 4" and "u \<noteq> v"
  shows "crc_update s (p @ u @ q) \<noteq> crc_update s (p @ v @ q)"
  using assms by (rule crc_update_burst)

theorem crc_detects_short_bursts_witness:
  "length [1, 2, 3, 4 :: byte] = length [1, 2, 9, 4 :: byte] \<and>
   crc_update crc_INIT ([0] @ [1, 2, 3, 4] @ [7]) \<noteq> crc_update crc_INIT ([0] @ [1, 2, 9, 4] @ [7])"
  using crc_detects_short_bursts [of "[1, 2, 3, 4]" "[1, 2, 9, 4]" crc_INIT "[0]" "[7]"] by simp

text \<open>The published check value of CRC-32/ISO-HDLC, as the unit test of the source pins it.\<close>

lemma crc_check_value:
  "NOT (crc_compute [0x31, 0x32, 0x33, 0x34, 0x35, 0x36, 0x37, 0x38, 0x39]) = 0xCBF43926"
  by code_simp

end
