(* ===== verification/Geometry.thy ===== *)
theory Geometry
  imports Errors
begin

text \<open>
  The geometry preconditions on a \<open>Storage\<close> implementation (\<open>src/src/geometry.rs\<close>): the ordered
  fault table and the gate \<open>validate\<close> that \<open>Fs::mount\<close> and \<open>Fs::format\<close> run first.
\<close>

definition BLOCK_SIZE_MIN :: nat where "BLOCK_SIZE_MIN = 128"

definition BLOCK_COUNT_MIN :: u32 where "BLOCK_COUNT_MIN = 2"

datatype geometry_fault =
    ZeroReadSize
  | ZeroProgSize
  | ProgSizeOffTheReadGrid
  | BlockSizeBelowFloor
  | BlockSizeOffTheProgGrid
  | BlockSizePastTheWordCeiling
  | BlockCountBelowRootPair

definition fault_for :: "nat \<Rightarrow> nat \<Rightarrow> nat \<Rightarrow> u32 \<Rightarrow> geometry_fault option" where
  "fault_for read_size prog_size block_size block_count =
     (if read_size = 0 then Some ZeroReadSize
      else if prog_size = 0 then Some ZeroProgSize
      else if prog_size mod read_size \<noteq> 0 then Some ProgSizeOffTheReadGrid
      else if block_size < BLOCK_SIZE_MIN then Some BlockSizeBelowFloor
      else if block_size mod prog_size \<noteq> 0 then Some BlockSizeOffTheProgGrid
      else if block_size > 0xFFFFFFFF then Some BlockSizePastTheWordCeiling
      else if block_count < BLOCK_COUNT_MIN then Some BlockCountBelowRootPair
      else None)"

definition geometry_validate :: "nat \<Rightarrow> nat \<Rightarrow> nat \<Rightarrow> u32 \<Rightarrow> unit result" where
  "geometry_validate read_size prog_size block_size block_count =
     (case fault_for read_size prog_size block_size block_count of
        None \<Rightarrow> Inr ()
      | Some _ \<Rightarrow> Inl GeometryMismatch)"

fun fault_as_str :: "geometry_fault \<Rightarrow> string" where
  "fault_as_str ZeroReadSize = ''Storage::READ_SIZE is zero''"
| "fault_as_str ZeroProgSize = ''Storage::PROG_SIZE is zero''"
| "fault_as_str ProgSizeOffTheReadGrid = ''Storage::PROG_SIZE is not a multiple of Storage::READ_SIZE''"
| "fault_as_str BlockSizeBelowFloor = ''Storage::BLOCK_SIZE is below the 128 byte floor''"
| "fault_as_str BlockSizeOffTheProgGrid = ''Storage::BLOCK_SIZE is not a multiple of Storage::PROG_SIZE''"
| "fault_as_str BlockSizePastTheWordCeiling = ''Storage::BLOCK_SIZE does not fit a u32''"
| "fault_as_str BlockCountBelowRootPair = ''Storage::BLOCK_COUNT is below 2''"

lemma fault_for_None_iff:
  "fault_for r p b c = None \<longleftrightarrow>
     r \<noteq> 0 \<and> p \<noteq> 0 \<and> r dvd p \<and> 128 \<le> b \<and> p dvd b \<and> b < 2 ^ 32 \<and> 2 \<le> c"
  by (auto simp: fault_for_def BLOCK_SIZE_MIN_def BLOCK_COUNT_MIN_def mod_eq_0_iff_dvd not_less)

text \<open>The geometry gate passes exactly the devices whose read and program units are positive
  and divide the next unit up, whose block size lies between 128 bytes and a \<open>u32\<close>, and that hold
  the root pair; a passing block size is therefore also on the read grid. Every other device is
  refused with \<open>GeometryMismatch\<close>.\<close>

theorem geometry_gate:
  "(geometry_validate r p b c = Inr () \<longleftrightarrow>
      r \<noteq> 0 \<and> p \<noteq> 0 \<and> r dvd p \<and> 128 \<le> b \<and> p dvd b \<and> r dvd b \<and> b < 2 ^ 32 \<and> 2 \<le> c)
   \<and> geometry_validate r p b c \<in> {Inr (), Inl GeometryMismatch}"
  using fault_for_None_iff [of r p b c]
  by (auto simp: geometry_validate_def split: option.splits intro: dvd_trans)

end
