(* ===== verification/Paths.thy ===== *)
theory Paths
  imports Errors
begin

text \<open>
  Validated paths (\<open>src/src/path.rs\<close>). A path is the byte list of its UTF-8 text (the source takes
  a \<open>&str\<close>, which is UTF-8 by type); every test the code makes is on bytes or byte lengths.
\<close>

definition NAME_MAX :: nat where "NAME_MAX = 255"

definition MAX_PATH :: nat where "MAX_PATH = 4096"

abbreviation SLASH :: byte where "SLASH \<equiv> 0x2f"

abbreviation DOT :: byte where "DOT \<equiv> 0x2e"

text \<open>\<open>str::split('/')\<close> and the trims of the standard library.\<close>

fun split_slash :: "byte list \<Rightarrow> byte list list" where
  "split_slash [] = [[]]"
| "split_slash (c # cs) =
     (if c = SLASH then [] # split_slash cs
      else case split_slash cs of w # ws \<Rightarrow> (c # w) # ws | [] \<Rightarrow> [[c]])"

definition trim_start :: "byte list \<Rightarrow> byte list" where
  "trim_start s = dropWhile (\<lambda>c. c = SLASH) s"

definition trim_end :: "byte list \<Rightarrow> byte list" where
  "trim_end s = rev (dropWhile (\<lambda>c. c = SLASH) (rev s))"

definition strip_slash :: "byte list \<Rightarrow> byte list" where
  "strip_slash s = (case s of c # cs \<Rightarrow> if c = SLASH then cs else s | [] \<Rightarrow> s)"

fun validate_components :: "byte list list \<Rightarrow> unit result" where
  "validate_components [] = Inr ()"
| "validate_components (component # rest) =
     (if component = [] then Inl InvalidPath
      else if length component > NAME_MAX then Inl InvalidPath
      else if component = [DOT] \<or> component = [DOT, DOT] then Inl InvalidPath
      else validate_components rest)"

definition path_validate :: "byte list \<Rightarrow> unit result" where
  "path_validate s =
     (if s = [] \<or> length s > MAX_PATH then Inl InvalidPath
      else if s = [SLASH] then Inr ()
      else let working = strip_slash s
           in if working \<noteq> [] \<and> last working = SLASH then Inl InvalidPath
              else validate_components (split_slash working))"

definition path_new :: "byte list \<Rightarrow> byte list result" where
  "path_new s = rbind (path_validate s) (\<lambda>_. Inr s)"

definition is_absolute :: "byte list \<Rightarrow> bool" where
  "is_absolute p \<longleftrightarrow> p \<noteq> [] \<and> hd p = SLASH"

definition is_root :: "byte list \<Rightarrow> bool" where
  "is_root p \<longleftrightarrow> p = [SLASH]"

text \<open>\<open>Components::next\<close> on the remaining text: the item and the new remaining text.\<close>

definition components_next :: "byte list \<Rightarrow> (byte list \<times> byte list) option" where
  "components_next remaining =
     (if remaining = [] then None
      else let head = takeWhile (\<lambda>c. c \<noteq> SLASH) remaining
           in if SLASH \<in> set remaining then Some (head, drop (length head + 1) remaining)
              else Some (remaining, []))"

function collect_components :: "byte list \<Rightarrow> byte list list" where
  "collect_components remaining =
     (case components_next remaining of
        None \<Rightarrow> []
      | Some (head, rest) \<Rightarrow> head # collect_components rest)"
  by pat_completeness auto
termination
  by (relation "measure length") (auto simp: components_next_def Let_def split: if_splits)

declare collect_components.simps [simp del]

definition components :: "byte list \<Rightarrow> byte list list" where
  "components p = collect_components (trim_end (trim_start p))"


section \<open>Splitting and joining\<close>

fun join_slash :: "byte list list \<Rightarrow> byte list" where
  "join_slash [] = []"
| "join_slash [w] = w"
| "join_slash (w # ws) = w @ SLASH # join_slash ws"

lemma split_slash_nonempty [simp]: "split_slash s \<noteq> []"
  by (cases s) (auto split: list.splits)

lemma split_slash_no_slash: "w \<in> set (split_slash s) \<Longrightarrow> SLASH \<notin> set w"
  by (induction s arbitrary: w) (auto split: if_splits list.splits)

lemma join_split_slash: "join_slash (split_slash s) = s"
proof (induction s)
  case (Cons c cs)
  obtain w ws where "split_slash cs = w # ws" by (cases "split_slash cs") auto
  with Cons show ?case by (cases ws) auto
qed simp

lemma split_slash_takeWhile:
  "split_slash s =
     (if SLASH \<in> set s
      then takeWhile (\<lambda>c. c \<noteq> SLASH) s # split_slash (drop (length (takeWhile (\<lambda>c. c \<noteq> SLASH) s) + 1) s)
      else [s])"
  by (induction s) auto

text \<open>Without an empty component the iterator of the source yields exactly the split.\<close>

lemma collect_components_split:
  "[] \<notin> set (split_slash s) \<Longrightarrow> collect_components s = split_slash s"
proof (induction s rule: collect_components.induct)
  case (1 s)
  show ?case
  proof (cases "SLASH \<in> set s")
    case True
    then have ne: "s \<noteq> []" by auto
    let ?h = "takeWhile (\<lambda>c. c \<noteq> SLASH) s" and ?r = "drop (length (takeWhile (\<lambda>c. c \<noteq> SLASH) s) + 1) s"
    have nx: "components_next s = Some (?h, ?r)"
      using True ne by (simp add: components_next_def Let_def)
    have sp: "split_slash s = ?h # split_slash ?r"
      using True by (subst split_slash_takeWhile) simp
    with "1.prems" have "collect_components ?r = split_slash ?r"
      by (intro "1.IH" [OF nx]) auto
    then show ?thesis using nx sp by (subst collect_components.simps) simp
  next
    case False
    then have sp: "split_slash s = [s]" by (subst split_slash_takeWhile) simp
    with "1.prems" have "s \<noteq> []" by auto
    with False have "components_next s = Some (s, [])" by (simp add: components_next_def)
    moreover have "collect_components [] = []"
      by (subst collect_components.simps) (simp add: components_next_def)
    ultimately show ?thesis using sp by (subst collect_components.simps) simp
  qed
qed

lemma validate_components_ok:
  "validate_components cs = Inr () \<longleftrightarrow>
     (\<forall>c\<in>set cs. c \<noteq> [] \<and> length c \<le> NAME_MAX \<and> c \<noteq> [DOT] \<and> c \<noteq> [DOT, DOT])"
  by (induction cs) auto

lemma split_slash_snoc: "split_slash (xs @ [SLASH]) = split_slash xs @ [[]]"
  by (induction xs) (auto split: list.splits simp: Cons_eq_append_conv)

lemma split_slash_hd_last:
  assumes "[] \<notin> set (split_slash s)"
  shows "s \<noteq> []" "hd s \<noteq> SLASH" "last s \<noteq> SLASH"
proof -
  show ne: "s \<noteq> []" using assms by auto
  show "hd s \<noteq> SLASH" using assms ne by (cases s) auto
  have "last s = SLASH \<Longrightarrow> s \<noteq> [] \<Longrightarrow> [] \<in> set (split_slash s)" for s
    by (metis split_slash_snoc append_butlast_last_id in_set_conv_decomp)
  with assms ne show "last s \<noteq> SLASH" by blast
qed

lemma trims_id: "s \<noteq> [] \<Longrightarrow> hd s \<noteq> SLASH \<Longrightarrow> last s \<noteq> SLASH \<Longrightarrow> trim_end (trim_start s) = s"
  by (simp add: trim_start_def trim_end_def dropWhile_eq_self_iff [THEN iffD2] hd_rev)

lemma trims_strip:
  assumes "[] \<notin> set (split_slash (strip_slash s))"
  shows "trim_end (trim_start s) = strip_slash s"
proof -
  note h = split_slash_hd_last [OF assms]
  have "trim_start s = trim_start (strip_slash s)"
    by (cases s) (auto simp: trim_start_def strip_slash_def)
  then show ?thesis using trims_id h by metis
qed

text \<open>C34. A path that the constructor accepts decomposes into components that are nonempty, at most
  255 bytes, free of separators and neither \<open>.\<close> nor \<open>..\<close>, and joining them with \<open>/\<close> (after the
  leading slash of an absolute path) gives the path back; it has no component exactly when it is
  the root.\<close>

theorem path_components_roundtrip:
  assumes "path_new s = Inr p"
  shows "p = s \<and>
    (\<forall>c\<in>set (components p). c \<noteq> [] \<and> length c \<le> NAME_MAX \<and> SLASH \<notin> set c
        \<and> c \<noteq> [DOT] \<and> c \<noteq> [DOT, DOT]) \<and>
    p = (if is_absolute p then [SLASH] else []) @ join_slash (components p) \<and>
    (components p = [] \<longleftrightarrow> is_root p)"
proof (cases "s = [SLASH]")
  case True
  have "components [SLASH] = []"
    by (simp add: components_def trim_start_def trim_end_def collect_components.simps components_next_def)
  with True assms show ?thesis
    by (auto simp: path_new_def is_absolute_def is_root_def)
next
  case False
  from assms have p: "p = s" and ok: "path_validate s = Inr ()" by (auto simp: path_new_def)
  then have v: "validate_components (split_slash (strip_slash s)) = Inr ()" and ne: "s \<noteq> []"
    using False by (auto simp: path_validate_def Let_def split: if_splits)
  then have nz: "[] \<notin> set (split_slash (strip_slash s))"
    by (auto simp: validate_components_ok)
  have cs: "components s = split_slash (strip_slash s)"
    by (simp add: components_def trims_strip [OF nz] collect_components_split [OF nz])
  have "s = (if is_absolute s then [SLASH] else []) @ strip_slash s"
    using ne by (cases s) (auto simp: is_absolute_def strip_slash_def)
  then show ?thesis
    using p v cs False by (auto simp: validate_components_ok join_split_slash is_root_def
        dest: split_slash_no_slash)
qed

theorem path_components_roundtrip_witness:
  "path_new [0x2f, 0x61, 0x2f, 0x62, 0x63] = Inr [0x2f, 0x61, 0x2f, 0x62, 0x63] \<and>
   [0x2f, 0x61, 0x2f, 0x62, 0x63] = [SLASH] @ join_slash (components [0x2f, 0x61, 0x2f, 0x62, 0x63])"
proof -
  have h: "path_new [0x2f, 0x61, 0x2f, 0x62, 0x63] = Inr [0x2f, 0x61, 0x2f, 0x62, 0x63]"
    by (simp add: path_new_def path_validate_def strip_slash_def NAME_MAX_def MAX_PATH_def)
  from path_components_roundtrip [OF h] h show ?thesis by (simp add: is_absolute_def)
qed

end
