(* ===== verification/Storages.thy ===== *)
theory Storages
  imports Geometry Blocks
begin

text \<open>
  The hardware boundary (\<open>src/src/storage.rs\<close>). A \<open>Storage\<close> implementation is code the crate does
  not own, so it is a parameter: a record of the trait's constants and methods over a device state
  \<open>'s\<close>. \<open>st_read S st block off buf\<close> gives the new device state, the buffer after the call and
  whether the call returned \<open>Ok\<close> (after an error the buffer is whatever the device left in it).

  The trait's documented contract is the pair of locales \<open>readable_flash\<close> (reads) and \<open>flash\<close>
  (programs and erases); \<open>read_range\<close> is proved correct once inside the first. Both are interpreted
  on the RAM device of the crate's test suite (\<open>src/tests/common/mod.rs\<close>), the first also on the
  grid enforcing device of the unit tests in \<open>storage.rs\<close>.
\<close>

section \<open>Device computations\<close>

text \<open>A computation over the device that may fail: the state is kept on the error path too.\<close>

type_synonym ('s, 'a) io = "'s \<Rightarrow> 's \<times> 'a result"

definition io_return :: "'a \<Rightarrow> ('s, 'a) io" where
  "io_return x = (\<lambda>st. (st, Inr x))"

definition io_fail :: "error \<Rightarrow> ('s, 'a) io" where
  "io_fail e = (\<lambda>st. (st, Inl e))"

definition io_lift :: "'a result \<Rightarrow> ('s, 'a) io" where
  "io_lift r = (\<lambda>st. (st, r))"

definition io_bind :: "('s, 'a) io \<Rightarrow> ('a \<Rightarrow> ('s, 'b) io) \<Rightarrow> ('s, 'b) io" where
  "io_bind m f = (\<lambda>st. case m st of (st', Inl e) \<Rightarrow> (st', Inl e) | (st', Inr x) \<Rightarrow> f x st')"

lemma io_return_apply [simp]: "io_return x st = (st, Inr x)"
  by (simp add: io_return_def)

lemma io_fail_apply [simp]: "io_fail e st = (st, Inl e)"
  by (simp add: io_fail_def)

lemma io_lift_apply [simp]: "io_lift r st = (st, r)"
  by (simp add: io_lift_def)

lemma io_bind_Inr: "m st = (st', Inr x) \<Longrightarrow> io_bind m f st = f x st'"
  by (simp add: io_bind_def)

lemma io_bind_Inl: "m st = (st', Inl e) \<Longrightarrow> io_bind m f st = (st', Inl e)"
  by (simp add: io_bind_def)

lemma io_bind_lift: "io_bind (io_lift (Inr x)) f st = f x st" "io_bind (io_lift (Inl e)) f st = (st, Inl e)"
  by (simp_all add: io_bind_def)

lemma io_bind_eq:
  "io_bind m f st = (case m st of (st', Inl e) \<Rightarrow> (st', Inl e) | (st', Inr x) \<Rightarrow> f x st')"
  by (simp add: io_bind_def)

lemma io_bind_InrE:
  assumes "io_bind m f st = (st2, Inr y)"
  obtains st1 x where "m st = (st1, Inr x)" "f x st1 = (st2, Inr y)"
  using assms by (auto simp: io_bind_def split: prod.splits sum.splits)

lemma io_bind_cong [fundef_cong]:
  assumes "m = m'" and "\<And>x st st'. m' st = (st', Inr x) \<Longrightarrow> f x = g x"
  shows "io_bind m f = io_bind m' g"
proof
  fix st show "io_bind m f st = io_bind m' g st"
    using assms by (auto simp: io_bind_def split: prod.split sum.split)
qed


section \<open>The trait\<close>

record 's storage =
  READ_SIZE :: nat
  PROG_SIZE :: nat
  BLOCK_SIZE :: nat
  BLOCK_COUNT :: u32
  BLOCK_CYCLES :: int
  st_read :: "'s \<Rightarrow> u32 \<Rightarrow> u32 \<Rightarrow> byte list \<Rightarrow> 's \<times> byte list \<times> bool"
  st_program :: "'s \<Rightarrow> u32 \<Rightarrow> u32 \<Rightarrow> byte list \<Rightarrow> 's \<times> bool"
  st_erase :: "'s \<Rightarrow> u32 \<Rightarrow> 's \<times> bool"
  st_read_device :: "'s \<Rightarrow> u32 \<Rightarrow> u32 \<Rightarrow> byte list \<Rightarrow> 's \<times> byte list \<times> bool"
  st_sync :: "'s \<Rightarrow> 's \<times> bool"

text \<open>\<open>storage.read(..).map_err(|_| Error::Io)\<close>, and the same for the other methods.\<close>

definition dev_read :: "'s storage \<Rightarrow> u32 \<Rightarrow> u32 \<Rightarrow> byte list \<Rightarrow> ('s, byte list) io" where
  "dev_read S block off buf =
     (\<lambda>st. case st_read S st block off buf of (st', buf', ok) \<Rightarrow> (st', if ok then Inr buf' else Inl Io))"

definition dev_program :: "'s storage \<Rightarrow> u32 \<Rightarrow> u32 \<Rightarrow> byte list \<Rightarrow> ('s, unit) io" where
  "dev_program S block off data =
     (\<lambda>st. case st_program S st block off data of (st', ok) \<Rightarrow> (st', if ok then Inr () else Inl Io))"

definition dev_erase :: "'s storage \<Rightarrow> u32 \<Rightarrow> ('s, unit) io" where
  "dev_erase S block =
     (\<lambda>st. case st_erase S st block of (st', ok) \<Rightarrow> (st', if ok then Inr () else Inl Io))"

definition dev_sync :: "'s storage \<Rightarrow> ('s, unit) io" where
  "dev_sync S = (\<lambda>st. case st_sync S st of (st', ok) \<Rightarrow> (st', if ok then Inr () else Inl Io))"


section \<open>Reading an arbitrary range\<close>

definition next_multiple_of :: "nat \<Rightarrow> nat \<Rightarrow> nat" where
  "next_multiple_of n u = (n + u - 1) div u * u"

text \<open>The fragment path of \<open>read_range\<close>: the trailing window, the aligned interior, the leading
  window. Each takes the destination, the window, the bytes done and the position.\<close>

definition read_trailing ::
  "'s storage \<Rightarrow> u32 \<Rightarrow> byte list \<Rightarrow> byte list \<Rightarrow> nat \<Rightarrow> nat \<Rightarrow> ('s, byte list \<times> byte list) io" where
  "read_trailing S block out window dn pos =
     (let total = length out; unit = READ_SIZE S
      in if dn < total then
           io_bind (dev_read S block (of_nat pos) (take unit window)) (\<lambda>w.
             let window' = w @ drop unit window
             in io_return (splice out dn (take (total - dn) window'), window'))
         else io_return (out, window))"

definition read_interior ::
  "'s storage \<Rightarrow> u32 \<Rightarrow> byte list \<Rightarrow> byte list \<Rightarrow> nat \<Rightarrow> nat \<Rightarrow> ('s, byte list \<times> byte list) io" where
  "read_interior S block out window dn pos =
     (let total = length out; unit = READ_SIZE S; whole = (total - dn) div unit * unit
      in if whole \<noteq> 0 then
           io_bind (dev_read S block (of_nat pos) (slice out dn whole)) (\<lambda>w.
             read_trailing S block (splice out dn w) window (dn + whole) (pos + whole))
         else read_trailing S block out window dn pos)"

definition read_range ::
  "'s storage \<Rightarrow> u32 \<Rightarrow> u32 \<Rightarrow> byte list \<Rightarrow> byte list \<Rightarrow> ('s, byte list \<times> byte list) io" where
  "read_range S block off out window =
     (let unit = READ_SIZE S
      in if unit = 0 \<or> length window < unit then io_fail GeometryMismatch
      else if out = [] then io_return (out, window)
      else
        let total = length out; pos = unat off; skew = pos mod unit
        in if skew = 0 \<and> total mod unit = 0 then
             io_bind (dev_read S block (of_nat pos) out) (\<lambda>out'. io_return (out', window))
           else
             let covering = next_multiple_of (pos + total) unit - (pos - skew)
             in if covering \<le> length window then
                  io_bind (dev_read S block (of_nat (pos - skew)) (take covering window)) (\<lambda>w.
                    let window' = w @ drop covering window
                    in io_return (slice window' skew total, window'))
                else if skew \<noteq> 0 then
                  io_bind (dev_read S block (of_nat (pos - skew)) (take unit window)) (\<lambda>w.
                    let window' = w @ drop unit window; tk = min (unit - skew) total
                    in read_interior S block (splice out 0 (slice window' skew tk)) window' tk (pos + tk))
                else read_interior S block out window 0 pos)"


section \<open>The contract of a device\<close>

text \<open>The result of a computation that also hands back its staging window, against the pure
  result it stands for.\<close>

definition windowed :: "nat \<Rightarrow> 'a result \<Rightarrow> ('a \<times> byte list) result \<Rightarrow> bool" where
  "windowed n spec r \<longleftrightarrow> (case spec of Inl e \<Rightarrow> r = Inl e | Inr x \<Rightarrow> \<exists>w. length w = n \<and> r = Inr (x, w))"

lemma windowed_simps [simp]:
  "windowed n (Inl e) r \<longleftrightarrow> r = Inl e"
  "windowed n (Inr x) r \<longleftrightarrow> (\<exists>w. length w = n \<and> r = Inr (x, w))"
  by (simp_all add: windowed_def)

text \<open>Rounding up to the read grid stays inside the block.\<close>

lemma next_multiple_of_ge: "0 < u \<Longrightarrow> n \<le> next_multiple_of n u"
  unfolding next_multiple_of_def
  using div_mult_mod_eq [of "n + u - 1" u] mod_less_divisor [of u "n + u - 1"] by linarith

lemma next_multiple_of_le: "0 < u \<Longrightarrow> u dvd bs \<Longrightarrow> n \<le> bs \<Longrightarrow> next_multiple_of n u \<le> bs"
  unfolding next_multiple_of_def
proof -
  assume u: "0 < u" "u dvd bs" "n \<le> bs"
  then obtain k where k: "bs = u * k" by blast
  have "n + u - 1 < u * k + u" using u k by linarith
  then have "(n + u - 1) div u < Suc k"
    using u(1) by (simp add: div_less_iff_less_mult algebra_simps)
  then have "(n + u - 1) div u \<le> k" by simp
  then have "(n + u - 1) div u * u \<le> k * u" by (rule mult_le_mono1)
  then show "(n + u - 1) div u * u \<le> bs" using k by (simp add: mult.commute)
qed

text \<open>A read that returns \<open>Ok\<close> delivers the bytes of the block when its extent is on the read grid
  and inside a block of the device; with \<open>live\<close> such a read never fails. Nothing at all is promised
  for a misaligned extent, so whatever is proved here is reached with aligned reads only.\<close>

locale readable_flash =
  fixes S :: "'s storage" and Inv :: "'s \<Rightarrow> bool" and img :: "'s \<Rightarrow> u32 \<Rightarrow> byte list"
    and live :: bool
  assumes read_unit: "0 < READ_SIZE S" "READ_SIZE S dvd BLOCK_SIZE S" "BLOCK_SIZE S < 2 ^ 32"
    and img_length: "Inv st \<Longrightarrow> b < BLOCK_COUNT S \<Longrightarrow> length (img st b) = BLOCK_SIZE S"
    and read_keeps: "Inv st \<Longrightarrow> b < BLOCK_COUNT S \<Longrightarrow>
      READ_SIZE S dvd unat off \<Longrightarrow> READ_SIZE S dvd length buf \<Longrightarrow>
      unat off + length buf \<le> BLOCK_SIZE S \<Longrightarrow> st_read S st b off buf = (st', buf', ok) \<Longrightarrow>
      Inv st' \<and> img st' = img st"
    and read_data: "Inv st \<Longrightarrow> b < BLOCK_COUNT S \<Longrightarrow>
      READ_SIZE S dvd unat off \<Longrightarrow> READ_SIZE S dvd length buf \<Longrightarrow>
      unat off + length buf \<le> BLOCK_SIZE S \<Longrightarrow> st_read S st b off buf = (st', buf', True) \<Longrightarrow>
      buf' = slice (img st b) (unat off) (length buf)"
    and read_live: "live \<Longrightarrow> Inv st \<Longrightarrow> b < BLOCK_COUNT S \<Longrightarrow>
      READ_SIZE S dvd unat off \<Longrightarrow> READ_SIZE S dvd length buf \<Longrightarrow>
      unat off + length buf \<le> BLOCK_SIZE S \<Longrightarrow> st_read S st b off buf = (st', buf', ok) \<Longrightarrow> ok"
begin

lemma dev_read_grid:
  assumes "Inv st" "b < BLOCK_COUNT S" "READ_SIZE S dvd pos" "READ_SIZE S dvd length buf"
    and "pos + length buf \<le> BLOCK_SIZE S"
  obtains st' where "Inv st'" "img st' = img st"
    "dev_read S b (of_nat pos) buf st = (st', Inr (slice (img st b) pos (length buf)))"
  | st' where "\<not> live" "Inv st'" "img st' = img st" "dev_read S b (of_nat pos) buf st = (st', Inl Io)"
proof -
  have pos: "unat (of_nat pos :: u32) = pos"
    using assms(5) read_unit(3) by (simp add: unat_of_nat)
  obtain st' buf' ok where r: "st_read S st b (of_nat pos) buf = (st', buf', ok)"
    by (cases "st_read S st b (of_nat pos) buf") auto
  note keep = read_keeps [OF assms(1,2), of "of_nat pos" buf st' buf' ok]
  show thesis
  proof (cases ok)
    case True
    then have "buf' = slice (img st b) pos (length buf)"
      using read_data [OF assms(1,2), of "of_nat pos" buf st' buf'] assms pos r by simp
    then show thesis using that(1) [of st'] keep assms pos r True by (simp add: dev_read_def)
  next
    case False
    then have "\<not> live"
      using read_live [OF _ assms(1,2), of "of_nat pos" buf st' buf' ok] assms pos r by auto
    then show thesis using that(2) [of st'] keep assms pos r False by (simp add: dev_read_def)
  qed
qed

text \<open>The outcome of a read of \<open>n\<close> bytes at \<open>pos\<close> of block \<open>b\<close>: the right bytes or \<open>Io\<close>, the
  device image untouched.\<close>

definition delivers :: "'s \<Rightarrow> u32 \<Rightarrow> nat \<Rightarrow> nat \<Rightarrow> nat \<Rightarrow> 's \<times> (byte list \<times> byte list) result \<Rightarrow> bool" where
  "delivers st b pos n wl r \<longleftrightarrow>
     Inv (fst r) \<and> img (fst r) = img st \<and>
     (\<not> live \<and> snd r = Inl Io \<or> (\<exists>w'. length w' = wl \<and> snd r = Inr (slice (img st b) pos n, w')))"

lemma dvd_le_room: "u dvd p \<Longrightarrow> u dvd bs \<Longrightarrow> p < bs \<Longrightarrow> p + u \<le> (bs :: nat)"
  by (metis add.commute add_le_cancel_right dvd_add_right_iff dvd_diff_nat dvd_imp_le le_add_diff_inverse2 less_imp_le_nat zero_less_diff)

lemma read_trailing_delivers:
  assumes "Inv st" "b < BLOCK_COUNT S" "READ_SIZE S \<le> length window" "base + dn = pos"
    and "dn \<le> length out" "length out - dn < READ_SIZE S"
    and "dn < length out \<Longrightarrow> READ_SIZE S dvd pos" "base + length out \<le> BLOCK_SIZE S"
    and "take dn out = slice (img st b) base dn"
  shows "delivers st b base (length out) (length window) (read_trailing S b out window dn pos st)"
proof (cases "dn < length out")
  case False
  then have "dn = length out" using assms(5) by simp
  then show ?thesis using assms by (simp add: read_trailing_def delivers_def)
next
  case True
  let ?u = "READ_SIZE S"
  have room: "pos + ?u \<le> BLOCK_SIZE S"
    using True assms by (intro dvd_le_room) (auto simp: read_unit)
  have wl: "length (take ?u window) = ?u" using assms(3) by simp
  have grid: "READ_SIZE S dvd length (take ?u window)" using wl by simp
  show ?thesis
  proof (rule dev_read_grid [OF assms(1,2) assms(7) [OF True] grid])
    show "pos + length (take ?u window) \<le> BLOCK_SIZE S" using room wl by simp
  next
    fix st' assume i: "Inv st'" "img st' = img st"
      "dev_read S b (of_nat pos) (take ?u window) st =
         (st', Inr (slice (img st b) pos (length (take ?u window))))"
    let ?k = "length out - dn" and ?d = "slice (img st b) pos ?u"
    have imgl: "length (img st b) = BLOCK_SIZE S" using assms by (simp add: img_length)
    have dl: "length ?d = ?u" using room imgl by simp
    have tk: "take ?k ?d = slice (img st b) pos ?k"
      using assms(6) by (simp add: slice_def take_take min_def)
    have "splice out dn (take ?k (?d @ drop ?u window)) = take dn out @ slice (img st b) pos ?k"
      using assms(5,6) dl tk room imgl by (simp add: splice_def)
    also have "\<dots> = slice (img st b) base (length out)"
      using slice_append_split [of "img st b" base dn ?k] assms(4,5,9) by simp
    finally show ?thesis using i(1,2) True dl assms(3) wl
      by (simp add: read_trailing_def Let_def io_bind_eq i(3) delivers_def)
  next
    fix st' assume i: "\<not> live" "Inv st'" "img st' = img st"
      "dev_read S b (of_nat pos) (take ?u window) st = (st', Inl Io)"
    show ?thesis using i(1-3) True unfolding delivers_def
      by (simp add: read_trailing_def Let_def io_bind_eq i(4))
  qed
qed

lemma read_interior_delivers:
  assumes "Inv st" "b < BLOCK_COUNT S" "READ_SIZE S \<le> length window" "base + dn = pos"
    and "dn \<le> length out" "dn < length out \<Longrightarrow> READ_SIZE S dvd pos"
    and "base + length out \<le> BLOCK_SIZE S" "take dn out = slice (img st b) base dn"
  shows "delivers st b base (length out) (length window) (read_interior S b out window dn pos st)"
proof -
  let ?u = "READ_SIZE S"
  define whole where "whole = (length out - dn) div ?u * ?u"
  have le: "whole \<le> length out - dn" by (simp add: whole_def)
  have rest: "length out - dn - whole < ?u"
    using read_unit(1) by (simp add: whole_def minus_div_mult_eq_mod)
  have eq: "read_interior S b out window dn pos st =
     (if whole \<noteq> 0 then io_bind (dev_read S b (of_nat pos) (slice out dn whole)) (\<lambda>w.
        read_trailing S b (splice out dn w) window (dn + whole) (pos + whole)) st
      else read_trailing S b out window dn pos st)"
    by (simp add: read_interior_def whole_def Let_def)
  show ?thesis
  proof (cases "whole = 0")
    case True
    with rest have "length out - dn < ?u" by simp
    with True assms show ?thesis unfolding eq by (simp add: read_trailing_delivers)
  next
    case False
    with le have lt: "dn < length out" by simp
    have wl: "length (slice out dn whole) = whole" using le lt by simp
    have grid: "?u dvd length (slice out dn whole)" using wl by (simp add: whole_def)
    have room: "pos + length (slice out dn whole) \<le> BLOCK_SIZE S" using assms(4,7) le lt wl by simp
    show ?thesis
    proof (rule dev_read_grid [OF assms(1,2) assms(6) [OF lt] grid room])
      fix st' assume i: "Inv st'" "img st' = img st"
        "dev_read S b (of_nat pos) (slice out dn whole) st =
           (st', Inr (slice (img st b) pos (length (slice out dn whole))))"
      let ?d = "slice (img st b) pos whole"
      have imgl: "length (img st b) = BLOCK_SIZE S" using assms by (simp add: img_length)
      have dl: "length ?d = whole" using room wl imgl by simp
      have ol: "length (splice out dn ?d) = length out" using le lt dl by simp
      have "take (dn + whole) (splice out dn ?d) = take dn out @ ?d"
        using le lt dl by (simp add: splice_def)
      then have tk: "take (dn + whole) (splice out dn ?d) = slice (img st' b) base (dn + whole)"
        using assms(4,8) i(2) by (simp add: slice_append_split)
      have "?u dvd pos + whole" using assms(6) [OF lt] by (simp add: whole_def)
      then have "delivers st' b base (length (splice out dn ?d)) (length window)
        (read_trailing S b (splice out dn ?d) window (dn + whole) (pos + whole) st')"
        using assms i ol rest le tk lt by (intro read_trailing_delivers) auto
      then show ?thesis
        using i(2) False ol unfolding eq io_bind_eq i(3) wl by (simp add: delivers_def)
    next
      fix st' assume i: "\<not> live" "Inv st'" "img st' = img st"
        "dev_read S b (of_nat pos) (slice out dn whole) st = (st', Inl Io)"
      show ?thesis using i(1-3) False unfolding eq io_bind_eq i(4) delivers_def by simp
    qed
  qed
qed

lemma read_range_delivers:
  assumes Inv: "Inv st" and b: "b < BLOCK_COUNT S" and wl: "READ_SIZE S \<le> length window"
    and room: "unat off + length out \<le> BLOCK_SIZE S"
  shows "delivers st b (unat off) (length out) (length window) (read_range S b off out window st)"
proof -
  let ?u = "READ_SIZE S" and ?pos = "unat off" and ?n = "length out"
  define skew where "skew = ?pos mod ?u"
  have pd: "?u dvd ?pos - skew" and sk: "skew < ?u" "skew \<le> ?pos"
    using read_unit(1) by (simp_all add: skew_def dvd_minus_mod)
  have imgl: "length (img st b) = BLOCK_SIZE S" using Inv b by (simp add: img_length)
  have g: "\<not> (?u = 0 \<or> length window < ?u)" using read_unit(1) wl by simp
  consider (empty) "out = []"
    | (grid) "out \<noteq> []" "skew = 0" "?n mod ?u = 0"
    | (shot) "out \<noteq> []" "\<not> (skew = 0 \<and> ?n mod ?u = 0)"
        "next_multiple_of (?pos + ?n) ?u - (?pos - skew) \<le> length window"
    | (lead) "out \<noteq> []" "\<not> (skew = 0 \<and> ?n mod ?u = 0)"
        "\<not> next_multiple_of (?pos + ?n) ?u - (?pos - skew) \<le> length window" "skew \<noteq> 0"
    | (inner) "out \<noteq> []" "\<not> (skew = 0 \<and> ?n mod ?u = 0)"
        "\<not> next_multiple_of (?pos + ?n) ?u - (?pos - skew) \<le> length window" "skew = 0"
    by (cases "out = []"; cases "skew = 0"; cases "?n mod ?u = 0";
        cases "next_multiple_of (?pos + ?n) ?u - (?pos - skew) \<le> length window"; simp)
  then show ?thesis
  proof cases
    case empty
    then show ?thesis using g Inv by (simp add: read_range_def delivers_def)
  next
    case grid
    have pg: "?u dvd ?pos" "?u dvd ?n" using grid by (auto simp: skew_def)
    show ?thesis unfolding delivers_def
      by (rule dev_read_grid [OF Inv b pg room])
         (use g grid wl in \<open>simp_all add: read_range_def Let_def io_bind_eq flip: skew_def\<close>)
  next
    case shot
    let ?c = "next_multiple_of (?pos + ?n) ?u - (?pos - skew)"
    have top: "?pos + ?n \<le> next_multiple_of (?pos + ?n) ?u" "next_multiple_of (?pos + ?n) ?u \<le> BLOCK_SIZE S"
      using read_unit room by (auto intro: next_multiple_of_ge next_multiple_of_le)
    have cg: "?u dvd length (take ?c window)"
      using shot(3) pd by (simp add: next_multiple_of_def dvd_diff_nat)
    have cr: "(?pos - skew) + length (take ?c window) \<le> BLOCK_SIZE S"
      using shot(3) top by simp
    have cl: "length (take ?c window) = ?c" using shot(3) by simp
    have sl: "slice (slice (img st b) (?pos - skew) ?c @ drop ?c window) skew ?n = slice (img st b) ?pos ?n"
    proof -
      have "skew + ?n \<le> ?c" using top(1) sk(2) by simp
      moreover have "length (slice (img st b) (?pos - skew) ?c) = ?c"
        by (rule length_slice_in) (use cr cl imgl in simp)
      ultimately have "slice (slice (img st b) (?pos - skew) ?c @ drop ?c window) skew ?n =
          slice (slice (img st b) (?pos - skew) ?c) skew ?n"
        by (intro slice_append_left) simp
      then show ?thesis using \<open>skew + ?n \<le> ?c\<close> sk(2) by (simp add: slice_slice)
    qed
    have wl': "length (slice (img st b) (?pos - skew) ?c @ drop ?c window) = length window"
      using cr cl imgl shot(3) by simp
    define c where "c = ?c"
    have eq: "read_range S b off out window st =
        io_bind (dev_read S b (of_nat (?pos - skew)) (take c window)) (\<lambda>w.
          io_return (slice (w @ drop c window) skew ?n, w @ drop c window)) st"
      using g shot unfolding c_def by (auto simp: read_range_def Let_def skew_def)
    note facts = cg cr cl sl wl' shot(3)
    note facts' = facts [folded c_def]
    show ?thesis unfolding delivers_def eq io_bind_eq
      by (rule dev_read_grid [OF Inv b pd facts'(1,2), unfolded facts'(3)])
         (simp_all add: facts'(4,5) del: length_append length_slice)
  next
    case lead
    let ?t = "min (?u - skew) ?n"
    have ul: "length (take ?u window) = ?u" using wl by simp
    have ug: "?u dvd length (take ?u window)" using ul by simp
    have "?pos - skew < BLOCK_SIZE S" using lead(1) room sk by (cases out) auto
    then have ur: "(?pos - skew) + length (take ?u window) \<le> BLOCK_SIZE S"
      unfolding ul by (intro dvd_le_room) (auto simp: pd read_unit)
    let ?d = "slice (img st b) (?pos - skew) ?u"
    have dl: "length ?d = ?u" using ur ul imgl by simp
    have ts: "slice (?d @ drop ?u window) skew ?t = slice (img st b) ?pos ?t"
    proof -
      have "skew + ?t \<le> ?u" using sk by simp
      then have "slice (?d @ drop ?u window) skew ?t = slice ?d skew ?t"
        using dl by (intro slice_append_left) simp
      then show ?thesis using \<open>skew + ?t \<le> ?u\<close> sk(2) by (simp add: slice_slice)
    qed
    have step: "delivers st' b ?pos (length (splice out 0 (slice (?d @ drop ?u window) skew ?t)))
        (length (?d @ drop ?u window))
        (read_interior S b (splice out 0 (slice (?d @ drop ?u window) skew ?t)) (?d @ drop ?u window) ?t (?pos + ?t) st')"
      if i: "Inv st'" "img st' = img st" for st'
    proof (rule read_interior_delivers [OF i(1) b])
      have tl: "length (slice (img st b) ?pos ?t) = ?t" using room imgl by simp
      show "READ_SIZE S \<le> length (?d @ drop ?u window)" using dl by simp
      show "?pos + ?t = ?pos + ?t" ..
      show "?t \<le> length (splice out 0 (slice (?d @ drop ?u window) skew ?t))"
        unfolding ts using tl by simp
      show "?pos + length (splice out 0 (slice (?d @ drop ?u window) skew ?t)) \<le> BLOCK_SIZE S"
        unfolding ts using tl room by simp
      show "take ?t (splice out 0 (slice (?d @ drop ?u window) skew ?t)) = slice (img st' b) ?pos ?t"
        unfolding ts using tl i(2) by (simp add: splice_def)
      assume "?t < length (splice out 0 (slice (?d @ drop ?u window) skew ?t))"
      then have "?t = ?u - skew" unfolding ts using tl by simp
      then have "?pos + ?t = (?pos - skew) + ?u" using sk by simp
      then show "READ_SIZE S dvd ?pos + ?t" using pd by (simp only: dvd_add_triv_right_iff)
    qed
    have ln: "length (splice out 0 (slice (?d @ drop ?u window) skew ?t)) = ?n"
      unfolding ts using room imgl by simp
    show ?thesis
    proof (rule dev_read_grid [OF Inv b pd ug ur])
      fix st' assume a: "Inv st'" "img st' = img st"
        "dev_read S b (of_nat (?pos - skew)) (take ?u window) st =
           (st', Inr (slice (img st b) (?pos - skew) (length (take ?u window))))"
      show ?thesis using step [OF a(1,2)] a g lead ln dl ul wl
        by (simp add: read_range_def Let_def io_bind_eq delivers_def flip: skew_def)
    next
      fix st' assume a: "\<not> live" "Inv st'" "img st' = img st"
        "dev_read S b (of_nat (?pos - skew)) (take ?u window) st = (st', Inl Io)"
      show ?thesis using a g lead unfolding delivers_def
        by (simp add: read_range_def Let_def io_bind_eq flip: skew_def)
    qed
  next
    case inner
    have "delivers st b ?pos ?n (length window) (read_interior S b out window 0 ?pos st)"
      using Inv b wl room inner(4) by (intro read_interior_delivers) (auto simp: skew_def)
    then show ?thesis using g inner
      by (simp add: read_range_def Let_def flip: skew_def)
  qed
qed

text \<open>Reads compose: a computation \<open>yields\<close> a result in \<open>P\<close> when it keeps the device image and
  either meets an I/O error (possible on a device that is not \<open>live\<close>) or ends with a result in
  \<open>P\<close>.\<close>

definition yields :: "'s \<Rightarrow> ('a result \<Rightarrow> bool) \<Rightarrow> 's \<times> 'a result \<Rightarrow> bool" where
  "yields st P r \<longleftrightarrow>
     Inv (fst r) \<and> img (fst r) = img st \<and> (\<not> live \<and> snd r = Inl Io \<or> P (snd r))"

lemma yields_return: "Inv st \<Longrightarrow> P (Inr x) \<Longrightarrow> yields st P (io_return x st)"
  by (simp add: yields_def)

lemma yields_fail: "Inv st \<Longrightarrow> P (Inl e) \<Longrightarrow> yields st P (io_fail e st)"
  by (simp add: yields_def)

lemma yields_lift: "Inv st \<Longrightarrow> P r \<Longrightarrow> yields st P (io_lift r st)"
  by (simp add: yields_def)

lemma yields_img: "img st' = img st \<Longrightarrow> yields st' P r \<longleftrightarrow> yields st P r"
  by (simp add: yields_def)

lemma yields_mono: "yields st P r \<Longrightarrow> (\<And>x. P x \<Longrightarrow> Q x) \<Longrightarrow> yields st Q r"
  unfolding yields_def by blast

lemma yields_bind:
  assumes "yields st P (m st)" and "\<And>e. P (Inl e) \<Longrightarrow> Q (Inl e)"
    and "\<And>x st'. Inv st' \<Longrightarrow> img st' = img st \<Longrightarrow> P (Inr x) \<Longrightarrow> yields st' Q (f x st')"
  shows "yields st Q (io_bind m f st)"
proof (cases "m st")
  case (Pair st' r)
  show ?thesis
  proof (cases r)
    case (Inl e)
    then show ?thesis using assms(1,2) Pair by (auto simp: yields_def io_bind_eq)
  next
    case (Inr x)
    then show ?thesis using assms(1) assms(3) [of st' x] Pair
      by (auto simp: yields_def io_bind_eq)
  qed
qed

lemma yields_read_range:
  assumes "Inv st" "b < BLOCK_COUNT S" "READ_SIZE S \<le> length window"
    "unat off + length out \<le> BLOCK_SIZE S"
  shows "yields st (\<lambda>r. \<exists>w'. length w' = length window \<and> r = Inr (slice (img st b) (unat off) (length out), w'))
    (read_range S b off out window st)"
  using read_range_delivers [OF assms] by (simp add: delivers_def yields_def)

lemma yields_read_bind:
  assumes "Inv st" "b < BLOCK_COUNT S" "READ_SIZE S \<le> length window"
    "unat off + length out \<le> BLOCK_SIZE S"
    and "\<And>w' st'. Inv st' \<Longrightarrow> img st' = img st \<Longrightarrow> length w' = length window \<Longrightarrow>
      yields st' Q (f (slice (img st b) (unat off) (length out), w') st')"
  shows "yields st Q (io_bind (read_range S b off out window) f st)"
  by (rule yields_bind [where m = "read_range S b off out window", OF yields_read_range])
     (auto intro: assms)

lemma yields_lift_bind:
  assumes "Inv st" and "\<And>e. r = Inl e \<Longrightarrow> Q (Inl e)" and "\<And>x. r = Inr x \<Longrightarrow> yields st Q (f x st)"
  shows "yields st Q (io_bind (io_lift r) f st)"
  using assms by (cases r) (auto simp: io_bind_eq yields_def)

end

text \<open>Programs may only clear bits (\<open>o AND d = d\<close>); such a program that returns \<open>Ok\<close> leaves
  exactly the programmed bytes, an erase leaves \<open>0xFF\<close>, and neither touches another block.\<close>

definition clears :: "byte list \<Rightarrow> byte list \<Rightarrow> bool" where
  "clears old new \<longleftrightarrow> list_all2 (\<lambda>o1 d. o1 AND d = d) old new"

locale flash = readable_flash +
  assumes geometry: "fault_for (READ_SIZE S) (PROG_SIZE S) (BLOCK_SIZE S) (BLOCK_COUNT S) = None"
    and program_law: "Inv st \<Longrightarrow> b < BLOCK_COUNT S \<Longrightarrow>
      PROG_SIZE S dvd unat off \<Longrightarrow> PROG_SIZE S dvd length data \<Longrightarrow>
      unat off + length data \<le> BLOCK_SIZE S \<Longrightarrow>
      clears (slice (img st b) (unat off) (length data)) data \<Longrightarrow>
      st_program S st b off data = (st', ok) \<Longrightarrow>
      Inv st' \<and> (\<forall>b'. b' \<noteq> b \<longrightarrow> img st' b' = img st b') \<and>
      (ok \<longrightarrow> img st' b = splice (img st b) (unat off) data)"
    and erase_law: "Inv st \<Longrightarrow> b < BLOCK_COUNT S \<Longrightarrow> st_erase S st b = (st', ok) \<Longrightarrow>
      Inv st' \<and> (\<forall>b'. b' \<noteq> b \<longrightarrow> img st' b' = img st b') \<and>
      (ok \<longrightarrow> img st' b = replicate (BLOCK_SIZE S) 0xFF)"
    and sync_law: "Inv st \<Longrightarrow> st_sync S st = (st', ok) \<Longrightarrow> Inv st' \<and> img st' = img st"


section \<open>The devices of the test suites\<close>

text \<open>\<open>MemStorageG<BS, IO, BC>\<close> (\<open>src/tests/common/mod.rs\<close>): a byte vector. Its \<open>usize\<close> products
  are checked in the source and exact here.\<close>

definition mem_read :: "nat \<Rightarrow> u32 \<Rightarrow> byte list \<Rightarrow> u32 \<Rightarrow> u32 \<Rightarrow> byte list \<Rightarrow> byte list \<times> byte list \<times> bool" where
  "mem_read BS BC data block off buf =
     (let start = unat block * BS + unat off; fin = start + length buf
      in if block \<ge> BC \<or> fin > length data then (data, buf, False)
         else (data, slice data start (length buf), True))"

definition mem_program :: "nat \<Rightarrow> u32 \<Rightarrow> byte list \<Rightarrow> u32 \<Rightarrow> u32 \<Rightarrow> byte list \<Rightarrow> byte list \<times> bool" where
  "mem_program BS BC data block off bytes =
     (let start = unat block * BS + unat off; fin = start + length bytes
      in if block \<ge> BC \<or> fin > length data then (data, False)
         else (splice data start bytes, True))"

definition mem_erase :: "nat \<Rightarrow> u32 \<Rightarrow> byte list \<Rightarrow> u32 \<Rightarrow> byte list \<times> bool" where
  "mem_erase BS BC data block =
     (if block \<ge> BC then (data, False)
      else let start = unat block * BS; fin = start + BS
           in if fin > length data then (data, False)
              else (splice data start (replicate BS 0xFF), True))"

definition mem_storage :: "nat \<Rightarrow> nat \<Rightarrow> u32 \<Rightarrow> byte list storage" where
  "mem_storage BS IO BC =
     \<lparr>READ_SIZE = IO, PROG_SIZE = IO, BLOCK_SIZE = BS, BLOCK_COUNT = BC, BLOCK_CYCLES = 500,
      st_read = mem_read BS BC, st_program = mem_program BS BC, st_erase = mem_erase BS BC,
      st_read_device = mem_read BS BC, st_sync = (\<lambda>data. (data, True))\<rparr>"

definition mem_new :: "nat \<Rightarrow> u32 \<Rightarrow> byte list" where
  "mem_new BS BC = replicate (BS * unat BC) 0xFF"

definition mem_inv :: "nat \<Rightarrow> u32 \<Rightarrow> byte list \<Rightarrow> bool" where
  "mem_inv BS BC data \<longleftrightarrow> length data = BS * unat BC"

definition mem_img :: "nat \<Rightarrow> byte list \<Rightarrow> u32 \<Rightarrow> byte list" where
  "mem_img BS data b = slice data (unat b * BS) BS"

lemma mem_storage_sel [simp]:
  "READ_SIZE (mem_storage BS IO BC) = IO" "PROG_SIZE (mem_storage BS IO BC) = IO"
  "BLOCK_SIZE (mem_storage BS IO BC) = BS" "BLOCK_COUNT (mem_storage BS IO BC) = BC"
  "st_read (mem_storage BS IO BC) = mem_read BS BC"
  "st_program (mem_storage BS IO BC) = mem_program BS BC"
  "st_erase (mem_storage BS IO BC) = mem_erase BS BC"
  "st_read_device (mem_storage BS IO BC) = mem_read BS BC"
  "st_sync (mem_storage BS IO BC) = (\<lambda>data. (data, True))"
  by (simp_all add: mem_storage_def)

lemma mem_inv_new: "mem_inv BS BC (mem_new BS BC)"
  by (simp add: mem_inv_def mem_new_def)

lemma block_extent: "b < BC \<Longrightarrow> unat b * BS + BS \<le> BS * unat (BC :: u32)"
proof -
  assume "b < BC"
  then have "Suc (unat b) \<le> unat BC" by (simp add: word_less_nat_alt)
  then have "Suc (unat b) * BS \<le> unat BC * BS" by (rule mult_le_mono1)
  then show ?thesis by (simp add: algebra_simps)
qed

lemma mem_img_splice:
  assumes "mem_inv BS BC data" "b < BC" "off + length bytes \<le> BS"
  shows "mem_img BS (splice data (unat b * BS + off) bytes) b = splice (mem_img BS data b) off bytes"
    and "b' \<noteq> b \<Longrightarrow> mem_img BS (splice data (unat b * BS + off) bytes) b' = mem_img BS data b'"
proof -
  have ext: "unat b * BS + BS \<le> length data"
    using block_extent [OF assms(2)] assms(1) by (simp add: mem_inv_def)
  show "mem_img BS (splice data (unat b * BS + off) bytes) b = splice (mem_img BS data b) off bytes"
    using ext assms(3) by (intro nth_equalityI) (auto simp: mem_img_def nth_splice)
  assume ne: "b' \<noteq> b"
  then have "unat b' < unat b \<or> unat b < unat b'" by (metis linorder_neqE_nat word_unat_eq_iff)
  then have "Suc (unat b') * BS \<le> unat b * BS \<or> Suc (unat b) * BS \<le> unat b' * BS"
    by (metis Suc_leI mult_le_mono1)
  then have "unat b' * BS + BS \<le> unat b * BS \<or> unat b * BS + BS \<le> unat b' * BS"
    by (simp add: add.commute)
  then show "mem_img BS (splice data (unat b * BS + off) bytes) b' = mem_img BS data b'"
    using ext assms(3) by (intro nth_equalityI) (auto simp: mem_img_def nth_splice)
qed

lemma mem_flash:
  assumes "fault_for IO IO BS BC = None"
  shows "flash (mem_storage BS IO BC) (mem_inv BS BC) (mem_img BS) True"
proof -
  note g = assms [unfolded fault_for_None_iff]
  have ext: "mem_inv BS BC data \<Longrightarrow> b < BC \<Longrightarrow> unat b * BS + BS \<le> length data" for b data
    by (simp add: mem_inv_def block_extent)
  have read: "mem_read BS BC data b off buf =
      (data, slice (mem_img BS data b) (unat off) (length buf), True)"
    if "mem_inv BS BC data" "b < BC" "unat off + length buf \<le> BS" for data b off buf
    using ext [OF that(1,2)] that by (simp add: mem_read_def mem_img_def slice_slice Let_def)
  show ?thesis
  proof unfold_locales
    show "0 < READ_SIZE (mem_storage BS IO BC)" "READ_SIZE (mem_storage BS IO BC) dvd BLOCK_SIZE (mem_storage BS IO BC)"
      "BLOCK_SIZE (mem_storage BS IO BC) < 2 ^ 32"
      "fault_for (READ_SIZE (mem_storage BS IO BC)) (PROG_SIZE (mem_storage BS IO BC))
         (BLOCK_SIZE (mem_storage BS IO BC)) (BLOCK_COUNT (mem_storage BS IO BC)) = None"
      using g assms by simp_all
  next
    fix st b assume "mem_inv BS BC st" "b < BLOCK_COUNT (mem_storage BS IO BC)"
    then show "length (mem_img BS st b) = BLOCK_SIZE (mem_storage BS IO BC)"
      using ext [of st b] by (simp add: mem_img_def)
  next
    fix st b off buf st' buf' ok
    assume a: "mem_inv BS BC st" "b < BLOCK_COUNT (mem_storage BS IO BC)"
      "unat off + length buf \<le> BLOCK_SIZE (mem_storage BS IO BC)"
      "st_read (mem_storage BS IO BC) st b off buf = (st', buf', ok)"
    then show "mem_inv BS BC st' \<and> mem_img BS st' = mem_img BS st"
      by (simp add: read)
  next
    fix st b off buf st' buf'
    assume a: "mem_inv BS BC st" "b < BLOCK_COUNT (mem_storage BS IO BC)"
      "unat off + length buf \<le> BLOCK_SIZE (mem_storage BS IO BC)"
      "st_read (mem_storage BS IO BC) st b off buf = (st', buf', True)"
    then show "buf' = slice (mem_img BS st b) (unat off) (length buf)"
      by (auto simp: read)
  next
    fix st b off buf st' buf' ok
    assume a: "mem_inv BS BC st" "b < BLOCK_COUNT (mem_storage BS IO BC)"
      "unat off + length buf \<le> BLOCK_SIZE (mem_storage BS IO BC)"
      "st_read (mem_storage BS IO BC) st b off buf = (st', buf', ok)"
    then show ok by (simp add: read)
  next
    fix st b off data st' ok
    assume a: "mem_inv BS BC st" "b < BLOCK_COUNT (mem_storage BS IO BC)"
      "unat off + length data \<le> BLOCK_SIZE (mem_storage BS IO BC)"
      "st_program (mem_storage BS IO BC) st b off data = (st', ok)"
    have "st' = splice st (unat b * BS + unat off) data \<and> length st' = length st"
      using a ext [of st b] by (auto simp: mem_program_def Let_def split: if_splits)
    then show "mem_inv BS BC st' \<and> (\<forall>b'. b' \<noteq> b \<longrightarrow> mem_img BS st' b' = mem_img BS st b') \<and>
        (ok \<longrightarrow> mem_img BS st' b = splice (mem_img BS st b) (unat off) data)"
      using a mem_img_splice [of BS BC st b "unat off" data] by (auto simp: mem_inv_def)
  next
    fix st b st' ok
    assume a: "mem_inv BS BC st" "b < BLOCK_COUNT (mem_storage BS IO BC)"
      "st_erase (mem_storage BS IO BC) st b = (st', ok)"
    have e: "st' = splice st (unat b * BS + 0) (replicate BS 0xFF)" "length st' = length st"
      using a ext [of st b] by (auto simp: mem_erase_def Let_def split: if_splits)
    have "splice (mem_img BS st b) 0 (replicate BS (0xFF :: byte)) = replicate BS 0xFF"
      using a ext [of st b] by (simp add: splice_def mem_img_def)
    then show "mem_inv BS BC st' \<and> (\<forall>b'. b' \<noteq> b \<longrightarrow> mem_img BS st' b' = mem_img BS st b') \<and>
        (ok \<longrightarrow> mem_img BS st' b = replicate (BLOCK_SIZE (mem_storage BS IO BC)) 0xFF)"
      using a e mem_img_splice [of BS BC st b 0 "replicate BS 0xFF"] by (simp add: mem_inv_def)
  qed simp
qed

text \<open>Two of the geometries the suites use: \<open>MemStorage\<close> and \<open>MemStorage4K\<close>.\<close>

interpretation mem256: flash "mem_storage 256 16 8" "mem_inv 256 8" "mem_img 256" True
  by (rule mem_flash) (simp add: fault_for_def BLOCK_SIZE_MIN_def BLOCK_COUNT_MIN_def)

interpretation mem4k: flash "mem_storage 4096 256 16" "mem_inv 4096 16" "mem_img 4096" True
  by (rule mem_flash) (simp add: fault_for_def BLOCK_SIZE_MIN_def BLOCK_COUNT_MIN_def)

text \<open>\<open>Grid<UNIT>\<close>, the unit test device of \<open>storage.rs\<close>: one block, every read counted; its
  \<open>assert_eq!\<close> on the grid and on the block end panics, modelled as a read that never returns
  \<open>Ok\<close>. State: the block and the number of reads served.\<close>

definition grid_read :: "nat \<Rightarrow> byte list \<times> nat \<Rightarrow> u32 \<Rightarrow> u32 \<Rightarrow> byte list \<Rightarrow> (byte list \<times> nat) \<times> byte list \<times> bool" where
  "grid_read UNIT st block off buf =
     (let (data, reads) = st
      in if block \<noteq> 0 \<or> unat off mod UNIT \<noteq> 0 \<or> length buf mod UNIT \<noteq> 0
            \<or> length data < unat off + length buf
         then (st, buf, False)
         else ((data, reads + 1), slice data (unat off) (length buf), True))"

definition grid_storage :: "nat \<Rightarrow> nat \<Rightarrow> (byte list \<times> nat) storage" where
  "grid_storage BLOCK UNIT =
     \<lparr>READ_SIZE = UNIT, PROG_SIZE = UNIT, BLOCK_SIZE = BLOCK, BLOCK_COUNT = 1, BLOCK_CYCLES = 500,
      st_read = grid_read UNIT, st_program = (\<lambda>st _ _ _. (st, False)), st_erase = (\<lambda>st _. (st, False)),
      st_read_device = grid_read UNIT, st_sync = (\<lambda>st. (st, True))\<rparr>"

definition grid_inv :: "nat \<Rightarrow> byte list \<times> nat \<Rightarrow> bool" where
  "grid_inv BLOCK st \<longleftrightarrow> length (fst st) = BLOCK"

lemma grid_storage_sel [simp]:
  "READ_SIZE (grid_storage BLOCK UNIT) = UNIT" "BLOCK_SIZE (grid_storage BLOCK UNIT) = BLOCK"
  "BLOCK_COUNT (grid_storage BLOCK UNIT) = 1" "st_read (grid_storage BLOCK UNIT) = grid_read UNIT"
  by (simp_all add: grid_storage_def)

lemma grid_readable:
  assumes "0 < UNIT" "UNIT dvd BLOCK" "BLOCK < 2 ^ 32"
  shows "readable_flash (grid_storage BLOCK UNIT) (grid_inv BLOCK) (\<lambda>st _. fst st) True"
  by unfold_locales (use assms in \<open>auto simp: grid_inv_def grid_read_def split: prod.splits if_splits\<close>)

interpretation grid64: readable_flash "grid_storage 64 16" "grid_inv 64" "\<lambda>st _. fst st" True
  by (rule grid_readable) simp_all


section \<open>Properties\<close>

lemma read_range_live:
  assumes f: "readable_flash S Inv img True" and "Inv st" and "b < BLOCK_COUNT S"
    and "READ_SIZE S \<le> length window" and "unat off + length out \<le> BLOCK_SIZE S"
  obtains st' w' where "Inv st'" "img st' = img st" "length w' = length window"
    "read_range S b off out window st = (st', Inr (slice (img st b) (unat off) (length out), w'))"
  using readable_flash.read_range_delivers [OF assms] 
  by (cases "read_range S b off out window st") (auto simp: readable_flash.delivers_def [OF f])

text \<open>How many device reads a computation over the grid device makes.\<close>

definition reads_at_most :: "nat \<Rightarrow> (byte list \<times> nat, 'a) io \<Rightarrow> bool" where
  "reads_at_most k m \<longleftrightarrow> (\<forall>st. snd (fst (m st)) \<le> snd st + k)"

lemma reads_at_most_dev_read: "reads_at_most 1 (dev_read (grid_storage B U) b off buf)"
  by (auto simp: reads_at_most_def dev_read_def grid_read_def split: prod.splits if_splits)

lemma reads_at_most_0: "reads_at_most k (io_return x)" "reads_at_most k (io_fail e)"
  by (simp_all add: reads_at_most_def)

lemma reads_at_most_bind:
  "reads_at_most k m \<Longrightarrow> (\<And>x. reads_at_most l (f x)) \<Longrightarrow> k + l \<le> n \<Longrightarrow> reads_at_most n (io_bind m f)"
proof -
  assume a: "reads_at_most k m" "\<And>x. reads_at_most l (f x)" "k + l \<le> n"
  have "snd (fst (io_bind m f st)) \<le> snd st + n" for st
  proof (cases "m st")
    case (Pair st' r)
    with a(1) have "snd st' \<le> snd st + k" unfolding reads_at_most_def by (metis fst_conv)
    moreover have "snd (fst (f x st')) \<le> snd st' + l" for x
      using a(2) [of x] unfolding reads_at_most_def by blast
    ultimately show ?thesis using Pair a(3)
      by (cases r) (fastforce simp: io_bind_eq intro: order_trans)+
  qed
  then show ?thesis by (simp add: reads_at_most_def)
qed

lemma reads_at_most_mono: "reads_at_most k m \<Longrightarrow> k \<le> n \<Longrightarrow> reads_at_most n m"
  unfolding reads_at_most_def by (meson add_left_mono order_trans)

lemmas reads_count = reads_at_most_bind [OF reads_at_most_dev_read] reads_at_most_0

lemma reads_read_trailing: "reads_at_most 1 (read_trailing (grid_storage B U) b out w dn pos)"
  by (auto simp: read_trailing_def Let_def intro!: reads_count)

lemma reads_read_interior: "reads_at_most 2 (read_interior (grid_storage B U) b out w dn pos)"
proof -
  have "reads_at_most 2 (io_bind (dev_read (grid_storage B U) b off buf)
      (\<lambda>x. read_trailing (grid_storage B U) b (o1 x) w d2 p2))" for off buf o1 d2 p2
    by (rule reads_at_most_bind [OF reads_at_most_dev_read reads_read_trailing]) simp
  then show ?thesis
    using reads_at_most_mono [OF reads_read_trailing, of 2]
    by (simp add: read_interior_def Let_def)
qed

lemma reads_read_range: "reads_at_most 3 (read_range (grid_storage B U) b off out w)"
proof -
  have "reads_at_most 3 (io_bind (dev_read (grid_storage B U) b off buf)
      (\<lambda>x. read_interior (grid_storage B U) b (o1 x) (w1 x) d2 p2))" for off buf o1 w1 d2 p2
    by (rule reads_at_most_bind [OF reads_at_most_dev_read reads_read_interior]) simp
  then show ?thesis
    using reads_at_most_mono [OF reads_read_interior, of 3]
    by (auto simp: read_range_def Let_def intro!: reads_count)
qed

text \<open>C31. On any device that honours the trait's read contract, \<open>read_range\<close> of a range inside a
  block delivers exactly the bytes of that range or reports \<open>Io\<close> (never, if legal reads of the
  device do not fail), and leaves the device image as it was.\<close>

theorem read_range_correct:
  assumes "readable_flash S Inv img live" and "Inv st" and "b < BLOCK_COUNT S"
    and "READ_SIZE S \<le> length window" and "unat off + length out \<le> BLOCK_SIZE S"
    and "read_range S b off out window st = (st', r)"
  shows "Inv st' \<and> img st' = img st \<and>
    (\<not> live \<and> r = Inl Io \<or> (\<exists>w'. r = Inr (slice (img st b) (unat off) (length out), w')))"
  using readable_flash.read_range_delivers [OF assms(1-5)] assms(6)
  by (auto simp: readable_flash.delivers_def [OF assms(1)])

theorem read_range_correct_witness:
  "\<exists>st' w'. read_range (mem_storage 256 16 8) 3 5 (replicate 20 0) (replicate 256 0) (mem_new 256 8)
      = (st', Inr (slice (mem_img 256 (mem_new 256 8) 3) 5 20, w'))"
proof -
  obtain st' r where r: "read_range (mem_storage 256 16 8) 3 5 (replicate 20 0) (replicate 256 0) (mem_new 256 8) = (st', r)"
    by fastforce
  have f: "readable_flash (mem_storage 256 16 8) (mem_inv 256 8) (mem_img 256) True" by unfold_locales
  show ?thesis
    using read_range_correct [OF f mem_inv_new, of 3 "replicate 256 0" 5 "replicate 20 0" st' r] r by auto
qed

text \<open>On a device that faults on any read off the \<open>READ_SIZE\<close> grid or past the block,
  \<open>read_range\<close> of any range inside the block succeeds, delivers its bytes, and takes at most three
  device reads.\<close>

theorem read_range_grid:
  assumes "0 < UNIT" and "UNIT dvd length data" and "length data < 2 ^ 32"
    and "UNIT \<le> length window" and "unat off + length out \<le> length data"
  shows "\<exists>reads' w'. reads' \<le> reads + 3 \<and>
    read_range (grid_storage (length data) UNIT) 0 off out window (data, reads) =
      ((data, reads'), Inr (slice data (unat off) (length out), w'))"
proof -
  let ?S = "grid_storage (length data) UNIT"
  obtain st' w' where r: "fst st' = data"
      "read_range ?S 0 off out window (data, reads) = (st', Inr (slice data (unat off) (length out), w'))"
    by (rule read_range_live [OF grid_readable [OF assms(1-3)], of "(data, reads)" 0 window off out])
       (use assms in \<open>auto simp: grid_inv_def fun_eq_iff\<close>)
  have "snd st' \<le> reads + 3"
    using reads_read_range [of "length data" UNIT 0 off out window] r(2)
    unfolding reads_at_most_def by (metis fst_conv snd_conv)
  with r show ?thesis by (metis prod.collapse)
qed

theorem read_range_grid_witness:
  "\<exists>reads' w'. reads' \<le> 3 \<and>
    read_range (grid_storage 64 16) 0 7 (replicate 40 0) (replicate 16 0) (replicate 64 9, 0) =
      ((replicate 64 9, reads'), Inr (slice (replicate 64 9) 7 40, w'))"
  using read_range_grid [of 16 "replicate 64 9" "replicate 16 0" 7 "replicate 40 0" 0] by simp

end
