(* ===== verification/Ctz_Index.thy ===== *)
theory Ctz_Index
  imports Storages
begin

text \<open>
  The index arithmetic of the CTZ skip list (\<open>src/src/ctz.rs\<close>): pointer counts, content capacity,
  and the closed form \<open>block_index_at_offset\<close>, on \<open>u32\<close> words as the source computes it. The closed
  form is proved equal to the layout it abbreviates, the running sum of block capacities.
\<close>

text \<open>\<open>u32::trailing_zeros\<close>, \<open>count_ones\<close> and \<open>ilog2\<close> of the standard library.\<close>

fun ctz_nat :: "nat \<Rightarrow> nat" where
  "ctz_nat n = (if n = 0 then 32 else if odd n then 0 else Suc (ctz_nat (n div 2)))"

fun pop_nat :: "nat \<Rightarrow> nat" where
  "pop_nat n = (if n = 0 then 0 else n mod 2 + pop_nat (n div 2))"

fun ilog2_nat :: "nat \<Rightarrow> nat" where
  "ilog2_nat n = (if n \<le> 1 then 0 else Suc (ilog2_nat (n div 2)))"

declare ctz_nat.simps [simp del] pop_nat.simps [simp del] ilog2_nat.simps [simp del]

definition trailing_zeros :: "u32 \<Rightarrow> u32" where
  "trailing_zeros w = of_nat (ctz_nat (unat w))"

definition popcount :: "u32 \<Rightarrow> u32" where
  "popcount w = of_nat (pop_nat (unat w))"

definition skip_pointers_in_block :: "u32 \<Rightarrow> u32" where
  "skip_pointers_in_block index = (if index = 0 then 0 else trailing_zeros index + 1)"

definition content_bytes_in_block :: "u32 \<Rightarrow> u32 \<Rightarrow> u32" where
  "content_bytes_in_block index block_size = block_size - 4 * skip_pointers_in_block index"

definition block_index_at_offset :: "u32 \<Rightarrow> u32 \<Rightarrow> u32 \<times> u32" where
  "block_index_at_offset offset block_size =
     (let b = block_size - 2 * 4; i = offset div b
      in if i = 0 then (0, offset)
         else let i' = (offset - 4 * (popcount (i - 1) + 2)) div b;
                  abs_off = offset - b * i' - 4 * popcount i'
              in (i', abs_off))"

definition block_count :: "u32 \<Rightarrow> u32 \<Rightarrow> u32" where
  "block_count sz block_size =
     (if sz = 0 then 0 else fst (block_index_at_offset (sz - 1) block_size) + 1)"

text \<open>\<open>block_count_brute\<close> of the unit tests: add capacities until the size is covered. The fuel
  bounds the loop; a block of at least 128 bytes holds at least one content byte per index, so the
  sz itself is enough.\<close>

fun brute_loop :: "nat \<Rightarrow> nat \<Rightarrow> u32 \<Rightarrow> nat \<Rightarrow> nat \<Rightarrow> nat option" where
  "brute_loop 0 sz bs consumed idx = None"
| "brute_loop (Suc fuel) sz bs consumed idx =
     (let consumed' = min 0xFFFFFFFF (consumed + unat (content_bytes_in_block (of_nat idx) bs))
      in if consumed' \<ge> sz then Some (idx + 1) else brute_loop fuel sz bs consumed' (idx + 1))"

definition block_count_brute :: "u32 \<Rightarrow> u32 \<Rightarrow> nat option" where
  "block_count_brute sz bs =
     (if sz = 0 then Some 0 else brute_loop (unat sz) (unat sz) bs 0 0)"


section \<open>Trailing zeros and population count\<close>

lemma ctz_nat_odd [simp]: "odd n \<Longrightarrow> ctz_nat n = 0"
  by (subst ctz_nat.simps) (auto intro: odd_pos)

lemma ctz_nat_double: "0 < n \<Longrightarrow> ctz_nat (2 * n) = Suc (ctz_nat n)"
  by (subst ctz_nat.simps) simp

lemma pop_nat_0 [simp]: "pop_nat 0 = 0"
  by (simp add: pop_nat.simps)

lemma pop_nat_double [simp]: "pop_nat (2 * n) = pop_nat n"
  by (cases "n = 0") (simp_all add: pop_nat.simps [of "2 * n"])

lemma pop_nat_double_Suc [simp]: "pop_nat (Suc (2 * n)) = Suc (pop_nat n)"
  by (simp add: pop_nat.simps [of "Suc (2 * n)"])

text \<open>Incrementing clears the trailing ones and sets the next bit.\<close>

lemma pop_ctz_Suc: "pop_nat (Suc n) + ctz_nat (Suc n) = pop_nat n + 1"
proof (induction n rule: less_induct)
  case (less n)
  show ?case
  proof (cases "even n")
    case True
    then obtain m where "n = 2 * m" by blast
    then show ?thesis by simp
  next
    case False
    then obtain m where n: "n = Suc (2 * m)" by (metis oddE Suc_eq_plus1)
    then have "Suc n = 2 * Suc m" by simp
    then show ?thesis using less [of m] n by (simp add: ctz_nat_double del: mult_Suc_right)
  qed
qed

lemma pop_nat_less_exp: "n < 2 ^ k \<Longrightarrow> pop_nat n \<le> k"
proof (induction k arbitrary: n)
  case (Suc k)
  then have "pop_nat (n div 2) \<le> k" by auto
  moreover have "pop_nat n \<le> 1 + pop_nat (n div 2)"
    by (subst pop_nat.simps) auto
  ultimately show ?case by simp
qed simp

lemma ctz_nat_less: "0 < n \<Longrightarrow> n < 2 ^ k \<Longrightarrow> ctz_nat n < k"
proof (induction k arbitrary: n)
  case (Suc k)
  then show ?case by (subst ctz_nat.simps) (auto simp: elim!: evenE)
qed simp

lemma ctz_nat_dvd: "0 < n \<Longrightarrow> 2 ^ ctz_nat n dvd n"
proof (induction n rule: less_induct)
  case (less n)
  show ?case
  proof (cases "odd n")
    case False
    with less.prems obtain m where m: "n = 2 * m" "0 < m" by (auto elim!: evenE)
    then show ?thesis using less.IH [of m] by (simp add: ctz_nat_double)
  qed simp
qed


section \<open>The layout\<close>

text \<open>Pointers in block \<open>i\<close> and the file offset where its content starts, on naturals.\<close>

definition skips :: "nat \<Rightarrow> nat" where
  "skips i = (if i = 0 then 0 else ctz_nat i + 1)"

definition chain_start :: "nat \<Rightarrow> nat \<Rightarrow> nat" where
  "chain_start bs i = (\<Sum>j<i. bs - 4 * skips j)"

lemma sum_skips: "(\<Sum>j<Suc i. skips j) + pop_nat i = 2 * i"
proof (induction i)
  case (Suc i)
  then show ?case using pop_ctz_Suc [of i] by (simp add: skips_def)
qed (simp add: skips_def)

lemma skips_less: "i < 2 ^ k \<Longrightarrow> skips i \<le> k"
  using ctz_nat_less [of i k] by (auto simp: skips_def)

lemma skips_u32: "i < 2 ^ 32 \<Longrightarrow> 128 \<le> bs \<Longrightarrow> 4 * skips i \<le> bs"
  using skips_less [of i 32] by simp

lemma chain_start_Suc: "chain_start bs (Suc i) = chain_start bs i + (bs - 4 * skips i)"
  by (simp add: chain_start_def)

lemma chain_start_mono: "i \<le> j \<Longrightarrow> chain_start bs i \<le> chain_start bs j"
  unfolding chain_start_def by (rule sum_mono2) auto

lemma chain_start_le: "chain_start bs n \<le> n * bs"
  by (induction n) (simp_all add: chain_start_Suc chain_start_def [of _ 0])

text \<open>The C reference's closed form of the running sum.\<close>

lemma chain_start_closed:
  assumes "128 \<le> bs" and "Suc i < 2 ^ 32"
  shows "chain_start bs (Suc i) = Suc i * (bs - 8) + 4 * (pop_nat i + 2)"
proof -
  have "chain_start bs (Suc i) + 4 * (\<Sum>j<Suc i. skips j) = (\<Sum>j<Suc i. bs)"
    unfolding chain_start_def sum_distrib_left sum.distrib [symmetric]
    by (rule sum.cong) (use assms skips_u32 [of _ bs] in auto)
  then have "chain_start bs (Suc i) + 4 * (2 * i - pop_nat i) = Suc i * bs"
    using sum_skips [of i] by simp
  moreover have "pop_nat i \<le> 2 * i" using sum_skips [of i] by linarith
  moreover have "Suc i * bs = Suc i * (bs - 8) + 8 * Suc i"
    using assms(1) diff_mult_distrib2 [of "Suc i" bs 8] mult_le_mono2 [of 8 bs "Suc i"] by linarith
  ultimately have "chain_start bs (Suc i) + 4 * (2 * i - pop_nat i) = Suc i * (bs - 8) + 8 * Suc i"
    and "pop_nat i \<le> 2 * i" by simp_all
  then show ?thesis unfolding distrib_left diff_mult_distrib2 by arith
qed

text \<open>The two step estimate of \<open>block_index_at_offset\<close> on naturals: the first quotient overshoots
  by at most one, and the correction lands on the block that holds the offset.\<close>

lemma index_estimate:
  assumes bs: "128 \<le> bs" and N: "N < 2 ^ 32" and i0: "0 < N div (bs - 8)"
  defines "b \<equiv> bs - 8" and "c \<equiv> 4 * (pop_nat (N div (bs - 8) - 1) + 2)"
  shows "c \<le> b" "c \<le> N" "(N - c) div b < 2 ^ 26"
    and "chain_start bs ((N - c) div b) \<le> N" "N < chain_start bs (Suc ((N - c) div b))"
proof -
  define i0 where "i0 = N div b"
  have b: "120 \<le> b" using bs by (simp add: b_def)
  have lo: "i0 * b \<le> N" and hi: "N < Suc i0 * b"
    using b dividend_less_times_div [of b N] unfolding i0_def
    by (simp_all add: times_div_less_eq_dividend mult.commute [of _ b])
  have i0p: "0 < i0" using assms(3) by (simp add: i0_def b_def)
  have "i0 \<le> N div 120" unfolding i0_def using b by (simp add: div_le_mono2)
  then have small: "i0 < 2 ^ 26" using N by simp
  have popb: "4 * (pop_nat m + 2) \<le> b" if "m < 2 ^ 26" for m
    using pop_nat_less_exp [OF that] b by simp
  have c_eq: "c = 4 * (pop_nat (i0 - 1) + 2)" by (simp only: c_def i0_def b_def)
  show cb: "c \<le> b" unfolding c_eq by (rule popb) (use small in arith)
  have bN: "b \<le> N" using lo i0p by (cases i0) simp_all
  with cb show cN: "c \<le> N" by simp
  let ?i = "(N - c) div b"
  have ilo: "i0 - 1 \<le> ?i"
  proof -
    have "(i0 - 1) * b \<le> N - c" using lo cb i0p by (simp add: diff_mult_distrib)
    then show ?thesis using b by (simp add: less_eq_div_iff_mult_less_eq)
  qed
  have ihi: "?i \<le> i0" unfolding i0_def by (simp add: div_le_mono)
  with small show "?i < 2 ^ 26" by simp
  have start: "chain_start bs (Suc m) = Suc m * b + 4 * (pop_nat m + 2)" if "m < 2 ^ 26" for m
    using chain_start_closed [of bs m] bs that by (simp add: b_def)
  have start_i0: "chain_start bs i0 = i0 * b + c"
    using start [of "i0 - 1"] i0p small c_eq by simp
  have sm1: "chain_start bs m \<le> m * b + b" if "m < 2 ^ 26" for m
  proof (cases m)
    case (Suc k)
    then show ?thesis using start [of k] popb [of k] that by simp
  qed (simp add: chain_start_def)
  consider "?i = i0" | "?i = i0 - 1" using ilo ihi by linarith
  then have "chain_start bs ?i \<le> N \<and> N < chain_start bs (Suc ?i)"
  proof cases
    case 1
    then have "i0 * b \<le> N - c" by (metis div_times_less_eq_dividend)
    with cN start_i0 1 have "chain_start bs ?i \<le> N" by simp
    moreover have "N < chain_start bs (Suc ?i)" using 1 start [of i0] small hi by simp
    ultimately show ?thesis ..
  next
    case 2
    have "chain_start bs (i0 - 1) \<le> (i0 - 1) * b + b" using sm1 [of "i0 - 1"] small by simp
    also have "\<dots> = i0 * b" using i0p by (cases i0) simp_all
    finally have "chain_start bs ?i \<le> N" using 2 lo by simp
    moreover have "N - c < Suc ?i * b" using b dividend_less_times_div [of b "N - c"] by (simp add: mult.commute)
    then have "N - c < i0 * b" using 2 i0p by simp
    then have "N < chain_start bs (Suc ?i)" using 2 i0p start_i0 cN by simp
    ultimately show ?thesis ..
  qed
  then show "chain_start bs ?i \<le> N" "N < chain_start bs (Suc ?i)" by simp_all
qed

lemma abs_off_eq:
  assumes "128 \<le> bs" "i < 2 ^ 26" "chain_start bs i \<le> N"
  shows "(bs - 8) * i + 4 * pop_nat i \<le> N"
    and "N - (bs - 8) * i - 4 * pop_nat i = N - chain_start bs i + 4 * skips i"
proof -
  have e: "(bs - 8) * i + 4 * pop_nat i + 4 * skips i = chain_start bs i"
  proof (cases i)
    case (Suc m)
    then show ?thesis
      using chain_start_closed [of bs m] assms pop_ctz_Suc [of m] by (simp add: skips_def algebra_simps)
  qed (simp add: chain_start_def skips_def)
  show "(bs - 8) * i + 4 * pop_nat i \<le> N" using e assms(3) by linarith
  show "N - (bs - 8) * i - 4 * pop_nat i = N - chain_start bs i + 4 * skips i"
    using e assms(3) by linarith
qed


section \<open>No wrap-around in the \<open>u32\<close> arithmetic\<close>

lemma unat_popcount: "unat (popcount w) = pop_nat (unat w)"
proof -
  have "pop_nat (unat w) \<le> 32" using pop_nat_less_exp [of "unat w" 32] unat_u32_less [of w] by simp
  then show ?thesis by (simp add: popcount_def unat_small_of_nat)
qed

lemma unat_skip_pointers: "unat (skip_pointers_in_block i) = skips (unat i)"
proof (cases "i = 0")
  case False
  then have p: "0 < unat i" by (simp add: unat_gt_0)
  then have "ctz_nat (unat i) < 32" using ctz_nat_less [of "unat i" 32] unat_u32_less [of i] by simp
  then have "unat (of_nat (Suc (ctz_nat (unat i))) :: u32) = Suc (ctz_nat (unat i))"
    by (simp add: unat_small_of_nat del: of_nat_Suc)
  then show ?thesis using False p
    by (simp add: skip_pointers_in_block_def skips_def trailing_zeros_def add.commute)
qed (simp add: skip_pointers_in_block_def skips_def)

lemma skips_le_32: "skips (unat (i :: u32)) \<le> 32"
  using skips_less [of "unat i" 32] unat_u32_less [of i] by simp

lemma skip_pointers_of_nat: "skip_pointers_in_block i = of_nat (skips (unat i))"
  by (metis unat_skip_pointers of_nat_unat ucast_id)

lemma popcount_of_nat: "popcount i = of_nat (pop_nat (unat i))"
  by (simp add: popcount_def)

lemma unat_content_bytes:
  assumes "128 \<le> unat bs"
  shows "unat (content_bytes_in_block i bs) = unat bs - 4 * skips (unat i)"
proof -
  have "content_bytes_in_block i bs = bs - of_nat (4 * skips (unat i))"
    by (simp add: content_bytes_in_block_def skip_pointers_of_nat)
  then show ?thesis using assms skips_le_32 [of i] by (simp only: unat_diff_of_nat)
qed

text \<open>The closed form lands on the block that holds the offset, and the second component is the
  position inside that block, past its skip pointers.\<close>

lemma block_index_at_offset_layout:
  assumes bs: "128 \<le> unat bs" and e: "block_index_at_offset off bs = (i, p)"
  shows "unat i < 2 ^ 26" "chain_start (unat bs) (unat i) \<le> unat off"
    "unat off < chain_start (unat bs) (Suc (unat i))"
    "unat p = unat off - chain_start (unat bs) (unat i) + 4 * skips (unat i)"
proof -
  let ?N = "unat off" and ?B = "unat bs"
  define b where "b = bs - 2 * 4"
  have b: "unat b = ?B - 8" using unat_diff_of_nat [of 8 bs] bs by (simp add: b_def)
  have N: "?N < 2 ^ 32" using unat_u32_less [of off] by simp
  have i0: "unat (off div b) = ?N div (?B - 8)" by (simp add: unat_div b)
  have "unat i < 2 ^ 26 \<and> chain_start ?B (unat i) \<le> ?N \<and> ?N < chain_start ?B (Suc (unat i)) \<and>
      unat p = ?N - chain_start ?B (unat i) + 4 * skips (unat i)"
  proof (cases "off div b = 0")
    case True
    then have "?N div (?B - 8) = 0" using i0 by simp
    then have "?N < ?B - 8" using bs by (simp add: div_eq_0_iff)
    moreover have "i = 0" "p = off" using e True by (simp_all add: block_index_at_offset_def b_def Let_def)
    ultimately show ?thesis by (simp add: chain_start_def skips_def)
  next
    case False
    then have pos: "0 < ?N div (?B - 8)" using i0 by (metis neq0_conv unat_eq_zero)
    let ?c = "4 * (pop_nat (?N div (?B - 8) - 1) + 2)"
    note est = index_estimate [OF bs N pos]
    have i1: "unat (off div b - 1) = ?N div (?B - 8) - 1"
      using unat_diff_of_nat [of 1 "off div b"] i0 pos by simp
    have "4 * (popcount (off div b - 1) + 2) = of_nat ?c"
      by (simp add: popcount_of_nat i1)
    then have i: "i = (off - of_nat ?c) div b" and p: "p = off - b * i - 4 * popcount i"
      using e False unfolding block_index_at_offset_def b_def [symmetric] Let_def by (auto simp: add.commute)
    have ui: "unat i = (?N - ?c) div (?B - 8)"
      using est(2) by (simp only: i unat_div unat_diff_of_nat b)
    have in_blk: "chain_start ?B (unat i) \<le> ?N" "?N < chain_start ?B (Suc (unat i))" "unat i < 2 ^ 26"
      using est(3-5) by (simp_all only: ui)
    note ao = abs_off_eq [OF bs in_blk(3,1)]
    have "b * i + 4 * popcount i = of_nat ((?B - 8) * unat i + 4 * pop_nat (unat i))"
      by (simp add: popcount_of_nat flip: b)
    moreover have "off - b * i - 4 * popcount i = off - (b * i + 4 * popcount i)" by simp
    ultimately have "p = off - of_nat ((?B - 8) * unat i + 4 * pop_nat (unat i))" using p by metis
    moreover note ao(1)
    ultimately have "unat p = ?N - ((?B - 8) * unat i + 4 * pop_nat (unat i))"
      by (simp only: unat_diff_of_nat)
    with ao(2) in_blk show ?thesis by simp
  qed
  then show "unat i < 2 ^ 26" "chain_start (unat bs) (unat i) \<le> unat off"
    "unat off < chain_start (unat bs) (Suc (unat i))"
    "unat p = unat off - chain_start (unat bs) (unat i) + 4 * skips (unat i)" by simp_all
qed


section \<open>The brute force block count\<close>

lemma skips_below: "i < 2 ^ 26 \<Longrightarrow> skips i \<le> 26"
  by (rule skips_less)

lemma chain_start_Suc_gt: "128 \<le> bs \<Longrightarrow> i < 2 ^ 26 \<Longrightarrow> chain_start bs i < chain_start bs (Suc i)"
  using skips_below [of i] by (simp add: chain_start_Suc)

lemma brute_loop_finds:
  assumes bs: "128 \<le> unat bs" and sz: "sz < 2 ^ 32" and n: "n < 2 ^ 26"
    and last: "chain_start (unat bs) n < sz" "sz \<le> chain_start (unat bs) (Suc n)"
    and "idx \<le> n" "n - idx < fuel"
  shows "brute_loop fuel sz bs (chain_start (unat bs) idx) idx = Some (Suc n)"
  using assms(6,7)
proof (induction fuel arbitrary: idx)
  case (Suc fuel)
  let ?B = "unat bs"
  have "unat (content_bytes_in_block (of_nat idx) bs) = ?B - 4 * skips idx"
    using bs Suc.prems n by (simp add: unat_content_bytes unat_small_of_nat)
  then have nxt: "chain_start ?B idx + unat (content_bytes_in_block (of_nat idx) bs) = chain_start ?B (Suc idx)"
    by (simp add: chain_start_Suc)
  show ?case
  proof (cases "idx = n")
    case True
    then show ?thesis using last sz nxt by (simp add: min_def)
  next
    case False
    then have "chain_start ?B (Suc idx) \<le> chain_start ?B n"
      using Suc.prems by (intro chain_start_mono) simp
    then have "\<not> sz \<le> chain_start ?B (Suc idx)" "chain_start ?B (Suc idx) < 4294967295"
      using last(1) sz by simp_all
    then show ?thesis using Suc.IH [of "Suc idx"] Suc.prems False nxt by (simp add: min_def)
  qed
qed simp

lemma chain_start_ge: "128 \<le> bs \<Longrightarrow> i \<le> 2 ^ 26 \<Longrightarrow> i \<le> chain_start bs i"
proof (induction i)
  case (Suc i)
  then show ?case using chain_start_Suc_gt [of bs i] by simp
qed simp


section \<open>Properties\<close>

text \<open>C28. The closed form index of the C reference, evaluated on wrapping \<open>u32\<close>, maps every file
  offset to the block whose capacity range holds it, and to the position past that block's skip
  pointers; no intermediate value wraps for a block of at least 128 bytes.\<close>

theorem block_index_at_offset_correct:
  assumes "128 \<le> unat bs" and "block_index_at_offset off bs = (i, p)"
  shows "chain_start (unat bs) (unat i) \<le> unat off \<and>
    unat off < chain_start (unat bs) (Suc (unat i)) \<and>
    unat p = unat off - chain_start (unat bs) (unat i) + 4 * skips (unat i) \<and> unat p < unat bs"
  using block_index_at_offset_layout [OF assms] skips_below [of "unat i"] assms(1)
  by (auto simp: chain_start_Suc)

theorem block_index_at_offset_correct_witness:
  "block_index_at_offset 496 128 = (4, 12) \<and> chain_start 128 4 \<le> 496"
proof -
  have e: "block_index_at_offset 496 128 = (4, 12)" by code_simp
  show ?thesis using block_index_at_offset_correct [OF _ e] e by simp
qed

text \<open>\<open>block_count\<close> agrees with the brute force count for every size and every legal block
  size, and the brute force loop ends within \<open>size\<close> iterations.\<close>

theorem block_count_matches_brute_force:
  assumes bs: "128 \<le> unat bs"
  shows "block_count_brute sz bs = Some (unat (block_count sz bs))"
proof (cases "sz = 0")
  case False
  obtain i p where e: "block_index_at_offset (sz - 1) bs = (i, p)" by fastforce
  note lay = block_index_at_offset_layout [OF bs e]
  have u: "unat (sz - 1) = unat sz - 1" "0 < unat sz"
    using False unat_diff_of_nat [of 1 sz] by (simp_all add: unat_gt_0 Suc_leI)
  have "unat i \<le> chain_start (unat bs) (unat i)"
    by (rule chain_start_ge [OF bs]) (use lay(1) in simp)
  with lay(2) u have "unat i < unat sz" by simp
  then have "brute_loop (unat sz) (unat sz) bs (chain_start (unat bs) 0) 0 = Some (Suc (unat i))"
    using lay u by (intro brute_loop_finds [OF bs]) auto
  moreover have "unat (i + 1) = Suc (unat i)"
    using lay(1) unat_small_of_nat [of "Suc (unat i)"] by (simp add: add.commute)
  ultimately show ?thesis using False e
    by (simp add: block_count_brute_def block_count_def chain_start_def)
qed (simp add: block_count_brute_def block_count_def)

theorem block_count_matches_brute_force_witness:
  "block_count_brute 1000 256 = Some (unat (block_count 1000 256)) \<and> block_count 1000 256 = 4"
proof -
  have "block_count 1000 256 = 4" by code_simp
  then show ?thesis using block_count_matches_brute_force [of 256 1000] by simp
qed

end
