(* ===== verification/Ctz.thy ===== *)
theory Ctz
  imports Ctz_Index
begin

text \<open>
  The CTZ skip list on a device (\<open>src/src/ctz.rs\<close>): the eight byte struct, the backward walk that
  collects a chain, the logarithmic seek, and the offset aware read. Pointers read from the device
  are untrusted: the safety lemmas hold for any device contents, the functional ones for a device
  that holds a well linked chain (\<open>ctz_chain\<close>).

  A mutable slice argument is returned with the result; on an error path the sources drop the
  caller's buffers with \<open>?\<close>, so the model returns the error alone.
\<close>

section \<open>The struct\<close>

record ctz_struct =
  head_block :: block_address
  ctz_size :: u32

definition CTZ_SIZE :: nat where "CTZ_SIZE = 8"

definition ctz_from_bytes :: "byte list \<Rightarrow> ctz_struct result" where
  "ctz_from_bytes bytes =
     (if length bytes \<noteq> CTZ_SIZE then Inl OutOfRange
      else Inr \<lparr>head_block = BlockAddress (le_u32_at bytes 0), ctz_size = le_u32_at bytes 4\<rparr>)"

definition ctz_to_bytes :: "ctz_struct \<Rightarrow> byte list" where
  "ctz_to_bytes c = splice (splice (replicate CTZ_SIZE 0) 0 (to_le_bytes (as_u32 (head_block c))))
                      4 (to_le_bytes (ctz_size c))"

definition require_in_bounds :: "'s storage \<Rightarrow> block_address \<Rightarrow> block_address result" where
  "require_in_bounds S b = (if as_u32 b < BLOCK_COUNT S then Inr b else Inl Corrupt)"

definition MAX_CTZ_BLOCKS :: nat where "MAX_CTZ_BLOCKS = 256"

definition MAX_UNBUFFERED_READ_SIZE :: nat where "MAX_UNBUFFERED_READ_SIZE = 512"


section \<open>Walking the chain\<close>

text \<open>The loop of \<open>collect_chain_blocks_buffered\<close>: \<open>head\<close> is the block at chain position
  \<open>index\<close>, \<open>sp_buf\<close> the eight byte pointer buffer.\<close>

function collect_loop ::
  "'s storage \<Rightarrow> block_address \<Rightarrow> nat \<Rightarrow> block_address list \<Rightarrow> byte list \<Rightarrow> byte list \<Rightarrow>
   ('s, block_address list \<times> byte list) io" where
  "collect_loop S head index out sp_buf window =
     io_bind (io_lift (require_in_bounds S head)) (\<lambda>h.
       let out1 = out[index := h]
       in if index = 0 then io_return (out1, window)
          else
            let count = 2 - index mod 2
            in io_bind (read_range S (as_u32 head) 0 (take (4 * count) sp_buf) window) (\<lambda>(sp, window').
                 let sp' = sp @ drop (4 * count) sp_buf; ptr0 = le_u32_at sp' 0
                 in if count = 2 then
                      let ptr1 = le_u32_at sp' 4
                      in io_bind (io_lift (require_in_bounds S (BlockAddress ptr0))) (\<lambda>p0.
                           collect_loop S (BlockAddress ptr1) (index - 2) (out1[index - 1 := p0]) sp' window')
                    else collect_loop S (BlockAddress ptr0) (index - 1) out1 sp' window'))"
  by pat_completeness auto

termination
  by (relation "measure (\<lambda>(_, _, index, _). index)") auto

declare collect_loop.simps [simp del]

definition collect_chain_blocks_buffered ::
  "'s storage \<Rightarrow> block_address \<Rightarrow> u32 \<Rightarrow> block_address list \<Rightarrow> byte list \<Rightarrow>
   ('s, block_address list \<times> byte list) io" where
  "collect_chain_blocks_buffered S head total_blocks out window =
     (if total_blocks = 0 then io_return (out, window)
      else if (of_nat (length out) :: u32) < total_blocks then io_fail OutOfRange
      else collect_loop S head (unat total_blocks - 1) out (replicate 8 0) window)"

definition collect_chain_blocks ::
  "'s storage \<Rightarrow> block_address \<Rightarrow> u32 \<Rightarrow> block_address list \<Rightarrow> ('s, block_address list) io" where
  "collect_chain_blocks S head total_blocks out =
     (if READ_SIZE S > MAX_UNBUFFERED_READ_SIZE then io_fail GeometryMismatch
      else io_bind (collect_chain_blocks_buffered S head total_blocks out
             (replicate MAX_UNBUFFERED_READ_SIZE 0)) (\<lambda>(out', _). io_return out'))"

text \<open>The descent of \<open>seek_block_buffered\<close>: the largest jump that does not undershoot.\<close>

definition jump_exp :: "nat \<Rightarrow> nat \<Rightarrow> nat" where
  "jump_exp idx target = min (ilog2_nat (idx - target)) (ctz_nat idx)"

function seek_loop ::
  "'s storage \<Rightarrow> block_address \<Rightarrow> nat \<Rightarrow> nat \<Rightarrow> byte list \<Rightarrow> byte list \<Rightarrow>
   ('s, block_address \<times> byte list) io" where
  "seek_loop S cur idx target sp window =
     (if idx > target then
        let k = jump_exp idx target
        in io_bind (read_range S (as_u32 cur) (of_nat (4 * k)) sp window) (\<lambda>(sp', window').
             io_bind (io_lift (require_in_bounds S (BlockAddress (le_u32_at sp' 0)))) (\<lambda>cur'.
               seek_loop S cur' (idx - 2 ^ k) target sp' window'))
      else io_return (cur, window))"
  by pat_completeness auto

termination
  by (relation "measure (\<lambda>(_, _, idx, _). idx)") auto

declare seek_loop.simps [simp del]

definition seek_block_buffered ::
  "'s storage \<Rightarrow> block_address \<Rightarrow> u32 \<Rightarrow> u32 \<Rightarrow> byte list \<Rightarrow> ('s, block_address \<times> byte list) io" where
  "seek_block_buffered S head from_index target_index window =
     (if target_index > from_index then io_fail OutOfRange
      else io_bind (io_lift (require_in_bounds S head)) (\<lambda>cur.
             seek_loop S cur (unat from_index) (unat target_index) (replicate 4 0) window))"

definition seek_block :: "'s storage \<Rightarrow> block_address \<Rightarrow> u32 \<Rightarrow> u32 \<Rightarrow> ('s, block_address) io" where
  "seek_block S head from_index target_index =
     (if READ_SIZE S > MAX_UNBUFFERED_READ_SIZE then io_fail GeometryMismatch
      else io_bind (seek_block_buffered S head from_index target_index
             (replicate MAX_UNBUFFERED_READ_SIZE 0)) (\<lambda>(cur, _). io_return cur))"


section \<open>Reading file content\<close>

text \<open>The forward loop of \<open>read_ctz_at\<close> over the block indices still to visit. \<open>logical_off\<close> is
  a wrapping \<open>u32\<close> as in the source.\<close>

primrec read_blocks ::
  "'s storage \<Rightarrow> block_address list \<Rightarrow> u32 \<Rightarrow> nat \<Rightarrow> nat list \<Rightarrow> nat \<Rightarrow> u32 \<Rightarrow> byte list \<Rightarrow> byte list \<Rightarrow>
   ('s, nat \<times> byte list \<times> byte list) io" where
  "read_blocks S blocks start_off target [] out_off logical_off out scratch =
     io_return (out_off, out, scratch)"
| "read_blocks S blocks start_off target (i # is) out_off logical_off out scratch =
     (if out_off \<ge> target then io_return (out_off, out, scratch)
      else
        let header = 4 * unat (skip_pointers_in_block (of_nat i));
            block_content_max = BLOCK_SIZE S - header;
            block_logical_end = logical_off + of_nat block_content_max
        in if block_logical_end \<le> start_off
           then read_blocks S blocks start_off target is out_off block_logical_end out scratch
           else
             let skip_in_block = unat start_off - unat logical_off;
                 tk = min (block_content_max - skip_in_block) (target - out_off)
             in if tk = 0
                then read_blocks S blocks start_off target is out_off block_logical_end out scratch
                else io_bind (read_range S (as_u32 (blocks ! i)) (of_nat (header + skip_in_block))
                       (slice out out_off tk) scratch) (\<lambda>(w, scratch').
                       read_blocks S blocks start_off target is (out_off + tk) block_logical_end
                         (splice out out_off w) scratch'))"

definition saturating_add :: "u32 \<Rightarrow> u32 \<Rightarrow> u32" where
  "saturating_add x y = (if unat x + unat y < 2 ^ 32 then x + y else 0xFFFFFFFF)"

definition read_ctz_at ::
  "'s storage \<Rightarrow> ctz_struct \<Rightarrow> u32 \<Rightarrow> byte list \<Rightarrow> byte list \<Rightarrow> ('s, nat \<times> byte list \<times> byte list) io" where
  "read_ctz_at S ctz start_off out scratch =
     (if length scratch < BLOCK_SIZE S \<or> BLOCK_SIZE S < BLOCK_SIZE_MIN then io_fail GeometryMismatch
      else if ctz_size ctz = 0 \<or> out = [] \<or> start_off \<ge> ctz_size ctz then io_return (0, out, scratch)
      else
        let bs = of_nat (BLOCK_SIZE S); total_blocks = block_count (ctz_size ctz) bs
        in if unat total_blocks > MAX_CTZ_BLOCKS then io_fail OutOfRange
           else io_bind (collect_chain_blocks_buffered S (head_block ctz) total_blocks
                  (replicate MAX_CTZ_BLOCKS block_NONE) scratch) (\<lambda>(blocks, scratch').
                  let end_off = min (ctz_size ctz) (saturating_add start_off (of_nat (length out)))
                  in read_blocks S blocks start_off (unat (end_off - start_off))
                       [0..<unat total_blocks] 0 0 out scratch'))"

definition read_ctz ::
  "'s storage \<Rightarrow> ctz_struct \<Rightarrow> byte list \<Rightarrow> byte list \<Rightarrow> ('s, nat \<times> byte list \<times> byte list) io" where
  "read_ctz S ctz out scratch = read_ctz_at S ctz 0 out scratch"


section \<open>The walks as functions of the device image\<close>

text \<open>The pointer walks, free of buffers and device state: \<open>im b\<close> is the content of block \<open>b\<close>.\<close>

abbreviation ptr_at :: "(u32 \<Rightarrow> byte list) \<Rightarrow> block_address \<Rightarrow> nat \<Rightarrow> block_address" where
  "ptr_at im b k \<equiv> BlockAddress (le_u32_at (im (as_u32 b)) (4 * k))"

function collect_spec ::
  "(u32 \<Rightarrow> byte list) \<Rightarrow> u32 \<Rightarrow> block_address \<Rightarrow> nat \<Rightarrow> block_address list \<Rightarrow> block_address list result" where
  "collect_spec im cnt head index out =
     (if \<not> as_u32 head < cnt then Inl Corrupt
      else if index = 0 then Inr (out[0 := head])
      else if odd index then collect_spec im cnt (ptr_at im head 0) (index - 1) (out[index := head])
      else if \<not> as_u32 (ptr_at im head 0) < cnt then Inl Corrupt
      else collect_spec im cnt (ptr_at im head 1) (index - 2) (out[index := head, index - 1 := ptr_at im head 0]))"
  by pat_completeness auto

termination
  by (relation "measure (\<lambda>(_, _, _, index, _). index)") auto

function seek_spec ::
  "(u32 \<Rightarrow> byte list) \<Rightarrow> u32 \<Rightarrow> block_address \<Rightarrow> nat \<Rightarrow> nat \<Rightarrow> block_address result" where
  "seek_spec im cnt cur idx target =
     (if idx > target then
        let nxt = ptr_at im cur (jump_exp idx target)
        in if as_u32 nxt < cnt then seek_spec im cnt nxt (idx - 2 ^ jump_exp idx target) target
           else Inl Corrupt
      else Inr cur)"
  by pat_completeness auto

termination
  by (relation "measure (\<lambda>(_, _, _, idx, _). idx)") auto

declare collect_spec.simps [simp del] seek_spec.simps [simp del]

lemma le_u32_at_header:
  "4 * k + 4 \<le> n \<Longrightarrow> n \<le> length b \<Longrightarrow> le_u32_at (slice b 0 n @ rest) (4 * k) = le_u32_at b (4 * k)"
  by (simp add: le_u32_at_append le_u32_at_slice)

context readable_flash
begin

text \<open>The device code computes exactly these functions of the image. As the contract promises
  nothing for an illegal extent, this also says that only legal reads are issued, whatever
  pointers the device holds.\<close>

lemma collect_loop_refines:
  assumes "8 \<le> BLOCK_SIZE S" and "Inv st" and "READ_SIZE S \<le> length window" and "length sp_buf = 8"
  shows "yields st (windowed (length window) (collect_spec (img st) (BLOCK_COUNT S) head index out))
    (collect_loop S head index out sp_buf window st)"
  using assms(2-)
proof (induction index arbitrary: head out sp_buf window st rule: less_induct)
  case (less index)
  note Inv = less.prems(1) and wl = less.prems(2) and sl = less.prems(3)
  show ?case
  proof (cases "as_u32 head < BLOCK_COUNT S \<and> index \<noteq> 0")
    case False
    then show ?thesis using Inv
      by (auto simp: collect_loop.simps [of S] collect_spec.simps [of "img st"] require_in_bounds_def
          io_bind_eq yields_def)
  next
    case True
    then have hb: "as_u32 head < BLOCK_COUNT S" and i0: "index \<noteq> 0" by simp_all
    have bl: "length (img st (as_u32 head)) = BLOCK_SIZE S" using img_length [OF Inv hb] .
    show ?thesis
    proof (cases "odd index")
      case True
      then have m: "index mod 2 = 1" by presburger
      show ?thesis
        apply (subst collect_loop.simps, subst collect_spec.simps)
        apply (simp add: hb i0 True m require_in_bounds_def io_bind_Inr)
        apply (rule yields_read_bind [OF Inv hb wl])
         apply (simp add: sl assms(1) order_trans [OF _ assms(1)])
        subgoal for w' st'
          using less.IH [of "index - 1" st' w'] i0 wl bl sl assms(1) le_u32_at_header [of 0 4 "img st (as_u32 head)"]
          by (simp add: min_def)
        done
    next
      case False
      then have m: "index mod 2 = 0" by presburger
      show ?thesis
        apply (subst collect_loop.simps, subst collect_spec.simps)
        apply (simp add: hb i0 False m require_in_bounds_def io_bind_Inr split del: if_split)
        apply (rule yields_read_bind [OF Inv hb wl])
         apply (simp add: sl assms(1))
        subgoal for w' st'
          using less.IH [of "index - 2" st' w'] i0 wl bl sl assms(1)
            le_u32_at_slice [of 0 8 0 "img st (as_u32 head)"] le_u32_at_slice [of 4 8 0 "img st (as_u32 head)"]
          by (simp add: min_def io_bind_eq yields_def Let_def)
        done
    qed
  qed
qed

lemma seek_loop_refines:
  assumes "128 \<le> BLOCK_SIZE S" and "Inv st" and "READ_SIZE S \<le> length window" and "length sp = 4"
    and "as_u32 cur < BLOCK_COUNT S" and "idx < 2 ^ 32"
  shows "yields st (windowed (length window) (seek_spec (img st) (BLOCK_COUNT S) cur idx target))
    (seek_loop S cur idx target sp window st)"
  using assms(2-)
proof (induction idx arbitrary: cur sp window st rule: less_induct)
  case (less idx)
  note Inv = less.prems(1) and wl = less.prems(2) and sl = less.prems(3) and cb = less.prems(4)
  show ?case
  proof (cases "idx > target")
    case False
    then show ?thesis using Inv
      by (simp add: seek_loop.simps [of S] seek_spec.simps [of "img st"] yields_def)
  next
    case True
    let ?k = "jump_exp idx target"
    have k: "?k < 32" using ctz_nat_less [of idx 32] True less.prems(5) by (simp add: jump_exp_def)
    then have u: "unat (of_nat (4 * ?k) :: u32) = 4 * ?k" by (simp add: unat_small_of_nat del: of_nat_mult)
    have room: "4 * ?k + 4 \<le> BLOCK_SIZE S" using k assms(1) by simp
    have bl: "length (img st (as_u32 cur)) = BLOCK_SIZE S" using img_length [OF Inv cb] .
    have rd: "le_u32_at (slice (img st (as_u32 cur)) (4 * ?k) 4) 0 = le_u32_at (img st (as_u32 cur)) (4 * ?k)"
      using room bl by (simp add: le_u32_at_slice)
    show ?thesis
      apply (subst seek_loop.simps, subst seek_spec.simps)
      apply (simp only: True if_True Let_def)
      apply (rule yields_read_bind [OF Inv cb wl])
      using room sl u apply simp
      subgoal for w' st'
        using less.IH [of "idx - 2 ^ ?k" st' w' "slice (img st (as_u32 cur)) (4 * ?k) 4"]
          True wl bl room less.prems(5)
        unfolding u sl
        by (simp add: rd require_in_bounds_def io_bind_eq yields_def)
      done
  qed
qed

end


section \<open>Well linked chains\<close>

text \<open>\<open>ctz_chain im cnt bl\<close>: the blocks \<open>bl\<close>, in chain order, lie on the device, and pointer \<open>k\<close> of
  block \<open>i\<close> addresses block \<open>i - 2 ^ k\<close>. \<open>ctz_content\<close> is the file the chain holds.\<close>

definition ctz_chain :: "(u32 \<Rightarrow> byte list) \<Rightarrow> u32 \<Rightarrow> block_address list \<Rightarrow> bool" where
  "ctz_chain im cnt bl \<longleftrightarrow>
     (\<forall>b\<in>set bl. as_u32 b < cnt) \<and>
     (\<forall>i<length bl. \<forall>k < skips i. ptr_at im (bl ! i) k = bl ! (i - 2 ^ k))"

definition block_body :: "(u32 \<Rightarrow> byte list) \<Rightarrow> block_address list \<Rightarrow> nat \<Rightarrow> byte list" where
  "block_body im bl i = drop (4 * skips i) (im (as_u32 (bl ! i)))"

definition ctz_bytes :: "(u32 \<Rightarrow> byte list) \<Rightarrow> block_address list \<Rightarrow> nat \<Rightarrow> byte list" where
  "ctz_bytes im bl n = concat (map (block_body im bl) [0..<n])"

definition ctz_content :: "(u32 \<Rightarrow> byte list) \<Rightarrow> block_address list \<Rightarrow> u32 \<Rightarrow> byte list" where
  "ctz_content im bl sz = take (unat sz) (ctz_bytes im bl (length bl))"

lemma ctz_chain_bound: "ctz_chain im cnt bl \<Longrightarrow> i < length bl \<Longrightarrow> as_u32 (bl ! i) < cnt"
  by (simp add: ctz_chain_def)

lemma ctz_chain_ptr: "ctz_chain im cnt bl \<Longrightarrow> i < length bl \<Longrightarrow> k < skips i \<Longrightarrow> ptr_at im (bl ! i) k = bl ! (i - 2 ^ k)"
  unfolding ctz_chain_def by blast

lemma ctz_nat_even: "even n \<Longrightarrow> 0 < n \<Longrightarrow> 0 < ctz_nat n"
  by (subst ctz_nat.simps) simp

lemma ilog2_nat_exp: "0 < n \<Longrightarrow> 2 ^ ilog2_nat n \<le> n"
proof (induction n rule: ilog2_nat.induct)
  case (1 n)
  show ?case
  proof (cases "n \<le> 1")
    case True
    then show ?thesis using 1 by (subst ilog2_nat.simps) simp
  next
    case False
    then have "2 ^ ilog2_nat (n div 2) \<le> n div 2" using 1 by simp
    then show ?thesis using False by (subst ilog2_nat.simps) simp
  qed
qed

lemma jump_exp_le: "target < idx \<Longrightarrow> 2 ^ jump_exp idx target \<le> idx - target"
proof -
  assume t: "target < idx"
  have "2 ^ jump_exp idx target \<le> (2 :: nat) ^ ilog2_nat (idx - target)"
    unfolding jump_exp_def by (rule power_increasing) simp_all
  also have "\<dots> \<le> idx - target" using t by (simp add: ilog2_nat_exp)
  finally show ?thesis .
qed

lemma collect_spec_chain:
  assumes "ctz_chain im cnt bl" and "index < length bl" and "index < length out"
  shows "collect_spec im cnt (bl ! index) index out = Inr (take (Suc index) bl @ drop (Suc index) out)"
  using assms(2,3)
proof (induction index arbitrary: out rule: less_induct)
  case (less index)
  note b = ctz_chain_bound [OF assms(1)] and p = ctz_chain_ptr [OF assms(1)]
  have upd: "take i bl @ drop i (out[i := bl ! i]) = take (Suc i) bl @ drop (Suc i) out"
    if "i < length bl" "i < length (out :: block_address list)" for i and out :: "block_address list"
    using that by (simp add: take_Suc_conv_app_nth drop_update_swap Cons_nth_drop_Suc [symmetric] upd_conv_take_nth_drop)
  show ?case
  proof (cases "index = 0")
    case True
    then show ?thesis using b [of 0] less.prems
      by (cases bl; cases out) (auto simp: collect_spec.simps)
  next
    case False
    have s: "0 < skips index" using False by (simp add: skips_def)
    show ?thesis
    proof (cases "odd index")
      case True
      then show ?thesis using less b [of index] False p [OF less.prems(1) s] upd [of index out]
        by (subst collect_spec.simps) simp
    next
      case even: False
      have s1: "1 < skips index" using ctz_nat_even [of index] even False by (simp add: skips_def)
      obtain m where m: "index = Suc (Suc m)" using even False by (metis dvd_0_right odd_one not0_implies_Suc One_nat_def)
      show ?thesis
        using less.IH [of m] less.prems b [of index] b [of "Suc m"] even p [OF less.prems(1) s]
          p [OF less.prems(1) s1] upd [of "Suc m" "out[index := bl ! index]"] upd [of index out]
        by (subst collect_spec.simps) (simp add: m)
    qed
  qed
qed

lemma collect_spec_safe:
  assumes "collect_spec im cnt head index out = r" and "index < length out"
  shows "(r = Inl Corrupt) \<or> (\<exists>out'. r = Inr out' \<and> length out' = length out \<and>
     (\<forall>j\<le>index. as_u32 (out' ! j) < cnt) \<and> drop (Suc index) out' = drop (Suc index) out)"
  using assms
proof (induction index arbitrary: head out r rule: less_induct)
  case (less index)
  let ?ok = "\<lambda>r i out. (r = Inl Corrupt) \<or> (\<exists>out'. r = Inr out' \<and> length out' = length out \<and>
     (\<forall>j\<le>i. as_u32 (out' ! j) < cnt) \<and> drop (Suc i) out' = drop (Suc i) out)"
  have top: "?ok r' index out" if r': "?ok r' i out2" and l: "length out2 = length out" "i < index"
    and d: "drop (Suc index) out2 = drop (Suc index) out"
    and c: "\<forall>j. i < j \<and> j \<le> index \<longrightarrow> as_u32 (out2 ! j) < cnt" for r' i out2
  proof -
    have "as_u32 (o' ! j) < cnt \<and> drop (Suc index) o' = drop (Suc index) out"
      if "length o' = length out2" "\<forall>j\<le>i. as_u32 (o' ! j) < cnt" "drop (Suc i) o' = drop (Suc i) out2" "j \<le> index"
      for o' j
    proof
      have "drop (Suc index) o' = drop (index - i) (drop (Suc i) o')" using l(2) by simp
      also have "\<dots> = drop (Suc index) out" unfolding that(3) using l(2) d by simp
      finally show "drop (Suc index) o' = drop (Suc index) out" .
      show "as_u32 (o' ! j) < cnt"
      proof (cases "j \<le> i")
        case False
        then have "o' ! j = drop (Suc i) o' ! (j - Suc i)" "out2 ! j = drop (Suc i) out2 ! (j - Suc i)"
          using that(1,4) l less.prems(2) by simp_all
        then show ?thesis using that(3,4) c False by (metis not_le)
      qed (use that in blast)
    qed
    then show ?thesis using r' l by force
  qed
  show ?case
  proof (cases "as_u32 head < cnt \<and> index \<noteq> 0")
    case False
    then show ?thesis using less.prems by (auto simp: collect_spec.simps [of im cnt head])
  next
    case True
    then show ?thesis
    proof (cases "odd index")
      case odd: True
      have "?ok r (index - 1) (out[index := head])"
        using less.IH [of "index - 1" _ "out[index := head]" r] less.prems True odd
        by (simp add: collect_spec.simps [of im cnt head])
      then show ?thesis by (rule top) (use True less.prems in \<open>auto simp: nth_list_update\<close>)
    next
      case even: False
      show ?thesis
      proof (cases "as_u32 (ptr_at im head 0) < cnt")
        case p: True
        have "?ok r (index - 2) (out[index := head, index - 1 := ptr_at im head 0])"
          using less.IH [of "index - 2" _ "out[index := head, index - 1 := ptr_at im head 0]" r]
            less.prems True even p
          by (simp add: collect_spec.simps [of im cnt head])
        then show ?thesis
          by (rule top) (use True less.prems p in \<open>auto simp: nth_list_update\<close>)
      qed (use less.prems True even in \<open>simp add: collect_spec.simps [of im cnt head]\<close>)
    qed
  qed
qed

lemma seek_spec_chain:
  assumes "ctz_chain im cnt bl" and "idx < length bl" and "target \<le> idx"
  shows "seek_spec im cnt (bl ! idx) idx target = Inr (bl ! target)"
  using assms(2,3)
proof (induction idx rule: less_induct)
  case (less idx)
  show ?case
  proof (cases "target < idx")
    case True
    let ?k = "jump_exp idx target"
    have k: "?k < skips idx" using True by (simp add: jump_exp_def skips_def)
    have j: "2 ^ ?k \<le> idx - target" by (rule jump_exp_le [OF True])
    have lt: "idx - 2 ^ ?k < idx" using True by simp
    show ?thesis
      using less.IH [OF lt] ctz_chain_ptr [OF assms(1) less.prems(1) k]
        ctz_chain_bound [OF assms(1), of "idx - 2 ^ ?k"] True j less.prems
      by (subst seek_spec.simps) (simp add: Let_def)
  qed (use less.prems in \<open>simp add: seek_spec.simps\<close>)
qed

lemma ctz_bytes_Suc: "ctz_bytes im bl (Suc n) = ctz_bytes im bl n @ block_body im bl n"
  by (simp add: ctz_bytes_def)

lemma length_ctz_bytes:
  assumes "\<And>j. j < n \<Longrightarrow> length (im (as_u32 (bl ! j))) = bs"
  shows "length (ctz_bytes im bl n) = chain_start bs n"
  using assms
proof (induction n)
  case (Suc n)
  then show ?case by (simp add: ctz_bytes_Suc chain_start_Suc block_body_def)
qed (simp add: ctz_bytes_def chain_start_def)

lemma slice_ctz_bytes:
  assumes len: "\<And>j. j < n \<Longrightarrow> length (im (as_u32 (bl ! j))) = bs"
    and "i < n" and "k + m \<le> bs - 4 * skips i"
  shows "slice (ctz_bytes im bl n) (chain_start bs i + k) m = slice (im (as_u32 (bl ! i))) (4 * skips i + k) m"
  using assms
proof (induction n)
  case (Suc n)
  have l: "length (ctz_bytes im bl n) = chain_start bs n" using Suc.prems(1) by (simp add: length_ctz_bytes)
  show ?case
  proof (cases "i = n")
    case True
    then show ?thesis using l Suc.prems
      by (simp add: ctz_bytes_Suc slice_append_right block_body_def slice_def add.commute)
  next
    case False
    then have "chain_start bs i + k + m \<le> chain_start bs n"
      using Suc.prems chain_start_mono [of "Suc i" n bs] by (simp add: chain_start_Suc)
    then show ?thesis using Suc False l by (simp add: ctz_bytes_Suc slice_append_left)
  qed
qed simp

context readable_flash
begin

lemma read_blocks_correct:
  assumes bs: "128 \<le> BLOCK_SIZE S" and n: "n < 2 ^ 26" and nowrap: "chain_start (BLOCK_SIZE S) n < 2 ^ 32"
    and on_dev: "\<And>j. j < n \<Longrightarrow> as_u32 (bl ! j) < BLOCK_COUNT S"
    and cover: "unat start + target \<le> chain_start (BLOCK_SIZE S) n" "target \<le> length out0"
    and "Inv st" "img st = im" "READ_SIZE S \<le> length scratch" "i \<le> n" "length out = length out0"
    "out_off = min target (chain_start (BLOCK_SIZE S) i - unat start)"
    "take out_off out = slice (ctz_bytes im bl n) (unat start) out_off"
    "drop out_off out = drop out_off out0"
  shows "yields st (\<lambda>r. \<exists>out' w'. r = Inr (target, out', w') \<and>
        out' = slice (ctz_bytes im bl n) (unat start) target @ drop target out0)
    (read_blocks S bl start target [i..<n] out_off (of_nat (chain_start (BLOCK_SIZE S) i)) out scratch st)"
  using assms(7-)
proof (induction "n - i" arbitrary: i out_off out scratch st)
  case 0
  then have "out_off = target" using cover by simp
  then show ?case using 0 append_take_drop_id [of target out] by (simp add: yields_def)
next
  case (Suc d)
  let ?B = "BLOCK_SIZE S" and ?C = "ctz_bytes im bl n" and ?s = "unat start"
  have i: "i < n" and up: "[i..<n] = i # [Suc i..<n]" using Suc.hyps(2) by (simp_all add: upt_conv_Cons)
  show ?case
  proof (cases "target \<le> out_off")
    case True
    then have "out_off = target" using Suc.prems(6) by simp
    then show ?thesis using Suc.prems append_take_drop_id [of target out] by (simp add: up yields_def)
  next
    case False
    define h where "h = 4 * skips i"
    have sk: "4 * unat (skip_pointers_in_block (of_nat i)) = h"
      using i n by (simp add: unat_skip_pointers unat_small_of_nat h_def)
    have hb: "h < ?B" using skips_below [of i] i n bs by (simp add: h_def)
    have csS: "chain_start ?B (Suc i) = chain_start ?B i + (?B - h)" by (simp add: chain_start_Suc h_def)
    have lt: "chain_start ?B (Suc i) < 2 ^ 32"
      using chain_start_mono [of "Suc i" n ?B] i nowrap by simp
    have ends: "of_nat (chain_start ?B i) + of_nat (?B - h) = (of_nat (chain_start ?B (Suc i)) :: u32)"
      by (simp only: csS of_nat_add)
    have cmp: "(of_nat (chain_start ?B (Suc i)) :: u32) \<le> start \<longleftrightarrow> chain_start ?B (Suc i) \<le> ?s"
      using lt by (simp add: word_le_nat_alt unat_small_of_nat)
    have uc: "unat (of_nat (chain_start ?B i) :: u32) = chain_start ?B i"
      using lt csS by (simp add: unat_small_of_nat)
    note unf = up read_blocks.simps(2) sk ends cmp uc Let_def
    show ?thesis
    proof (cases "chain_start ?B (Suc i) \<le> ?s")
      case True
      then have oo: "out_off = 0" using Suc.prems(6) csS by simp
      have "yields st (\<lambda>r. \<exists>out' w'. r = Inr (target, out', w') \<and> out' = slice ?C ?s target @ drop target out0)
          (read_blocks S bl start target [Suc i..<n] 0 (of_nat (chain_start ?B (Suc i))) out scratch st)"
        by (rule Suc.hyps(1)) (use Suc.hyps(2) Suc.prems True oo i in auto)
      then show ?thesis using False True oo unfolding unf by simp
    next
      case later: False
      define skip where "skip = ?s - chain_start ?B i"
      define tk where "tk = min (?B - h - skip) (target - out_off)"
      have pos: "0 < tk" using False later csS hb unfolding tk_def skip_def by arith
      have at: "chain_start ?B i + skip = ?s + out_off" using False Suc.prems(6) by (simp add: skip_def)
      have oo': "out_off + tk = min target (chain_start ?B (Suc i) - ?s)"
        using False Suc.prems(6) later csS unfolding tk_def skip_def by arith
      have room: "h + skip + tk \<le> ?B" using hb later csS unfolding tk_def skip_def by arith
      have olen: "out_off + tk \<le> length out" using cover(2) Suc.prems(5) oo' by simp
      have sl: "length (slice out out_off tk) = tk" using olen by simp
      have uo: "unat (of_nat (h + skip) :: u32) = h + skip"
        using room read_unit(3) by (simp add: unat_small_of_nat del: of_nat_add)
      have imlen: "length (im (as_u32 (bl ! j))) = ?B" if "j < n" for j
        using img_length [OF Suc.prems(1) on_dev [OF that]] Suc.prems(2) by simp
      have data: "slice (im (as_u32 (bl ! i))) (h + skip) tk = slice ?C (?s + out_off) tk"
        using slice_ctz_bytes [of n im bl ?B i skip tk] imlen i room at
        by (simp add: h_def)
      let ?out2 = "splice out out_off (slice ?C (?s + out_off) tk)"
      have dl: "length (slice ?C (?s + out_off) tk) = tk"
        unfolding data [symmetric] using room imlen [OF i] by simp
      have "take (out_off + tk) ?out2 = take out_off out @ slice ?C (?s + out_off) tk"
        using dl olen by (simp add: splice_def)
      then have t2: "take (out_off + tk) ?out2 = slice ?C ?s (out_off + tk)"
        using Suc.prems(7) by (simp add: slice_append_split)
      have "drop (out_off + tk) ?out2 = drop tk (drop out_off out)"
        using dl olen by (simp add: splice_def add.commute)
      then have d2: "drop (out_off + tk) ?out2 = drop (out_off + tk) out0"
        using Suc.prems(8) by (simp add: add.commute)
      have step: "yields st' (\<lambda>r. \<exists>out' w'. r = Inr (target, out', w') \<and> out' = slice ?C ?s target @ drop target out0)
          (read_blocks S bl start target [Suc i..<n] (out_off + tk) (of_nat (chain_start ?B (Suc i))) ?out2 w' st')"
        if "Inv st'" "img st' = img st" "length w' = length scratch" for st' w'
      proof (rule Suc.hyps(1) [OF _ that(1) _ _ _ _ oo' t2 d2])
        show "d = n - Suc i" using Suc.hyps(2) by simp
        show "img st' = im" using that(2) Suc.prems(2) by simp
        show "READ_SIZE S \<le> length w'" using that(3) Suc.prems(3) by simp
        show "Suc i \<le> n" using i by simp
        show "length ?out2 = length out0" using olen dl Suc.prems(5) by (metis length_splice)
      qed
      have "yields st (\<lambda>r. \<exists>out' w'. r = Inr (target, out', w') \<and> out' = slice ?C ?s target @ drop target out0)
         (io_bind (read_range S (as_u32 (bl ! i)) (of_nat (h + skip)) (slice out out_off tk) scratch)
           (\<lambda>(w, scratch'). read_blocks S bl start target [Suc i..<n] (out_off + tk)
              (of_nat (chain_start ?B (Suc i))) (splice out out_off w) scratch') st)"
        using room step Suc.prems(2)
        by (intro yields_read_bind [OF Suc.prems(1) on_dev [OF i] Suc.prems(3)])
           (simp_all only: uo sl prod.case data)
      then show ?thesis using False later pos unfolding unf skip_def [symmetric] tk_def [symmetric] by simp
    qed
  qed
qed

lemma yieldsD:
  assumes "yields st P r" and "r = (st', x)"
  shows "Inv st' \<and> img st' = img st \<and> (\<not> live \<and> x = Inl Io \<or> P x)"
  using assms by (simp add: yields_def)

lemma collect_buffered_refines:
  assumes "8 \<le> BLOCK_SIZE S" and "Inv st" and "READ_SIZE S \<le> length window"
    and "tot \<noteq> 0" and "unat tot \<le> length out" and "length out < 2 ^ 32"
  shows "yields st (windowed (length window)
      (collect_spec (img st) (BLOCK_COUNT S) head (unat tot - 1) out))
    (collect_chain_blocks_buffered S head tot out window st)"
proof -
  have "\<not> (of_nat (length out) :: u32) < tot"
    using assms(5,6) by (simp add: word_less_nat_alt unat_small_of_nat)
  then show ?thesis using assms collect_loop_refines [OF assms(1-3), of "replicate 8 0"]
    by (simp add: collect_chain_blocks_buffered_def)
qed

lemma read_ctz_at_yields:
  fixes start :: u32
  assumes "Inv st" and "128 \<le> BLOCK_SIZE S" and "BLOCK_SIZE S \<le> length scratch"
    and chain: "ctz_chain (img st) (BLOCK_COUNT S) bl" "head_block c = last bl"
    and cnt: "unat (block_count (ctz_size c) (of_nat (BLOCK_SIZE S))) = length bl"
    and "length bl \<le> MAX_CTZ_BLOCKS" and nowrap: "chain_start (BLOCK_SIZE S) (length bl) < 2 ^ 32"
    and "length out < 2 ^ 32"
  defines "n \<equiv> min (length out) (unat (ctz_size c) - unat start)"
  shows "yields st (\<lambda>r. \<exists>w'. r = Inr (n,
      slice (ctz_content (img st) bl (ctz_size c)) (unat start) n @ drop n out, w'))
    (read_ctz_at S c start out scratch st)"
proof (cases "ctz_size c = 0 \<or> out = [] \<or> start \<ge> ctz_size c")
  case True
  then have "n = 0" by (auto simp: n_def word_le_nat_alt)
  then show ?thesis using True assms(1-3) by (auto simp: read_ctz_at_def BLOCK_SIZE_MIN_def yields_def)
next
  case False
  let ?B = "BLOCK_SIZE S" and ?N = "length bl" and ?sz = "unat (ctz_size c)" and ?s = "unat start"
  have bsu: "unat (of_nat ?B :: u32) = ?B" using read_unit(3) by (simp add: unat_small_of_nat)
  have ss: "?s < ?sz" using False by (simp add: word_le_nat_alt)
  have lst: "?sz \<le> chain_start ?B ?N" "0 < ?N"
  proof -
    obtain i p where e: "block_index_at_offset (ctz_size c - 1) (of_nat ?B) = (i, p)" by fastforce
    have "128 \<le> unat (of_nat ?B :: u32)" using assms(2) bsu by simp
    note lay = block_index_at_offset_layout [OF this e, unfolded bsu]
    have "unat (i + 1) = Suc (unat i)"
      using lay(1) unat_small_of_nat [of "Suc (unat i)"] by (simp add: add.commute)
    then have "?N = Suc (unat i)" using cnt False e by (simp add: block_count_def)
    moreover have "unat (ctz_size c - 1) = ?sz - 1" using unat_diff_of_nat [of 1 "ctz_size c"] ss by simp
    ultimately show "?sz \<le> chain_start ?B ?N" "0 < ?N" using lay(3) ss by simp_all
  qed
  define fin where "fin = min (ctz_size c) (saturating_add start (of_nat (length out)))"
  have ufin: "unat fin = min ?sz (?s + length out)"
    using assms(9) Suc_leI [OF unat_u32_less [of "ctz_size c"]]
    by (auto simp: fin_def saturating_add_def min_def word_le_nat_alt unat_small_of_nat unat_word_ariths)
  have tgt: "unat (fin - start) = n"
  proof -
    have "unat (fin - start) = unat fin - ?s" using unat_diff_of_nat [of ?s fin] ufin ss by (simp add: of_nat_unat)
    then show ?thesis using ufin ss unfolding n_def by linarith
  qed
  have on_dev: "as_u32 (bl ! j) < BLOCK_COUNT S" if "j < ?N" for j
    using ctz_chain_bound [OF chain(1) that] .
  let ?out = "replicate MAX_CTZ_BLOCKS block_NONE"
  have hd: "head_block c = bl ! (?N - 1)" using chain(2) lst(2) by (simp add: last_conv_nth)
  have spec: "collect_spec (img st) (BLOCK_COUNT S) (head_block c) (?N - 1) ?out =
      Inr (bl @ drop ?N ?out)"
    using collect_spec_chain [OF chain(1), of "?N - 1" ?out] lst(2) assms(7) by (simp add: hd)
  have nz: "block_count (ctz_size c) (of_nat ?B) \<noteq> 0" using cnt lst(2) by auto
  have collect: "yields st (windowed (length scratch) (Inr (bl @ drop ?N ?out)))
     (collect_chain_blocks_buffered S (head_block c) (block_count (ctz_size c) (of_nat ?B)) ?out scratch st)"
    using collect_buffered_refines [OF _ assms(1) _ nz, of scratch ?out "head_block c"] assms(2,3,7)
      dvd_imp_le [OF read_unit(2)] unfolding cnt spec by (simp add: MAX_CTZ_BLOCKS_def)
  have bodies: "ctz_bytes im (bl @ xs) ?N = ctz_bytes im bl ?N" for im xs
    unfolding ctz_bytes_def
    by (rule arg_cong [of _ _ concat], rule map_cong) (simp_all add: block_body_def nth_append)
  have content: "slice (ctz_content im bl (ctz_size c)) ?s n = slice (ctz_bytes im bl ?N) ?s n" for im
    unfolding ctz_content_def by (rule slice_eq_of_take [of _ _ ?sz]) (use ss in \<open>auto simp: n_def min_def\<close>)
  have rd: "yields st' (\<lambda>r. \<exists>w'. r = Inr (n, slice (ctz_content (img st) bl (ctz_size c)) ?s n @ drop n out, w'))
      (read_blocks S (bl @ drop ?N ?out) start n [0..<?N] 0 0 out w st')"
    if i: "Inv st'" "img st' = img st" "length w = length scratch" for st' w
  proof -
    have "yields st' (\<lambda>r. \<exists>out' w'. r = Inr (n, out', w') \<and>
        out' = slice (ctz_bytes (img st) (bl @ drop ?N ?out) ?N) ?s n @ drop n out)
      (read_blocks S (bl @ drop ?N ?out) start n [0..<?N] 0 (of_nat (chain_start ?B 0)) out w st')"
    proof (rule read_blocks_correct [OF assms(2) _ nowrap _ _ _ i(1,2)])
      show "?N < 2 ^ 26" using assms(7) by (simp add: MAX_CTZ_BLOCKS_def)
      show "as_u32 ((bl @ drop ?N ?out) ! j) < BLOCK_COUNT S" if "j < ?N" for j
        using on_dev that by (simp add: nth_append)
      show "?s + n \<le> chain_start ?B ?N" using lst(1) ss by (simp add: n_def)
      show "READ_SIZE S \<le> length w" using i(3) assms(2,3) dvd_imp_le [OF read_unit(2)] by simp
    qed (simp_all add: n_def chain_start_def)
    then show ?thesis unfolding bodies content by (simp add: chain_start_def)
  qed
  show ?thesis
    unfolding read_ctz_at_def Let_def cnt fin_def [symmetric] tgt
    using False assms(2,3,7)
    by (auto simp: BLOCK_SIZE_MIN_def simp del: windowed_simps upt_Suc
        intro!: yields_bind [where m = "collect_chain_blocks_buffered _ _ _ _ _", OF collect]) (use rd in auto)
qed

lemma seek_buffered_yields:
  assumes "Inv st" and "128 \<le> BLOCK_SIZE S" and "READ_SIZE S \<le> length window"
    and chain: "ctz_chain (img st) (BLOCK_COUNT S) bl" and "head = bl ! unat from"
    and "unat from < length bl" and "target \<le> from"
  shows "yields st (\<lambda>r. \<exists>w'. length w' = length window \<and> r = Inr (bl ! unat target, w'))
    (seek_block_buffered S head from target window st)"
proof -
  have hb: "as_u32 head < BLOCK_COUNT S" using ctz_chain_bound [OF chain] assms by simp
  have "yields st (windowed (length window) (Inr (bl ! unat target)))
      (seek_loop S head (unat from) (unat target) (replicate 4 0) window st)"
    using seek_loop_refines [OF assms(2,1,3), of "replicate 4 0" head "unat from" "unat target"]
      seek_spec_chain [OF chain assms(6)] assms hb by (simp add: word_le_nat_alt)
  then show ?thesis using assms(7) hb
    by (auto simp: seek_block_buffered_def require_in_bounds_def io_bind_eq yields_def)
qed

end


section \<open>Properties\<close>

lemma ctz_struct_roundtrip:
  "length (ctz_to_bytes c) = CTZ_SIZE \<and> ctz_from_bytes (ctz_to_bytes c) = Inr c"
proof -
  have l: "length (ctz_to_bytes c) = 8" by (simp add: ctz_to_bytes_def CTZ_SIZE_def)
  have "slice (ctz_to_bytes c) 0 4 = to_le_bytes (as_u32 (head_block c))"
    "slice (ctz_to_bytes c) 4 4 = to_le_bytes (ctz_size c)"
    by (simp_all add: ctz_to_bytes_def CTZ_SIZE_def slice_splice_before)
  then show ?thesis using l by (simp add: ctz_from_bytes_def CTZ_SIZE_def)
qed

text \<open>A device with a two block file: block 3 holds the first 256 bytes, block 5 points back to it.\<close>

definition two_block_dev :: "byte list" where
  "two_block_dev = splice (mem_new 256 8) (5 * 256) (to_le_bytes 3)"

abbreviation "two_block_chain \<equiv> [BlockAddress 3, BlockAddress 5]"

lemma two_block_inv: "mem_inv 256 8 two_block_dev"
  by (simp add: two_block_dev_def mem_inv_def mem_new_def)

lemma two_block_linked: "ctz_chain (mem_img 256 two_block_dev) 8 two_block_chain"
proof -
  have "mem_img 256 two_block_dev 5 = splice (mem_img 256 (mem_new 256 8) 5) 0 (to_le_bytes 3)"
    using mem_img_splice(1) [OF mem_inv_new, of 5 8 0 "to_le_bytes 3" 256] by (simp add: two_block_dev_def)
  moreover have "length (mem_img 256 (mem_new 256 8) 5) = 256" by (simp add: mem_img_def mem_new_def)
  ultimately have "le_u32_at (mem_img 256 two_block_dev 5) 0 = 3" by simp
  then show ?thesis by (simp add: ctz_chain_def All_less_Suc skips_def)
qed

lemma two_block_sizes: "unat (block_count 300 256) = 2" "chain_start 256 (Suc (Suc 0)) = 508"
  by (code_simp, simp add: chain_start_def skips_def)

lemmas two_block_facts = two_block_inv two_block_linked two_block_sizes

text \<open>C23. Reading a CTZ file at any offset, from a device that holds its chain, delivers the bytes
  of the file from that offset, as many as fit in the buffer or remain in the file, and leaves the
  rest of the buffer and the device alone; an I/O error is the only other outcome, and none occurs
  on a device whose legal reads succeed.\<close>

theorem read_ctz_at_correct:
  assumes "readable_flash S Inv img live" and "Inv st"
    and "128 \<le> BLOCK_SIZE S" and "BLOCK_SIZE S \<le> length scratch"
    and "ctz_chain (img st) (BLOCK_COUNT S) bl" and "head_block c = last bl"
    and "unat (block_count (ctz_size c) (of_nat (BLOCK_SIZE S))) = length bl"
    and "length bl \<le> MAX_CTZ_BLOCKS" and "chain_start (BLOCK_SIZE S) (length bl) < 2 ^ 32"
    and "length out < 2 ^ 32" and "n = min (length out) (unat (ctz_size c) - unat start)"
    and "read_ctz_at S c start out scratch st = (st', r)"
  shows "Inv st' \<and> img st' = img st \<and> (\<not> live \<and> r = Inl Io \<or>
    (\<exists>w'. r = Inr (n, slice (ctz_content (img st) bl (ctz_size c)) (unat start) n @ drop n out, w')))"
  using readable_flash.yieldsD [OF assms(1) readable_flash.read_ctz_at_yields [OF assms(1-10)] assms(12)]
  unfolding assms(11) .

theorem read_ctz_at_correct_witness:
  "\<exists>st' w'. read_ctz_at (mem_storage 256 16 8) \<lparr>head_block = BlockAddress 5, ctz_size = 300\<rparr> 250
      (replicate 20 0) (replicate 256 0) two_block_dev =
    (st', Inr (20, slice (ctz_content (mem_img 256 two_block_dev) two_block_chain 300) 250 20, w'))"
proof -
  obtain st' r where r: "read_ctz_at (mem_storage 256 16 8) \<lparr>head_block = BlockAddress 5, ctz_size = 300\<rparr> 250
      (replicate 20 0) (replicate 256 0) two_block_dev = (st', r)" by fastforce
  have f: "readable_flash (mem_storage 256 16 8) (mem_inv 256 8) (mem_img 256) True" by unfold_locales
  show ?thesis
    using read_ctz_at_correct [OF f two_block_facts(1), of "replicate 256 0" two_block_chain
        "\<lparr>head_block = BlockAddress 5, ctz_size = 300\<rparr>" "replicate 20 0" 20 250 st' r]
      r two_block_facts by (auto simp: MAX_CTZ_BLOCKS_def)
qed

text \<open>C29. The logarithmic seek returns the block at the target index of the chain, the same block a
  full backward walk would list there.\<close>

theorem seek_block_buffered_correct:
  assumes "readable_flash S Inv img live" and "Inv st" and "128 \<le> BLOCK_SIZE S"
    and "READ_SIZE S \<le> length window"
    and "ctz_chain (img st) (BLOCK_COUNT S) bl" and "head = bl ! unat from"
    and "unat from < length bl" and "target \<le> from"
    and "seek_block_buffered S head from target window st = (st', r)"
  shows "Inv st' \<and> img st' = img st \<and>
    (\<not> live \<and> r = Inl Io \<or> (\<exists>w'. r = Inr (bl ! unat target, w')))"
  using readable_flash.yieldsD [OF assms(1) readable_flash.seek_buffered_yields [OF assms(1-8)] assms(9)] by auto

theorem seek_block_buffered_correct_witness:
  "\<exists>st' w'. seek_block_buffered (mem_storage 256 16 8) (BlockAddress 5) 1 0 (replicate 16 0) two_block_dev =
    (st', Inr (BlockAddress 3, w'))"
proof -
  obtain st' r where r: "seek_block_buffered (mem_storage 256 16 8) (BlockAddress 5) 1 0 (replicate 16 0) two_block_dev = (st', r)"
    by fastforce
  have f: "readable_flash (mem_storage 256 16 8) (mem_inv 256 8) (mem_img 256) True" by unfold_locales
  show ?thesis
    using seek_block_buffered_correct [OF f two_block_facts(1), of "replicate 16 0" two_block_chain
        "BlockAddress 5" 1 0 st' r] r two_block_facts by auto
qed

text \<open>C30. On arbitrary, even hostile, device contents the backward walk issues only reads the
  contract allows, changes nothing on the device, and ends with \<open>Corrupt\<close>, with an I/O error, or
  with a list whose visited entries are all addresses on the device.\<close>

theorem collect_chain_blocks_safe:
  assumes "readable_flash S Inv img live" and "Inv st" and "8 \<le> BLOCK_SIZE S"
    and "READ_SIZE S \<le> length window" and "tot \<noteq> 0" and "unat tot \<le> length out" and "length out < 2 ^ 32"
    and "collect_chain_blocks_buffered S head tot out window st = (st', r)"
  shows "Inv st' \<and> img st' = img st \<and> (\<not> live \<and> r = Inl Io \<or> r = Inl Corrupt \<or>
    (\<exists>out' w'. r = Inr (out', w') \<and> length out' = length out \<and>
       (\<forall>j<unat tot. as_u32 (out' ! j) < BLOCK_COUNT S) \<and> drop (unat tot) out' = drop (unat tot) out))"
proof -
  have "0 < unat tot" using assms(5) by (simp add: unat_gt_0)
  then have "unat tot - 1 < length out" and s: "Suc (unat tot - 1) = unat tot"
    and le: "(j \<le> unat tot - 1) = (j < unat tot)" for j using assms(6) by auto
  note safe = collect_spec_safe [OF refl this(1), of "img st" "BLOCK_COUNT S" head, unfolded s le]
  show ?thesis
    using readable_flash.yieldsD [OF assms(1) readable_flash.collect_buffered_refines [OF assms(1,3,2,4-7)] assms(8)] safe
    by (auto split: sum.splits)
qed

theorem collect_chain_blocks_safe_witness:
  "\<exists>st' r. collect_chain_blocks_buffered (mem_storage 256 16 8) (BlockAddress 7) 2 (replicate 4 block_NONE)
      (replicate 16 0) two_block_dev = (st', r) \<and> mem_img 256 st' = mem_img 256 two_block_dev \<and> r \<noteq> Inl Io"
proof -
  have f: "readable_flash (mem_storage 256 16 8) (mem_inv 256 8) (mem_img 256) True" by unfold_locales
  obtain st' r where r: "collect_chain_blocks_buffered (mem_storage 256 16 8) (BlockAddress 7) 2
      (replicate 4 block_NONE) (replicate 16 0) two_block_dev = (st', r)" by fastforce
  show ?thesis
    using collect_chain_blocks_safe [OF f two_block_facts(1), of "replicate 16 0" 2 "replicate 4 block_NONE"
        "BlockAddress 7" st' r] r by auto
qed

end
