(* ===== verification/Metadata.thy ===== *)
theory Metadata
  imports Tags Crc Blocks
begin

text \<open>
  The metadata block reader (\<open>src/src/meta.rs\<close>): a block is a revision counter and a log of
  commits, each a run of XOR chained tags closed by a commit CRC. \<open>reader_new\<close> is
  \<open>MetadataReader::new\<close>, which finds the committed region; \<open>iter_tags\<close> and \<open>iter_tags_rev\<close> walk it
  in both directions; \<open>pair_parse\<close> chooses the active block of a pair.

  The lemmas show that the reader is total and in bounds, that what it reports depends only on the
  committed bytes (so bytes after them, a torn write included, never lose a commit), and that the
  backward walk is the reverse of the forward one.
\<close>

section \<open>The reader\<close>

record tag_entry =
  te_tag :: tag
  te_body :: "byte list"

text \<open>The post CCRC parity flip \<open>(u32::from(chunk) & 1) << 31\<close>.\<close>

definition parity :: "byte \<Rightarrow> u32" where
  "parity chunk = push_bit 31 (ucast chunk AND 1)"

text \<open>The variables of the scan loop of \<open>MetadataReader::new\<close>.\<close>

record scan =
  sc_ptag :: u32
  sc_crc :: u32
  sc_off :: nat
  sc_end :: nat
  sc_next :: u32
  sc_pending :: "(nat \<times> u32) option"
  sc_last :: "(nat \<times> u32) option"

definition fcrc_of :: "byte list \<Rightarrow> nat \<Rightarrow> tag \<Rightarrow> (nat \<times> u32) option \<Rightarrow> (nat \<times> u32) option" where
  "fcrc_of block off t pending =
     (if tag_type t = ForwardCrc \<and> body_len t \<ge> 8
      then Some (unat (le_u32_at block (off + 4)), le_u32_at block (off + 8)) else pending)"

text \<open>One turn of the loop: \<open>None\<close> is a \<open>break\<close>. The loop variables are dead after a break, so the
  state before the turn stands for the result.\<close>

definition scan_step :: "byte list \<Rightarrow> scan \<Rightarrow> scan option" where
  "scan_step block s =
     (let off = sc_off s + dsize (sc_ptag s)
      in if off + 4 > length block then None
      else
        let raw_tag = be_u32_at block off;
            running_crc = crc_update (sc_crc s) (slice block off 4);
            t = raw_tag XOR sc_ptag s
        in if \<not> is_valid t then None
        else if off + dsize t > length block then None
        else if is_ccrc t then
          (if body_len t < 4 then None
           else if running_crc \<noteq> le_u32_at block (off + 4) then None
           else
             let chunk = (case ccrc_chunk t of Some c \<Rightarrow> c | None \<Rightarrow> 0);
                 ptag = t XOR parity chunk
             in Some \<lparr>sc_ptag = ptag, sc_crc = crc_INIT, sc_off = off, sc_end = off + dsize t,
                      sc_next = ptag, sc_pending = None, sc_last = sc_pending s\<rparr>)
        else
          Some (s\<lparr>sc_ptag := t, sc_off := off,
                  sc_crc := crc_update running_crc (slice block (off + 4) (body_len t)),
                  sc_pending := fcrc_of block off t (sc_pending s)\<rparr>))"

lemma scan_step_off:
  "scan_step block s = Some s' \<Longrightarrow> sc_off s < sc_off s' \<and> sc_off s' + 4 \<le> length block"
  by (auto simp: scan_step_def Let_def intro: less_le_trans [OF _ add_left_mono] split: if_splits)

function scan_loop :: "byte list \<Rightarrow> scan \<Rightarrow> scan" where
  "scan_loop block s = (case scan_step block s of None \<Rightarrow> s | Some s' \<Rightarrow> scan_loop block s')"
  by pat_completeness auto

termination
  by (relation "measure (\<lambda>(block, s). length block - sc_off s)") (auto dest: scan_step_off)

declare scan_loop.simps [simp del]

definition scan_init :: "byte list \<Rightarrow> scan" where
  "scan_init block =
     \<lparr>sc_ptag = 0xFFFFFFFF, sc_crc = crc_update crc_INIT (slice block 0 4), sc_off = 0, sc_end = 0,
      sc_next = 0xFFFFFFFF, sc_pending = None, sc_last = None\<rparr>"

text \<open>\<open>scan_for_tail\<close>: the second pass over the committed region, latest tail wins, the null
  sentinel collapsed afterwards.\<close>

definition decode_pair :: "byte list \<Rightarrow> nat \<Rightarrow> block_pair" where
  "decode_pair block i = pair_new (BlockAddress (le_u32_at block i)) (BlockAddress (le_u32_at block (i + 4)))"

function tail_loop ::
  "byte list \<Rightarrow> nat \<Rightarrow> u32 \<Rightarrow> nat \<Rightarrow> block_pair option \<Rightarrow> bool \<Rightarrow> block_pair option \<times> bool" where
  "tail_loop block fin ptag off0 latest is_hard =
     (let off = off0 + dsize ptag
      in if off + 4 > fin then (latest, is_hard)
      else
        let t = be_u32_at block off XOR ptag
        in if \<not> is_valid t \<or> off + dsize t > fin then (latest, is_hard)
        else
          let hit = (tag_type t = HardTail \<or> tag_type t = SoftTail) \<and> body_len t = 8;
              latest' = (if hit then Some (decode_pair block (off + 4)) else latest);
              is_hard' = (if hit then tag_type t = HardTail else is_hard);
              ptag' = (case ccrc_chunk t of Some c \<Rightarrow> t XOR parity c | None \<Rightarrow> t)
          in tail_loop block fin ptag' off latest' is_hard')"
  by pat_completeness auto

termination
proof (relation "measure (\<lambda>(block, fin, ptag, off, latest, is_hard). fin - off)", goal_cases)
  case (2 block fin ptag off0)
  have "0 < dsize ptag" by simp
  with 2(1,2) have "fin - (off0 + dsize ptag) < fin - off0" by arith
  with 2(1) show ?case by simp
qed simp

declare tail_loop.simps [simp del]

definition scan_for_tail :: "byte list \<Rightarrow> nat \<Rightarrow> block_pair option \<times> bool" where
  "scan_for_tail block fin =
     (case tail_loop block fin 0xFFFFFFFF 0 None False of
        (Some p, is_hard) \<Rightarrow> if pair_is_null p then (None, False) else (Some p, is_hard)
      | (None, _) \<Rightarrow> (None, False))"

record reader =
  rd_block :: "byte list"
  revision :: u32
  committed_end :: nat
  next_ptag :: u32
  rd_tail :: "block_pair option"
  is_hard_tail :: bool
  rd_erased :: bool

definition window_erased :: "byte list \<Rightarrow> nat \<Rightarrow> (nat \<times> u32) option \<Rightarrow> bool" where
  "window_erased block fin last_fcrc =
     (case last_fcrc of None \<Rightarrow> False
      | Some (sz, expected) \<Rightarrow>
          fin + sz \<le> length block \<and> crc_update crc_INIT (slice block fin sz) = expected)"

definition reader_new :: "byte list \<Rightarrow> reader result" where
  "reader_new block =
     (if length block < 4 then Inl Corrupt
      else
        let s = scan_loop block (scan_init block); (tl, hard) = scan_for_tail block (sc_end s)
        in Inr \<lparr>rd_block = block, revision = le_u32_at block 0, committed_end = sc_end s,
                next_ptag = sc_next s, rd_tail = tl, is_hard_tail = hard,
                rd_erased = window_erased block (sc_end s) (sc_last s)\<rparr>)"

definition has_commits :: "reader \<Rightarrow> bool" where
  "has_commits r \<longleftrightarrow> committed_end r > 0"


section \<open>The iterators\<close>

record tag_iter =
  ti_block :: "byte list"
  ti_offset :: nat
  ti_end :: nat
  ti_ptag :: u32

definition tag_iter_next :: "tag_iter \<Rightarrow> (tag_entry \<times> tag_iter) option" where
  "tag_iter_next it =
     (let off = ti_offset it + dsize (ti_ptag it)
      in if off + 4 > ti_end it then None
      else
        let t = be_u32_at (ti_block it) off XOR ti_ptag it
        in if \<not> is_valid t then None
        else if off + dsize t > ti_end it then None
        else Some (\<lparr>te_tag = t, te_body = slice (ti_block it) (off + 4) (body_len t)\<rparr>,
                   it\<lparr>ti_offset := off,
                      ti_ptag := (case ccrc_chunk t of Some c \<Rightarrow> t XOR parity c | None \<Rightarrow> t)\<rparr>))"

lemma tag_iter_next_less:
  "tag_iter_next it = Some (e, it') \<Longrightarrow>
     ti_end it' = ti_end it \<and> ti_offset it < ti_offset it' \<and> ti_offset it' < ti_end it"
  by (auto simp: tag_iter_next_def Let_def intro: less_le_trans [OF _ add_left_mono] split: if_splits)

function tags_from :: "tag_iter \<Rightarrow> tag_entry list" where
  "tags_from it = (case tag_iter_next it of None \<Rightarrow> [] | Some (e, it') \<Rightarrow> e # tags_from it')"
  by pat_completeness auto

termination
  by (relation "measure (\<lambda>it. ti_end it - ti_offset it)") (auto dest: tag_iter_next_less)

declare tags_from.simps [simp del]

definition reader_iter :: "reader \<Rightarrow> tag_iter" where
  "reader_iter r = \<lparr>ti_block = rd_block r, ti_offset = 0, ti_end = committed_end r, ti_ptag = 0xFFFFFFFF\<rparr>"

definition iter_tags :: "reader \<Rightarrow> tag_entry list" where
  "iter_tags r = tags_from (reader_iter r)"

text \<open>\<open>TagIterRev\<close>: offset just past the entry to yield next, and that entry's decoded tag.\<close>

record tag_iter_rev =
  tr_block :: "byte list"
  tr_off :: nat
  tr_ntag :: u32

definition tag_iter_rev_next :: "tag_iter_rev \<Rightarrow> (tag_entry \<times> tag_iter_rev) option" where
  "tag_iter_rev_next it =
     (let cur = tr_ntag it AND 0x7FFFFFFF; d = dsize cur
      in if tr_off it < 4 + d then None
      else
        let off = tr_off it - d; raw = be_u32_at (tr_block it) off
        in Some (\<lparr>te_tag = cur, te_body = slice (tr_block it) (off + 4) (body_len cur)\<rparr>,
                 it\<lparr>tr_off := off, tr_ntag := (raw XOR tr_ntag it) AND 0x7FFFFFFF\<rparr>))"

lemma tag_iter_rev_next_less: "tag_iter_rev_next it = Some (e, it') \<Longrightarrow> tr_off it' < tr_off it"
  by (auto simp: tag_iter_rev_next_def Let_def split: if_splits intro!: diff_less)

function tags_rev_from :: "tag_iter_rev \<Rightarrow> tag_entry list" where
  "tags_rev_from it = (case tag_iter_rev_next it of None \<Rightarrow> [] | Some (e, it') \<Rightarrow> e # tags_rev_from it')"
  by pat_completeness auto

termination
  by (relation "measure tr_off") (auto dest: tag_iter_rev_next_less)

declare tags_rev_from.simps [simp del]

definition iter_tags_rev :: "reader \<Rightarrow> tag_entry list" where
  "iter_tags_rev r = tags_rev_from \<lparr>tr_block = rd_block r, tr_off = committed_end r, tr_ntag = next_ptag r\<rparr>"


section \<open>Pairs\<close>

definition rev_scmp :: "u32 \<Rightarrow> u32 \<Rightarrow> int" where
  "rev_scmp a b = sint (a - b)"

record metadata_pair =
  active_block :: block_address
  alternate_block :: block_address
  mp_reader :: reader
  alternate_valid :: bool

definition pair_parse ::
  "block_address \<Rightarrow> byte list \<Rightarrow> block_address \<Rightarrow> byte list \<Rightarrow> metadata_pair result" where
  "pair_parse addr_a block_a addr_b block_b =
     rbind (reader_new block_a) (\<lambda>reader_a.
     rbind (reader_new block_b) (\<lambda>reader_b.
       let a_is_newer = rev_scmp (revision reader_a) (revision reader_b) \<ge> 0;
           (primary, primary_addr, secondary, secondary_addr) =
             (if a_is_newer then (reader_a, addr_a, reader_b, addr_b)
              else (reader_b, addr_b, reader_a, addr_a))
       in if has_commits primary then
            Inr \<lparr>active_block = primary_addr, alternate_block = secondary_addr, mp_reader = primary,
                 alternate_valid = has_commits secondary\<rparr>
          else if has_commits secondary then
            Inr \<lparr>active_block = secondary_addr, alternate_block = primary_addr, mp_reader = secondary,
                 alternate_valid = False\<rparr>
          else Inl Corrupt))"


section \<open>One step of the log\<close>

abbreviation chain_ptag :: "tag \<Rightarrow> u32" where
  "chain_ptag t \<equiv> (case ccrc_chunk t of Some c \<Rightarrow> t XOR parity c | None \<Rightarrow> t)"

definition off_end :: "scan \<Rightarrow> nat" where
  "off_end s = sc_off s + dsize (sc_ptag s)"

definition entry_of :: "byte list \<Rightarrow> scan \<Rightarrow> tag_entry" where
  "entry_of b s = (let t = be_u32_at b (off_end s) XOR sc_ptag s
                   in \<lparr>te_tag = t, te_body = slice b (off_end s + 4) (body_len t)\<rparr>)"

lemma tag_length_eqI: "(\<And>n. n < 10 \<Longrightarrow> bit s n = bit t n) \<Longrightarrow> tag_length s = tag_length t"
  by (rule bit_word_eqI) (auto simp: bit_tag_length)

lemma dsize_cong: "(\<And>n. n < 10 \<Longrightarrow> bit s n = bit t n) \<Longrightarrow> dsize s = dsize t \<and> body_len s = body_len t"
  using tag_length_eqI [of s t] by (simp add: dsize_def body_len_def is_special_length_def)

lemma bit_parity: "bit (parity c) n \<longleftrightarrow> n = 31 \<and> bit c 0"
  by (auto simp: parity_def bit_simps)

lemma dsize_parity [simp]: "dsize (t XOR parity c) = dsize t" "body_len (t XOR parity c) = body_len t"
  using dsize_cong [of "t XOR parity c" t] by (auto simp: bit_simps bit_parity)

lemma dsize_chain_ptag [simp]: "dsize (chain_ptag t) = dsize t" "body_len (chain_ptag t) = body_len t"
  by (simp_all split: option.splits)

lemma dsize_all_ones [simp]: "dsize 0xFFFFFFFF = 4" "body_len 0xFFFFFFFF = 0"
  by (simp_all add: dsize_def body_len_def is_special_length_def tag_length_def LEN_SPECIAL_def)

lemma scan_step_Some:
  assumes "scan_step b s = Some s'"
  defines "t \<equiv> te_tag (entry_of b s)"
  shows "sc_off s' = off_end s" "sc_ptag s' = chain_ptag t" "is_valid t"
    "off_end s + dsize t \<le> length b" "off_end s' = off_end s + dsize t"
    "te_body (entry_of b s) = slice b (off_end s + 4) (body_len t)"
    "is_ccrc t \<Longrightarrow> sc_end s' = off_end s' \<and> sc_next s' = sc_ptag s' \<and> sc_last s' = sc_pending s
       \<and> sc_pending s' = None \<and> sc_crc s' = crc_INIT \<and> 4 \<le> body_len t
       \<and> le_u32_at b (off_end s + 4) = crc_update (sc_crc s) (slice b (off_end s) 4)"
    "\<not> is_ccrc t \<Longrightarrow> sc_end s' = sc_end s \<and> sc_next s' = sc_next s \<and> sc_last s' = sc_last s
       \<and> sc_crc s' = crc_update (sc_crc s) (slice b (off_end s) (dsize t))
       \<and> sc_pending s' = fcrc_of b (off_end s) t (sc_pending s)"
proof -
  have t: "t = be_u32_at b (off_end s) XOR sc_ptag s" by (simp add: t_def entry_of_def Let_def)
  have cc: "is_ccrc t \<Longrightarrow> \<exists>c. ccrc_chunk t = Some c" "\<not> is_ccrc t \<Longrightarrow> ccrc_chunk t = None"
    by (auto simp: is_ccrc_iff_chunk)
  have crc: "crc_update (crc_update c (slice b p 4)) (slice b (p + 4) n) = crc_update c (slice b p (4 + n))" for c p n
    by (simp add: slice_append_split)
  note st = assms(1) [unfolded scan_step_def Let_def off_end_def [symmetric] t [symmetric]]
  show "sc_off s' = off_end s" "is_valid t" "off_end s + dsize t \<le> length b"
    using st by (auto split: if_splits)
  show p: "sc_ptag s' = chain_ptag t" using st cc by (auto split: if_splits)
  then show "off_end s' = off_end s + dsize t" using \<open>sc_off s' = off_end s\<close> by (simp add: off_end_def)
  show "te_body (entry_of b s) = slice b (off_end s + 4) (body_len t)"
    by (simp add: entry_of_def Let_def t)
  show "is_ccrc t \<Longrightarrow> sc_end s' = off_end s' \<and> sc_next s' = sc_ptag s' \<and> sc_last s' = sc_pending s
       \<and> sc_pending s' = None \<and> sc_crc s' = crc_INIT \<and> 4 \<le> body_len t
       \<and> le_u32_at b (off_end s + 4) = crc_update (sc_crc s) (slice b (off_end s) 4)"
    using st by (auto simp: off_end_def split: if_splits)
  show "\<not> is_ccrc t \<Longrightarrow> sc_end s' = sc_end s \<and> sc_next s' = sc_next s \<and> sc_last s' = sc_last s
       \<and> sc_crc s' = crc_update (sc_crc s) (slice b (off_end s) (dsize t))
       \<and> sc_pending s' = fcrc_of b (off_end s) t (sc_pending s)"
    using st by (auto simp: dsize_def crc split: if_splits)
qed

text \<open>A step reads only the bytes of the entry it takes.\<close>

lemma be_u32_at_cong: "slice b i 4 = slice b' i 4 \<Longrightarrow> i + 4 \<le> length b \<Longrightarrow> i + 4 \<le> length b' \<Longrightarrow> be_u32_at b i = be_u32_at b' i"
proof -
  assume s: "slice b i 4 = slice b' i 4" and l: "i + 4 \<le> length b" "i + 4 \<le> length b'"
  have "b ! (i + k) = b' ! (i + k)" if "k < 4" for k
    using that l nth_slice [of k 4 i b] nth_slice [of k 4 i b'] s by simp
  from this [of 0] this [of 1] this [of 2] this [of 3] show ?thesis by (simp add: be_u32_at_def)
qed

lemma le_u32_at_cong: "slice b i 4 = slice b' i 4 \<Longrightarrow> i + 4 \<le> length b \<Longrightarrow> i + 4 \<le> length b' \<Longrightarrow> le_u32_at b i = le_u32_at b' i"
proof -
  assume s: "slice b i 4 = slice b' i 4" and l: "i + 4 \<le> length b" "i + 4 \<le> length b'"
  have "b ! (i + k) = b' ! (i + k)" if "k < 4" for k
    using that l nth_slice [of k 4 i b] nth_slice [of k 4 i b'] s by simp
  from this [of 0] this [of 1] this [of 2] this [of 3] show ?thesis by (simp add: le_u32_at_def)
qed

lemma scan_step_prefix:
  assumes st: "scan_step b s = Some s'" and E: "off_end s' \<le> E" "take E b = take E b'" "E \<le> length b'" "E \<le> length b"
  shows "scan_step b' s = Some s'" "entry_of b' s = entry_of b s"
proof -
  define t where "t = te_tag (entry_of b s)"
  note S = scan_step_Some [OF st, folded t_def]
  let ?o = "off_end s"
  have d: "?o + 4 + body_len t \<le> E" using E S(5) by (simp add: dsize_def)
  have sl: "slice b i n = slice b' i n" if "i + n \<le> E" for i n
    using slice_eq_of_take [OF that E(2)] .
  have be: "be_u32_at b' ?o = be_u32_at b ?o" using be_u32_at_cong [of b' ?o b] sl [of ?o 4] d E by simp
  have t: "t = be_u32_at b ?o XOR sc_ptag s" by (simp add: t_def entry_of_def Let_def)
  have le: "le_u32_at b' (?o + 4) = le_u32_at b (?o + 4)" if "4 \<le> body_len t"
    using le_u32_at_cong [of b' "?o + 4" b] sl [of "?o + 4" 4] d E that by simp
  have le8: "le_u32_at b' (?o + 8) = le_u32_at b (?o + 8)" if "8 \<le> body_len t"
    using le_u32_at_cong [of b' "?o + 8" b] sl [of "?o + 8" 4] d E that by simp
  have fc: "fcrc_of b' ?o t p = fcrc_of b ?o t p" for p
    using le le8 by (simp add: fcrc_of_def)
  have body: "slice b' (?o + 4) (body_len t) = slice b (?o + 4) (body_len t)"
    and word: "slice b' ?o 4 = slice b ?o 4" using sl [of "?o + 4"] sl [of ?o 4] d by simp_all
  have len: "length b' < ?o + 4 \<longleftrightarrow> length b < ?o + 4" "length b' < ?o + dsize t \<longleftrightarrow> length b < ?o + dsize t"
    using d E by (auto simp: dsize_def)
  show "scan_step b' s = Some s'"
    using st unfolding scan_step_def Let_def off_end_def [symmetric] be t [symmetric] len word body fc
    using le by (auto split: if_splits)
  show "entry_of b' s = entry_of b s"
    by (simp add: entry_of_def Let_def be body flip: t)
qed


section \<open>Runs of the scan\<close>

text \<open>\<open>scan_path b s es s'\<close>: the scan of \<open>b\<close> goes from \<open>s\<close> to \<open>s'\<close> over the entries \<open>es\<close>.\<close>

inductive scan_path :: "byte list \<Rightarrow> scan \<Rightarrow> tag_entry list \<Rightarrow> scan \<Rightarrow> bool" where
  path_nil: "scan_path b s [] s"
| path_cons: "scan_step b s = Some s' \<Longrightarrow> scan_path b s' es s'' \<Longrightarrow>
    scan_path b s (entry_of b s # es) s''"

inductive_cases scan_path_NilE: "scan_path b s [] s'"
inductive_cases scan_path_ConsE: "scan_path b s (e # es) s'"

lemma scan_path_append: "scan_path b s es s' \<Longrightarrow> scan_path b s' fs s'' \<Longrightarrow> scan_path b s (es @ fs) s''"
  by (induction rule: scan_path.induct) (auto intro: scan_path.intros)

lemma scan_path_mono: "scan_path b s es s' \<Longrightarrow> off_end s \<le> off_end s'"
  by (induction rule: scan_path.induct) (auto dest: scan_step_Some(5))

lemma scan_path_loop: "scan_path b s es s' \<Longrightarrow> scan_loop b s = scan_loop b s'"
  by (induction rule: scan_path.induct) (simp_all add: scan_loop.simps)

lemma scan_path_prefix:
  assumes "scan_path b s es s'" "off_end s' \<le> E" "take E b = take E b'" "E \<le> length b'" "E \<le> length b"
  shows "scan_path b' s es s'"
  using assms
proof (induction rule: scan_path.induct)
  case (path_cons b s s' es s'')
  have "off_end s' \<le> E" using scan_path_mono [OF path_cons.hyps(2)] path_cons.prems(1) by simp
  note p = scan_step_prefix [OF path_cons.hyps(1) this path_cons.prems(2-)]
  show ?case using scan_path.path_cons [OF p(1), of es s''] path_cons p(2) by simp
qed (simp add: path_nil)

text \<open>The invariant of the scan: the committed end never passes the cursor, and lies in the block.\<close>

definition scan_ok :: "byte list \<Rightarrow> scan \<Rightarrow> bool" where
  "scan_ok b s \<longleftrightarrow> sc_end s \<le> off_end s \<and> sc_end s \<le> length b"

lemma scan_step_ok: "scan_step b s = Some s' \<Longrightarrow> scan_ok b s \<Longrightarrow> scan_ok b s' \<and> sc_end s \<le> sc_end s'"
  using scan_step_Some [of b s s'] by (cases "is_ccrc (te_tag (entry_of b s))") (auto simp: scan_ok_def)

lemma scan_path_ok: "scan_path b s es s' \<Longrightarrow> scan_ok b s \<Longrightarrow> scan_ok b s' \<and> sc_end s \<le> sc_end s'"
  by (induction rule: scan_path.induct) (auto dest: scan_step_ok)

lemma scan_init_ok: "scan_ok b (scan_init b)" "off_end (scan_init b) = 4"
  by (simp_all add: scan_ok_def scan_init_def off_end_def)

text \<open>A state just after a verified CCRC.\<close>

definition at_commit :: "scan \<Rightarrow> bool" where
  "at_commit s \<longleftrightarrow> sc_end s = off_end s \<and> sc_next s = sc_ptag s \<and> sc_crc s = crc_INIT \<and> sc_pending s = None"

lemma scan_loop_last_commit:
  "\<exists>es c. scan_path b s es c \<and> (c = s \<or> at_commit c) \<and> sc_end (scan_loop b s) = sc_end c \<and>
     sc_next (scan_loop b s) = sc_next c \<and> sc_last (scan_loop b s) = sc_last c"
proof (induction b s rule: scan_loop.induct)
  case (1 b s)
  show ?case
  proof (cases "scan_step b s")
    case None
    then show ?thesis by (auto simp: scan_loop.simps [of b s] intro: path_nil)
  next
    case (Some s')
    then obtain es c where p: "scan_path b s' es c" "c = s' \<or> at_commit c"
      "sc_end (scan_loop b s') = sc_end c" "sc_next (scan_loop b s') = sc_next c"
      "sc_last (scan_loop b s') = sc_last c" using 1 by blast
    note S = scan_step_Some [OF Some]
    have loop: "scan_loop b s = scan_loop b s'" using Some by (simp add: scan_loop.simps [of b s])
    show ?thesis
    proof (cases "at_commit c")
      case True
      then show ?thesis using path_cons [OF Some p(1)] p loop by auto
    next
      case False
      then have "c = s'" "\<not> is_ccrc (te_tag (entry_of b s))" using p(2) S(7) by (auto simp: at_commit_def)
      then show ?thesis using S(8) p loop by (metis path_nil)
    qed
  qed
qed


section \<open>Entries, tails and the backward walk along a run\<close>

lemma tag_iter_next_step:
  assumes "scan_step b s = Some s'" "off_end s' \<le> E"
  shows "tag_iter_next \<lparr>ti_block = b, ti_offset = sc_off s, ti_end = E, ti_ptag = sc_ptag s\<rparr> =
     Some (entry_of b s, \<lparr>ti_block = b, ti_offset = sc_off s', ti_end = E, ti_ptag = sc_ptag s'\<rparr>)"
proof -
  define t where "t = te_tag (entry_of b s)"
  have t: "t = be_u32_at b (off_end s) XOR sc_ptag s" by (simp add: t_def entry_of_def Let_def)
  have e: "entry_of b s = \<lparr>te_tag = t, te_body = slice b (off_end s + 4) (body_len t)\<rparr>"
    by (simp add: entry_of_def Let_def t)
  note S = scan_step_Some [OF assms(1), folded t_def]
  have g: "\<not> E < off_end s + 4" "\<not> E < off_end s + dsize t"
    using S(5) assms(2) by (simp_all add: dsize_def)
  show ?thesis using S(1-3) g
    by (simp add: tag_iter_next_def Let_def e flip: off_end_def t)
qed

lemma tags_from_path:
  assumes "scan_path b s es s'" "off_end s' \<le> E"
  shows "tags_from \<lparr>ti_block = b, ti_offset = sc_off s, ti_end = E, ti_ptag = sc_ptag s\<rparr> =
     es @ tags_from \<lparr>ti_block = b, ti_offset = sc_off s', ti_end = E, ti_ptag = sc_ptag s'\<rparr>"
  using assms
proof (induction rule: scan_path.induct)
  case (path_cons b s s' es s'')
  have "off_end s' \<le> E" using scan_path_mono [OF path_cons.hyps(2)] path_cons.prems by simp
  from tag_iter_next_step [OF path_cons.hyps(1) this] show ?case
    using path_cons.IH [OF path_cons.prems] by (subst tags_from.simps) simp
qed simp

lemma tags_from_end: "E < off + dsize ptag + 4 \<Longrightarrow> tags_from \<lparr>ti_block = b, ti_offset = off, ti_end = E, ti_ptag = ptag\<rparr> = []"
  by (subst tags_from.simps) (simp add: tag_iter_next_def)

text \<open>What a tail entry of the log says, and the latest one of a list.\<close>

definition is_tail_entry :: "tag_entry \<Rightarrow> bool" where
  "is_tail_entry e \<longleftrightarrow>
     (tag_type (te_tag e) = HardTail \<or> tag_type (te_tag e) = SoftTail) \<and> body_len (te_tag e) = 8"

definition tail_of :: "tag_entry list \<Rightarrow> block_pair option \<times> bool" where
  "tail_of es =
     (let ts = filter is_tail_entry es; p = decode_pair (te_body (last ts)) 0
      in if ts = [] \<or> pair_is_null p then (None, False)
         else (Some p, tag_type (te_tag (last ts)) = HardTail))"

primrec tail_fold :: "tag_entry list \<Rightarrow> block_pair option \<times> bool \<Rightarrow> block_pair option \<times> bool" where
  "tail_fold [] r = r"
| "tail_fold (e # es) r = tail_fold es
     (if is_tail_entry e then (Some (decode_pair (te_body e) 0), tag_type (te_tag e) = HardTail) else r)"

lemma tail_fold_filter:
  "tail_fold es r = (let ts = filter is_tail_entry es in
     if ts = [] then r else (Some (decode_pair (te_body (last ts)) 0), tag_type (te_tag (last ts)) = HardTail))"
  by (induction es arbitrary: r) (auto simp: Let_def)

lemma tail_loop_path:
  assumes "scan_path b s es s'" "off_end s' \<le> E"
  shows "tail_loop b E (sc_ptag s) (sc_off s) latest hard =
     tail_loop b E (sc_ptag s') (sc_off s') (fst (tail_fold es (latest, hard))) (snd (tail_fold es (latest, hard)))"
  using assms
proof (induction arbitrary: latest hard rule: scan_path.induct)
  case (path_cons b s s' es s'')
  have oe: "off_end s' \<le> E" using scan_path_mono [OF path_cons.hyps(2)] path_cons.prems by simp
  define t where "t = te_tag (entry_of b s)"
  have t: "t = be_u32_at b (off_end s) XOR sc_ptag s" by (simp add: t_def entry_of_def Let_def)
  note S = scan_step_Some [OF path_cons.hyps(1), folded t_def]
  have dp: "decode_pair (slice b (off_end s + 4) 8) 0 = decode_pair b (off_end s + 4)" if "body_len t = 8"
    using S(4) that by (simp add: decode_pair_def le_u32_at_slice dsize_def)
  have hit: "is_tail_entry (entry_of b s) \<longleftrightarrow> (tag_type t = HardTail \<or> tag_type t = SoftTail) \<and> body_len t = 8"
    by (simp add: is_tail_entry_def t_def)
  have g: "\<not> E < off_end s + 4" "\<not> (\<not> is_valid t \<or> E < off_end s + dsize t)"
    using S(3,5) oe by (simp_all add: dsize_def)
  show ?case
    using path_cons.IH [OF path_cons.prems] dp S(1,2,6) g
    by (subst tail_loop.simps) (auto simp: Let_def hit simp flip: off_end_def t t_def)
qed simp

lemma scan_for_tail_path:
  assumes "scan_path b (scan_init b) es c" "off_end c = E"
  shows "scan_for_tail b E = tail_of es"
proof -
  let ?r = "tail_fold es (None, False)"
  have "tail_loop b E 0xFFFFFFFF 0 None False = tail_loop b E (sc_ptag c) (sc_off c) (fst ?r) (snd ?r)"
    using tail_loop_path [OF assms(1), of E None False] assms(2) by (simp add: scan_init_def)
  also have "\<dots> = ?r" using assms(2) by (subst tail_loop.simps) (simp add: Let_def off_end_def)
  finally have "scan_for_tail b E = (case ?r of (Some p, h) \<Rightarrow> if pair_is_null p then (None, False) else (Some p, h) | (None, _) \<Rightarrow> (None, False))"
    by (simp only: scan_for_tail_def)
  then show ?thesis by (simp add: tail_fold_filter tail_of_def Let_def)
qed


lemma and_mask31 [simp]: "x AND 0x7FFFFFFF = take_bit 31 x" for x :: u32
  using take_bit_eq_mask [of 31 x] by (simp add: mask_eq_exp_minus_1)

lemma take31_valid: "is_valid t \<Longrightarrow> take_bit 31 (chain_ptag t) = t"
proof (rule bit_word_eqI)
  fix n assume v: "is_valid t" and n: "n < LENGTH(32)"
  then have "n < 31 \<or> n = 31" by auto
  then show "bit (take_bit 31 (chain_ptag t)) n = bit t n" using v
    by (auto simp: is_valid_bit bit_simps bit_parity split: option.splits)
qed

lemma tags_rev_from_mask:
  "tags_rev_from \<lparr>tr_block = b, tr_off = p, tr_ntag = n\<rparr> =
   tags_rev_from \<lparr>tr_block = b, tr_off = p, tr_ntag = take_bit 31 n\<rparr>"
  by (subst (1 2) tags_rev_from.simps) (simp add: tag_iter_rev_next_def Let_def take_bit_xor)

lemma tags_rev_step:
  assumes "scan_step b s = Some s'" "4 \<le> off_end s"
  shows "tags_rev_from \<lparr>tr_block = b, tr_off = off_end s', tr_ntag = sc_ptag s'\<rparr> =
     entry_of b s # tags_rev_from \<lparr>tr_block = b, tr_off = off_end s, tr_ntag = sc_ptag s\<rparr>"
proof -
  define t where "t = te_tag (entry_of b s)"
  have t: "t = be_u32_at b (off_end s) XOR sc_ptag s" by (simp add: t_def entry_of_def Let_def)
  then have raw: "be_u32_at b (off_end s) = t XOR sc_ptag s" by (simp add: xor.assoc)
  have e: "entry_of b s = \<lparr>te_tag = t, te_body = slice b (off_end s + 4) (body_len t)\<rparr>"
    by (simp add: entry_of_def Let_def t)
  note S = scan_step_Some [OF assms(1), folded t_def]
  have cur: "take_bit 31 (sc_ptag s') = t" using S(2,3) take31_valid by simp
  have mt: "take_bit 31 t = t" using cur by auto
  have "(t XOR p) XOR t = p" for p by (rule bit_word_eqI) (auto simp: bit_simps)
  then have "take_bit 31 (be_u32_at b (off_end s) XOR sc_ptag s') = take_bit 31 (sc_ptag s)"
    unfolding raw take_bit_xor cur mt .
  then have "tag_iter_rev_next \<lparr>tr_block = b, tr_off = off_end s', tr_ntag = sc_ptag s'\<rparr> =
     Some (entry_of b s, \<lparr>tr_block = b, tr_off = off_end s, tr_ntag = take_bit 31 (sc_ptag s)\<rparr>)"
    using S(5) assms(2) by (simp add: tag_iter_rev_next_def Let_def cur e)
  then show ?thesis by (subst tags_rev_from.simps) (simp add: tags_rev_from_mask [of b _ "sc_ptag s"])
qed

lemma tags_rev_path:
  "scan_path b s es s' \<Longrightarrow> 4 \<le> off_end s \<Longrightarrow>
   tags_rev_from \<lparr>tr_block = b, tr_off = off_end s', tr_ntag = sc_ptag s'\<rparr> =
     rev es @ tags_rev_from \<lparr>tr_block = b, tr_off = off_end s, tr_ntag = sc_ptag s\<rparr>"
proof (induction rule: scan_path.induct)
  case (path_cons b s s' es s'')
  have "4 \<le> off_end s'" using scan_step_Some(5) [OF path_cons.hyps(1)] path_cons.prems by simp
  then show ?case using path_cons.IH tags_rev_step [OF path_cons.hyps(1) path_cons.prems] by simp
qed simp

lemma tags_rev_start:
  "tags_rev_from \<lparr>tr_block = b, tr_off = 4, tr_ntag = 0xFFFFFFFF\<rparr> = []"
  "tags_rev_from \<lparr>tr_block = b, tr_off = 0, tr_ntag = n\<rparr> = []"
  by (subst tags_rev_from.simps, simp add: tag_iter_rev_next_def Let_def)+


section \<open>What the reader reports\<close>

text \<open>The reader in terms of its run: the committed entries \<open>es\<close> lead from the revision header to a
  state \<open>c\<close> just after a verified CCRC, and every field is read off \<open>c\<close> and \<open>es\<close>. Without a
  verified commit \<open>es\<close> is empty.\<close>

lemma reader_new_path:
  assumes "reader_new b = Inr r"
  obtains es c where "4 \<le> length b" "scan_path b (scan_init b) es c" "iter_tags r = es"
    "c = scan_init b \<and> es = [] \<and> committed_end r = 0 \<or> at_commit c \<and> committed_end r = off_end c"
    "next_ptag r = sc_next c" "rd_block r = b" "revision r = le_u32_at b 0"
    "(rd_tail r, is_hard_tail r) = tail_of es"
    "rd_erased r = window_erased b (committed_end r) (sc_last c)"
    "committed_end r \<le> length b" "iter_tags_rev r = rev es"
proof -
  have l: "4 \<le> length b" using assms by (auto simp: reader_new_def split: if_splits)
  obtain es c where p: "scan_path b (scan_init b) es c" "c = scan_init b \<or> at_commit c"
    "sc_end (scan_loop b (scan_init b)) = sc_end c" "sc_next (scan_loop b (scan_init b)) = sc_next c"
    "sc_last (scan_loop b (scan_init b)) = sc_last c"
    using scan_loop_last_commit [of b "scan_init b"] by blast
  obtain tl hd where tl: "scan_for_tail b (sc_end c) = (tl, hd)" by fastforce
  have r: "r = \<lparr>rd_block = b, revision = le_u32_at b 0, committed_end = sc_end c, next_ptag = sc_next c,
      rd_tail = tl, is_hard_tail = hd, rd_erased = window_erased b (sc_end c) (sc_last c)\<rparr>"
    using assms l p tl by (auto simp: reader_new_def Let_def)
  have le: "sc_end c \<le> length b" using scan_path_ok [OF p(1) scan_init_ok(1)] by (simp add: scan_ok_def)
  show thesis
  proof (cases "at_commit c")
    case True
    then have e: "off_end c = sc_end c" "sc_next c = sc_ptag c" by (simp_all add: at_commit_def)
    have "tags_from \<lparr>ti_block = b, ti_offset = 0, ti_end = sc_end c, ti_ptag = 0xFFFFFFFF\<rparr> = es"
      using tags_from_path [OF p(1), of "sc_end c"] e(1)
        tags_from_end [of "sc_end c" "sc_off c" "sc_ptag c" b, folded off_end_def] 
      by (simp add: scan_init_def)
    moreover have "tags_rev_from \<lparr>tr_block = b, tr_off = sc_end c, tr_ntag = sc_ptag c\<rparr> = rev es"
      using tags_rev_path [OF p(1)] scan_init_ok(2) [of b] tags_rev_start(1) [of b] e
      by (simp add: scan_init_def)
    ultimately show thesis
      using that [OF l p(1)] True e scan_for_tail_path [OF p(1) e(1)] le tl
      by (simp add: r iter_tags_def reader_iter_def iter_tags_rev_def)
  next
    case False
    with p have c: "c = scan_init b" by simp
    have z: "sc_end c = 0" by (simp add: c scan_init_def)
    have "scan_for_tail b 0 = (None, False)"
      by (simp add: scan_for_tail_def tail_loop.simps)
    moreover have "tags_from \<lparr>ti_block = b, ti_offset = 0, ti_end = 0, ti_ptag = 0xFFFFFFFF\<rparr> = []"
      by (simp add: tags_from_end)
    ultimately show thesis
      using that [OF l path_nil] tl z c tags_rev_start(2) [of b]
      by (simp add: r iter_tags_def reader_iter_def iter_tags_rev_def tail_of_def)
  qed
qed

lemma reader_new_ok: "4 \<le> length b \<Longrightarrow> \<exists>r. reader_new b = Inr r"
  by (auto simp: reader_new_def Let_def split: prod.splits)


lemma scan_path_entries:
  assumes "scan_path b s es s'"
  shows "off_end s' = off_end s + (\<Sum>e\<leftarrow>es. dsize (te_tag e))"
    "\<forall>e\<in>set es. is_valid (te_tag e) \<and> length (te_body e) = body_len (te_tag e)"
    "es \<noteq> [] \<Longrightarrow> at_commit s' \<Longrightarrow> sc_end s < off_end s' \<Longrightarrow> sc_end s \<le> off_end s \<Longrightarrow> is_ccrc (te_tag (last es))"
  using assms
proof (induction rule: scan_path.induct)
  case (path_cons b s s' es s'')
  note S = scan_step_Some [OF path_cons.hyps(1)]
  { case 1 then show ?case using path_cons.IH(1) S(5) by simp
  next
    case 2 then show ?case using path_cons.IH(2) S(3,4,6) by (simp add: dsize_def)
  next
    case 3
    show ?case
    proof (cases "es = []")
      case True
      then have "s'' = s'" using path_cons.hyps(2) by (auto elim: scan_path_NilE)
      then show ?thesis using S(5,8) 3 True by (fastforce simp: at_commit_def)
    next
      case False
      have "sc_end s' \<le> off_end s'" using S(5,7,8) 3 by (cases "is_ccrc (te_tag (entry_of b s))") auto
      moreover have "off_end s' < off_end s''"
        using path_cons.IH(1) False by (cases es) (auto intro: add_pos_nonneg)
      ultimately show ?thesis using path_cons.IH(3) 3 False by simp
    qed
  }
qed simp_all

lemma tail_of_not_null: "tail_of es = (Some p, h) \<Longrightarrow> \<not> pair_is_null p"
  by (auto simp: tail_of_def Let_def split: if_splits)

lemma reader_new_prefix:
  assumes r: "reader_new b = Inr r" and agree: "take (committed_end r) b = take (committed_end r) b'"
    and len: "4 \<le> length b'" "committed_end r \<le> length b'"
  obtains r' more where "reader_new b' = Inr r'" "committed_end r \<le> committed_end r'"
    "iter_tags r' = iter_tags r @ more" "has_commits r \<Longrightarrow> revision r' = revision r"
proof -
  obtain es c where p: "4 \<le> length b" "scan_path b (scan_init b) es c" "iter_tags r = es"
    "c = scan_init b \<and> es = [] \<and> committed_end r = 0 \<or> at_commit c \<and> committed_end r = off_end c"
    "revision r = le_u32_at b 0" "committed_end r \<le> length b"
    by (rule reader_new_path [OF r]) blast
  obtain r' where r': "reader_new b' = Inr r'" using reader_new_ok [OF len(1)] by blast
  obtain es' c' where p': "scan_path b' (scan_init b') es' c'" "iter_tags r' = es'"
    "c' = scan_init b' \<and> es' = [] \<and> committed_end r' = 0 \<or> at_commit c' \<and> committed_end r' = off_end c'"
    "revision r' = le_u32_at b' 0"
    by (rule reader_new_path [OF r']) blast
  show thesis
  proof (cases "committed_end r = 0")
    case True
    then have "es = []" using p(2,4) scan_path_mono [OF p(2)] scan_init_ok(2) [of b] by auto
    then show thesis using that [OF r'] p(3) True by (simp add: has_commits_def)
  next
    case False
    then have c: "at_commit c" "committed_end r = off_end c" using p(4) by auto
    have "4 \<le> off_end c" using scan_path_mono [OF p(2)] scan_init_ok(2) [of b] by simp
    then have s4: "slice b 0 4 = slice b' 0 4" using slice_eq_of_take [OF _ agree, of 0 4] c(2) by simp
    then have init: "scan_init b' = scan_init b" by (simp add: scan_init_def)
    have rev: "le_u32_at b' 0 = le_u32_at b 0" using le_u32_at_cong [of b' 0 b] s4 p(1) len(1) by simp
    have path: "scan_path b' (scan_init b') es c"
      using scan_path_prefix [OF p(2) _ agree len(2) p(6)] c(2) init by simp
    then have loop: "scan_loop b' (scan_init b') = scan_loop b' c" by (rule scan_path_loop)
    obtain fs d where d: "scan_path b' c fs d" "d = c \<or> at_commit d"
      "sc_end (scan_loop b' c) = sc_end d" "sc_next (scan_loop b' c) = sc_next d"
      using scan_loop_last_commit [of b' c] by blast
    have d_at: "sc_end d = off_end d" using d(2) c(1) by (auto simp: at_commit_def)
    have ce: "committed_end r' = off_end d"
      using r' len(1) loop d(3) d_at by (auto simp: reader_new_def Let_def split: prod.splits)
    have "tags_from \<lparr>ti_block = b', ti_offset = 0, ti_end = off_end d, ti_ptag = 0xFFFFFFFF\<rparr> = es @ fs"
      using tags_from_path [OF scan_path_append [OF path d(1)], of "off_end d"]
        tags_from_end [of "off_end d" "sc_off d" "sc_ptag d" b', folded off_end_def]
      by (simp add: scan_init_def)
    moreover have "rd_block r' = b'" using r' len(1) by (auto simp: reader_new_def Let_def split: prod.splits)
    ultimately have "iter_tags r' = es @ fs" by (simp add: iter_tags_def reader_iter_def ce)
    then show thesis
      using that [OF r'] p(3,5) p'(4) rev ce c(2) scan_path_mono [OF d(1)] by simp
  qed
qed


text \<open>A block with one empty commit, and an erased one.\<close>

definition tiny_block :: "byte list" where
  "tiny_block =
     (let raw = to_be_bytes (Tag_new True (CommitCrc 0) 0x3ff 4 XOR 0xFFFFFFFF)
      in to_le_bytes 1 @ raw @ to_le_bytes (crc_update crc_INIT (to_le_bytes 1 @ raw)) @ replicate 12 0xFF)"

lemma tiny_reader:
  "\<exists>r. reader_new tiny_block = Inr r \<and> committed_end r = 12 \<and> revision r = 1 \<and> length (iter_tags r) = 1"
proof -
  have "case reader_new tiny_block of Inl _ \<Rightarrow> False
     | Inr r \<Rightarrow> committed_end r = 12 \<and> revision r = 1 \<and> length (iter_tags r) = 1" by code_simp
  then show ?thesis by (auto split: sum.splits)
qed

lemma erased_reader: "\<exists>r. reader_new (replicate 24 0xFF) = Inr r \<and> committed_end r = 0"
proof -
  have "case reader_new (replicate 24 0xFF) of Inl _ \<Rightarrow> False | Inr r \<Rightarrow> committed_end r = 0" by code_simp
  then show ?thesis by (auto split: sum.splits)
qed


section \<open>Properties\<close>

text \<open>C5. Every commit the reader reports stays reported, in the same order and at the head of the
  log, whatever happens to the bytes after the committed end: a torn or aborted program there never
  loses a durable entry, and entries only ever appear behind them.\<close>

theorem reader_durable:
  assumes "reader_new b = Inr r" and "take (committed_end r) b = take (committed_end r) b'"
    and "4 \<le> length b'" and "committed_end r \<le> length b'"
  shows "\<exists>r' more. reader_new b' = Inr r' \<and> committed_end r \<le> committed_end r' \<and>
    iter_tags r' = iter_tags r @ more \<and> (has_commits r \<longrightarrow> revision r' = revision r)"
  by (rule reader_new_prefix [OF assms]) blast

theorem reader_durable_witness:
  "\<exists>r' more. reader_new (take 12 tiny_block @ replicate 9 7) = Inr r' \<and> 12 \<le> committed_end r' \<and> revision r' = 1"
proof -
  obtain r where r: "reader_new tiny_block = Inr r" "committed_end r = 12" "revision r = 1" using tiny_reader by blast
  have l: "length tiny_block = 24" by (simp add: tiny_block_def Let_def)
  show ?thesis
    using reader_durable [OF r(1), of "take 12 tiny_block @ replicate 9 7"] r l by (auto simp: has_commits_def)
qed

text \<open>C26. The reader never leaves the block: the committed region is inside it, it is exactly the
  revision header followed by the reported entries, every entry is a valid tag with a body of its
  declared length, the last one is a commit CRC, and the tail is that of the latest tail tag, never
  the null sentinel.\<close>

theorem reader_in_bounds:
  assumes "reader_new b = Inr r"
  shows "committed_end r \<le> length b \<and>
    (has_commits r \<longrightarrow> committed_end r = 4 + (\<Sum>e\<leftarrow>iter_tags r. dsize (te_tag e)) \<and>
        iter_tags r \<noteq> [] \<and> is_ccrc (te_tag (last (iter_tags r)))) \<and>
    (\<not> has_commits r \<longrightarrow> iter_tags r = []) \<and>
    (\<forall>e\<in>set (iter_tags r). is_valid (te_tag e) \<and> length (te_body e) = body_len (te_tag e)) \<and>
    (rd_tail r, is_hard_tail r) = tail_of (iter_tags r) \<and>
    (\<forall>p. rd_tail r = Some p \<longrightarrow> \<not> pair_is_null p)"
proof (rule reader_new_path [OF assms])
  fix es c assume p: "scan_path b (scan_init b) es c" "iter_tags r = es"
    "c = scan_init b \<and> es = [] \<and> committed_end r = 0 \<or> at_commit c \<and> committed_end r = off_end c"
    "(rd_tail r, is_hard_tail r) = tail_of es" "committed_end r \<le> length b"
  note E = scan_path_entries [OF p(1)]
  have i: "off_end (scan_init b) = 4" "sc_end (scan_init b) = 0" by (simp_all add: scan_init_def off_end_def)
  have ne: "es \<noteq> []" if "has_commits r"
  proof
    assume "es = []"
    then have "c = scan_init b" using p(1) by (auto elim: scan_path_NilE)
    then show False using that p(3) i by (auto simp: has_commits_def at_commit_def)
  qed
  have nn: "\<forall>q. rd_tail r = Some q \<longrightarrow> \<not> pair_is_null q" using p(4) tail_of_not_null by metis
  show ?thesis using p(2-5) E i ne nn by (auto simp: has_commits_def)
qed

theorem reader_in_bounds_witness:
  "\<exists>r. reader_new tiny_block = Inr r \<and> committed_end r = 12 \<and> is_ccrc (te_tag (last (iter_tags r)))"
proof -
  obtain r where r: "reader_new tiny_block = Inr r" "committed_end r = 12" using tiny_reader by blast
  then show ?thesis using reader_in_bounds [OF r(1)] by (simp add: has_commits_def)
qed

text \<open>C27. The backward iterator yields exactly the forward entries in reverse order, bodies
  included.\<close>

theorem reader_backward_is_reverse:
  assumes "reader_new b = Inr r"
  shows "iter_tags_rev r = rev (iter_tags r)"
  by (rule reader_new_path [OF assms]) simp

theorem reader_backward_is_reverse_witness:
  "\<exists>r. reader_new tiny_block = Inr r \<and> length (iter_tags_rev r) = 1"
proof -
  obtain r where r: "reader_new tiny_block = Inr r" "length (iter_tags r) = 1" using tiny_reader by blast
  then show ?thesis using reader_backward_is_reverse [OF r(1)] by simp
qed

text \<open>Revision comparison is the signed distance modulo \<open>2 ^ 32\<close>: a counter advanced by up to
  \<open>2 ^ 31 - 1\<close> steps is newer, also across the wrap to zero.\<close>

theorem rev_scmp_wraps:
  assumes "0 < k" and "k < 2 ^ 31"
  shows "rev_scmp (a + of_nat k) a = int k \<and> rev_scmp a (a + of_nat k) = - int k"
proof -
  have "sint (of_nat k :: u32) = int k"
    using assms by (simp add: signed_of_nat signed_take_bit_int_eq_self)
  moreover have "sint (- of_nat k :: u32) = - int k"
  proof -
    have "(- of_nat k :: u32) = word_of_int (- int k)" by simp
    then show ?thesis using assms by (simp only: signed_of_int) (simp add: signed_take_bit_int_eq_self)
  qed
  ultimately show ?thesis by (simp add: rev_scmp_def)
qed

theorem rev_scmp_wraps_witness: "rev_scmp 1 0xFFFFFFFF = 2 \<and> rev_scmp 0xFFFFFFFF 1 = - 2"
proof -
  have "(0xFFFFFFFF :: u32) + of_nat 2 = 1" by code_simp
  then show ?thesis using rev_scmp_wraps [of 2 "0xFFFFFFFF"] by (simp only:) simp
qed

text \<open>The active block of a pair is the one with verified commits, the newer revision deciding
  when both have them and the first block winning a tie; the pair is \<open>Corrupt\<close> exactly when neither
  has a commit, and \<open>alternate_valid\<close> says whether the other block has any.\<close>

theorem pair_parse_active:
  assumes "reader_new A = Inr ra" and "reader_new B = Inr rb"
  shows "pair_parse a A b B =
    (if has_commits ra \<and> (has_commits rb \<longrightarrow> rev_scmp (revision ra) (revision rb) \<ge> 0)
     then Inr \<lparr>active_block = a, alternate_block = b, mp_reader = ra, alternate_valid = has_commits rb\<rparr>
     else if has_commits rb
     then Inr \<lparr>active_block = b, alternate_block = a, mp_reader = rb, alternate_valid = has_commits ra\<rparr>
     else Inl Corrupt)"
  using assms by (auto simp: pair_parse_def Let_def)

theorem pair_parse_active_witness:
  "\<exists>p. pair_parse (BlockAddress 0) (replicate 24 0xFF) (BlockAddress 1) tiny_block = Inr p \<and>
     active_block p = BlockAddress 1"
proof -
  obtain r where r: "reader_new tiny_block = Inr r" "committed_end r = 12" using tiny_reader by blast
  obtain e where e: "reader_new (replicate 24 0xFF) = Inr e" "committed_end e = 0" using erased_reader by blast
  show ?thesis using pair_parse_active [OF e(1) r(1)] r e by (simp add: has_commits_def)
qed

end
