(* ===== verification/Commits.thy ===== *)
theory Commits
  imports Metadata
begin

text \<open>
  The commit builder (\<open>Commit\<close> of \<open>src/src/meta.rs\<close>): tags and commit CRCs are staged into a block
  image. The builder is shown to be the inverse of the reader: after every operation the scan of
  any block that starts with the staged bytes is in step with the builder (\<open>tracks\<close>), so a fresh
  commit and an appended one read back exactly.

  A failing operation returns its error alone. The builder's checks precede its writes, except that
  \<open>finish_padded\<close> may have staged the FCRC tag before its last two checks; no caller uses a builder
  after an error.
\<close>

record commit =
  cm_buf :: "byte list"
  cm_offset :: nat
  cm_ptag :: u32
  cm_crc :: u32

definition commit_new :: "byte list \<Rightarrow> u32 \<Rightarrow> commit result" where
  "commit_new buf rv =
     (if length buf < 8 then Inl OutOfRange
      else let buf' = splice buf 0 (to_le_bytes rv)
           in Inr \<lparr>cm_buf = buf', cm_offset = 4, cm_ptag = 0xFFFFFFFF,
                   cm_crc = crc_update crc_INIT (slice buf' 0 4)\<rparr>)"

definition commit_new_appending :: "byte list \<Rightarrow> nat \<Rightarrow> u32 \<Rightarrow> commit result" where
  "commit_new_appending buf offset ptag =
     (if length buf < offset + 8 then Inl OutOfRange
      else Inr \<lparr>cm_buf = buf, cm_offset = offset, cm_ptag = ptag, cm_crc = crc_INIT\<rparr>)"

definition commit_tag :: "commit \<Rightarrow> tag \<Rightarrow> byte list \<Rightarrow> commit result" where
  "commit_tag c t body =
     (if is_ccrc t then Inl InvalidTag
      else if length body \<noteq> body_len t then Inl InvalidTag
      else if cm_offset c + dsize t > length (cm_buf c) then Inl OutOfRange
      else
        let raw = to_be_bytes (t XOR cm_ptag c);
            buf1 = splice (cm_buf c) (cm_offset c) raw;
            crc1 = crc_update (cm_crc c) raw;
            buf2 = (if body = [] then buf1 else splice buf1 (cm_offset c + 4) body);
            crc2 = (if body = [] then crc1 else crc_update crc1 body)
        in Inr \<lparr>cm_buf = buf2, cm_offset = cm_offset c + dsize t, cm_ptag = t, cm_crc = crc2\<rparr>)"

definition commit_finish :: "commit \<Rightarrow> byte \<Rightarrow> commit result" where
  "commit_finish c chunk =
     (let ccrc_tag = Tag_new True (CommitCrc chunk) 0x3FF 4
      in if cm_offset c + 8 > length (cm_buf c) then Inl OutOfRange
      else
        let raw = to_be_bytes (ccrc_tag XOR cm_ptag c);
            crc = crc_update (cm_crc c) raw;
            buf = splice (splice (cm_buf c) (cm_offset c) raw) (cm_offset c + 4) (to_le_bytes crc)
        in Inr \<lparr>cm_buf = buf, cm_offset = cm_offset c + 8, cm_ptag = ccrc_tag XOR parity chunk,
                cm_crc = crc_INIT\<rparr>)"

definition div_ceil :: "nat \<Rightarrow> nat \<Rightarrow> nat" where
  "div_ceil n d = (n + d - 1) div d"

definition fcrc_erased :: "nat \<Rightarrow> u32" where
  "fcrc_erased prog_size = ((\<lambda>crc. crc_update crc [0xFF]) ^^ prog_size) crc_INIT"

definition fcrc_tag :: tag where
  "fcrc_tag = Tag_new True ForwardCrc 0x3FF 8"

definition fcrc_body :: "nat \<Rightarrow> byte list" where
  "fcrc_body prog_size =
     splice (splice (replicate 8 0) 0 (to_le_bytes (of_nat prog_size))) 4 (to_le_bytes (fcrc_erased prog_size))"

text \<open>The second half of \<open>finish_padded\<close>: the CCRC whose body runs to \<open>fin\<close>.\<close>

definition commit_ccrc_padded :: "commit \<Rightarrow> byte \<Rightarrow> nat \<Rightarrow> commit result" where
  "commit_ccrc_padded c chunk fin =
     (let ccrc_off = cm_offset c; blen = fin - ccrc_off - 4
      in if blen > 0x3FE then Inl OutOfRange
      else if ccrc_off + 4 + blen > length (cm_buf c) then Inl OutOfRange
      else
        let ccrc_tag = Tag_new True (CommitCrc chunk) 0x3FF (of_nat blen);
            raw = to_be_bytes (ccrc_tag XOR cm_ptag c);
            crc = crc_update (cm_crc c) raw;
            buf = splice (splice (cm_buf c) ccrc_off raw) (ccrc_off + 4) (to_le_bytes crc)
        in Inr \<lparr>cm_buf = buf, cm_offset = fin, cm_ptag = ccrc_tag XOR parity chunk, cm_crc = crc_INIT\<rparr>)"

definition commit_finish_padded :: "commit \<Rightarrow> byte \<Rightarrow> nat \<Rightarrow> nat \<Rightarrow> commit result" where
  "commit_finish_padded c chunk prog_size block_size =
     (let off = cm_offset c
      in if prog_size = 0 then commit_finish c chunk
      else
        let target = min (off + 20) block_size;
            fin = div_ceil target prog_size * prog_size
        in if fin > block_size then Inl OutOfRange
        else if fin < off + 8 then Inl OutOfRange
        else
          let emit_fcrc = fin \<ge> off + 20 \<and> fin + prog_size \<le> block_size
          in rbind (if emit_fcrc then commit_tag c fcrc_tag (fcrc_body prog_size) else Inr c)
               (\<lambda>c'. commit_ccrc_padded c' chunk fin))"

definition bytes_written :: "commit \<Rightarrow> nat" where
  "bytes_written c = cm_offset c"

text \<open>A run of \<open>tag\<close> calls, as the callers issue them.\<close>

fun commit_tags :: "commit \<Rightarrow> tag_entry list \<Rightarrow> commit result" where
  "commit_tags c [] = Inr c"
| "commit_tags c (e # es) = rbind (commit_tag c (te_tag e) (te_body e)) (\<lambda>c'. commit_tags c' es)"


section \<open>The builder and the scan in step\<close>

text \<open>\<open>tracks c s es\<close>: on any block that starts with the bytes the builder has staged, the scan runs
  over the entries \<open>es\<close> to \<open>s\<close>, at the builder's offset with the builder's XOR base and CRC.\<close>

definition tracks :: "commit \<Rightarrow> scan \<Rightarrow> tag_entry list \<Rightarrow> bool" where
  "tracks c s es \<longleftrightarrow>
     cm_offset c \<le> length (cm_buf c) \<and> 4 \<le> cm_offset c \<and>
     off_end s = cm_offset c \<and> sc_ptag s = cm_ptag c \<and> sc_crc s = cm_crc c \<and>
     (\<forall>b. cm_offset c \<le> length b \<and> take (cm_offset c) b = take (cm_offset c) (cm_buf c) \<longrightarrow>
        scan_path b (scan_init b) es s)"

lemma tracks_new:
  assumes "commit_new buf rv = Inr c"
  shows "tracks c (scan_init (cm_buf c)) [] \<and> length (cm_buf c) = length buf \<and>
    drop 4 (cm_buf c) = drop 4 buf \<and> take 4 (cm_buf c) = to_le_bytes rv"
proof -
  have c: "8 \<le> length buf" "c = \<lparr>cm_buf = splice buf 0 (to_le_bytes rv), cm_offset = 4, cm_ptag = 0xFFFFFFFF,
      cm_crc = crc_update crc_INIT (slice (splice buf 0 (to_le_bytes rv)) 0 4)\<rparr>"
    using assms by (auto simp: commit_new_def Let_def split: if_splits)
  have "scan_path b (scan_init b) [] (scan_init (cm_buf c))"
    if "4 \<le> length b" "take 4 b = take 4 (cm_buf c)" for b
  proof -
    have "scan_init b = scan_init (cm_buf c)"
      using slice_eq_of_take [OF _ that(2), of 0 4] by (simp add: scan_init_def)
    then show ?thesis by (simp add: path_nil)
  qed
  then show ?thesis using c by (auto simp: tracks_def scan_init_def off_end_def splice_def)
qed

lemma path_snoc:
  "scan_path b s es s' \<Longrightarrow> scan_step b s' = Some s'' \<Longrightarrow> scan_path b s (es @ [entry_of b s']) s''"
  by (rule scan_path_append [OF _ path_cons [OF _ path_nil]])

text \<open>One more entry: the bytes at the builder's offset are the XORed tag word and the body.\<close>

lemma tracks_step:
  assumes tr: "tracks c s es"
    and len: "cm_offset c + dsize t \<le> length buf" "length body = body_len t"
    and pre: "take (cm_offset c) buf = take (cm_offset c) (cm_buf c)"
    and word: "slice buf (cm_offset c) 4 = to_be_bytes (t XOR cm_ptag c)"
    and body: "slice buf (cm_offset c + 4) (body_len t) = body"
    and step: "\<And>b. be_u32_at b (off_end s) = t XOR sc_ptag s \<Longrightarrow> off_end s + dsize t \<le> length b \<Longrightarrow>
       slice b (off_end s) 4 = to_be_bytes (t XOR cm_ptag c) \<Longrightarrow> slice b (off_end s + 4) (body_len t) = body \<Longrightarrow>
       scan_step b s = Some s'"
    and c': "cm_buf c' = buf" "cm_offset c' = cm_offset c + dsize t" "cm_ptag c' = sc_ptag s'"
      "cm_crc c' = sc_crc s'" and end': "off_end s' = off_end s + dsize t"
  shows "tracks c' s' (es @ [\<lparr>te_tag = t, te_body = body\<rparr>])"
proof -
  let ?o = "cm_offset c"
  have oe: "off_end s = ?o" "sc_ptag s = cm_ptag c" using tr by (simp_all add: tracks_def)
  have "scan_path b (scan_init b) (es @ [\<lparr>te_tag = t, te_body = body\<rparr>]) s'"
    if b: "?o + dsize t \<le> length b" "take (?o + dsize t) b = take (?o + dsize t) buf" for b
  proof -
    have "take ?o b = take ?o buf"
      using arg_cong [OF b(2), of "take ?o"] by (simp add: min_def)
    then have p: "scan_path b (scan_init b) es s" using tr b(1) pre by (auto simp: tracks_def)
    have w: "slice b ?o 4 = to_be_bytes (t XOR cm_ptag c)" "slice b (?o + 4) (body_len t) = body"
      using slice_eq_of_take [OF _ b(2), of ?o 4] slice_eq_of_take [OF _ b(2), of "?o + 4" "body_len t"]
        word body by (simp_all add: dsize_def)
    have be: "be_u32_at b ?o = t XOR cm_ptag c" using w(1) by (rule be_u32_at_to_be_bytes)
    have "(t XOR p) XOR p = t" for p by (simp add: xor.assoc)
    then have "entry_of b s = \<lparr>te_tag = t, te_body = body\<rparr>"
      by (simp add: entry_of_def Let_def oe be w(2))
    with path_snoc [OF p step [of b]] show ?thesis using be b(1) w oe by simp
  qed
  then show ?thesis using tr len c' oe end' by (simp add: tracks_def)
qed

lemma slice_splice_two:
  assumes "o1 + 4 + length ys \<le> length buf" "length xs = 4"
  shows "slice (splice (splice buf o1 xs) (o1 + 4) ys) o1 4 = xs"
    "slice (splice (splice buf o1 xs) (o1 + 4) ys) (o1 + 4) (length ys) = ys"
    "take o1 (splice (splice buf o1 xs) (o1 + 4) ys) = take o1 buf"
    "drop (o1 + 4 + length ys) (splice (splice buf o1 xs) (o1 + 4) ys) = drop (o1 + 4 + length ys) buf"
    "length (splice (splice buf o1 xs) (o1 + 4) ys) = length buf"
  using assms by (simp_all add: slice_splice_before drop_splice_after)

lemma commit_tag_Inr:
  assumes "commit_tag c t body = Inr c'"
  shows "\<not> is_ccrc t" "length body = body_len t" "cm_offset c + dsize t \<le> length (cm_buf c)"
    "c' = \<lparr>cm_buf = splice (splice (cm_buf c) (cm_offset c) (to_be_bytes (t XOR cm_ptag c))) (cm_offset c + 4) body,
       cm_offset = cm_offset c + dsize t, cm_ptag = t,
       cm_crc = crc_update (crc_update (cm_crc c) (to_be_bytes (t XOR cm_ptag c))) body\<rparr>"
  using assms by (auto simp: commit_tag_def Let_def split: if_splits)

text \<open>What an operation may change: nothing before its offset, nothing after its new offset.\<close>

definition staged :: "commit \<Rightarrow> commit \<Rightarrow> bool" where
  "staged c c' \<longleftrightarrow> cm_offset c \<le> cm_offset c' \<and> length (cm_buf c') = length (cm_buf c) \<and>
     take (cm_offset c) (cm_buf c') = take (cm_offset c) (cm_buf c) \<and>
     drop (cm_offset c') (cm_buf c') = drop (cm_offset c') (cm_buf c)"

lemma staged_refl: "staged c c"
  by (simp add: staged_def)

lemma staged_trans: "staged c d \<Longrightarrow> staged d e \<Longrightarrow> staged c e"
proof -
  assume a: "staged c d" "staged d e"
  have "take (cm_offset d) (cm_buf e) = take (cm_offset d) (cm_buf d)" using a by (simp add: staged_def)
  from arg_cong [OF this, of "take (cm_offset c)"]
  have t: "take (cm_offset c) (cm_buf e) = take (cm_offset c) (cm_buf c)"
    using a by (simp add: staged_def min_absorb1)
  have "drop (cm_offset d) (cm_buf d) = drop (cm_offset d) (cm_buf c)" using a by (simp add: staged_def)
  from arg_cong [OF this, of "drop (cm_offset e - cm_offset d)"]
  have "drop (cm_offset e) (cm_buf d) = drop (cm_offset e) (cm_buf c)" using a by (simp add: staged_def)
  then show ?thesis using a t by (simp add: staged_def)
qed

lemma tracks_tag:
  assumes tr: "tracks c s es" and v: "is_valid t" and op: "commit_tag c t body = Inr c'"
  shows "\<exists>s'. tracks c' s' (es @ [\<lparr>te_tag = t, te_body = body\<rparr>]) \<and> sc_end s' = sc_end s \<and>
    sc_pending s' = fcrc_of (cm_buf c') (cm_offset c) t (sc_pending s) \<and> staged c c'"
proof -
  note C = commit_tag_Inr [OF op]
  let ?o = "cm_offset c" and ?raw = "to_be_bytes (t XOR cm_ptag c)"
  have l: "?o + 4 + length body \<le> length (cm_buf c)" using C(2,3) by (simp add: dsize_def)
  note sp = slice_splice_two [OF l length_to_be_bytes [of "t XOR cm_ptag c"]]
  have oe: "off_end s = ?o" "sc_ptag s = cm_ptag c" "sc_crc s = cm_crc c" using tr by (simp_all add: tracks_def)
  define s' where "s' = s\<lparr>sc_ptag := t, sc_off := ?o, sc_crc := cm_crc c',
      sc_pending := fcrc_of (cm_buf c') ?o t (sc_pending s)\<rparr>"
  have fc: "fcrc_of b ?o t p = fcrc_of (cm_buf c') ?o t p"
    if "slice b (?o + 4) (body_len t) = body" "?o + dsize t \<le> length b" for b p
  proof -
    have "slice (cm_buf c') (?o + 4) (body_len t) = body" using sp(2) C(2,4) by simp
    then have bs: "slice b (?o + 4) (body_len t) = slice (cm_buf c') (?o + 4) (body_len t)" using that by simp
    have "le_u32_at b (?o + k) = le_u32_at (cm_buf c') (?o + k)" if "k = 4 \<or> k = 8" "8 \<le> body_len t" for k
    proof -
      have "le_u32_at b (?o + 4 + (k - 4)) = le_u32_at (slice b (?o + 4) (body_len t)) (k - 4)"
        using that \<open>?o + dsize t \<le> length b\<close> by (intro le_u32_at_slice [symmetric]) (auto simp: dsize_def)
      also have "\<dots> = le_u32_at (cm_buf c') (?o + 4 + (k - 4))"
        unfolding bs using that C(2,3,4) sp(5) by (intro le_u32_at_slice) (auto simp: dsize_def)
      finally show ?thesis using that by (auto simp: add.commute)
    qed
    then show ?thesis by (auto simp: fcrc_of_def)
  qed
  have "tracks c' s' (es @ [\<lparr>te_tag = t, te_body = body\<rparr>])"
  proof (rule tracks_step [OF tr, of t "cm_buf c'" body s' c'])
    show "?o + dsize t \<le> length (cm_buf c')" using C(3,4) sp(5) by simp
    show "take ?o (cm_buf c') = take ?o (cm_buf c)" using C(4) sp(3) by simp
    show "slice (cm_buf c') ?o 4 = ?raw" using C(4) sp(1) by simp
    show "slice (cm_buf c') (?o + 4) (body_len t) = body" using C(2,4) sp(2) by simp
    show "off_end s' = off_end s + dsize t" using oe by (simp add: s'_def off_end_def)
    fix b assume b: "be_u32_at b (off_end s) = t XOR sc_ptag s" "off_end s + dsize t \<le> length b"
      "slice b (off_end s) 4 = ?raw" "slice b (off_end s + 4) (body_len t) = body"
    have x: "(t XOR sc_ptag s) XOR sc_ptag s = t" by (simp add: xor.assoc)
    have "\<not> length b < ?o + 4" using b(2) oe(1) by (simp add: dsize_def)
    then show "scan_step b s = Some s'"
      using b C(1) v fc [of b] oe unfolding scan_step_def Let_def off_end_def [symmetric] b(1) x
      by (simp add: s'_def C(4))
  qed (use C in \<open>simp_all add: s'_def\<close>)
  then show ?thesis using sp C(2,4) by (auto simp: s'_def staged_def dsize_def add.assoc)
qed


lemma body_len_Tag_new: "n \<le> 0x3FE \<Longrightarrow> body_len (Tag_new v tt i (of_nat n)) = n"
proof -
  assume n: "n \<le> 0x3FE"
  then have u: "unat (of_nat n :: u16) = n" by (simp add: unat_of_nat)
  have "take_bit 10 (of_nat n :: u16) = of_nat n"
  proof (rule bit_word_eqI)
    fix k show "bit (take_bit 10 (of_nat n :: u16)) k = bit (of_nat n :: u16) k"
      using word_bit_ge_exp [of "of_nat n :: u16" 10 k] n u by (cases "k < 10") (auto simp: bit_take_bit_iff)
  qed
  moreover have "(of_nat n :: u16) \<noteq> 0x3ff"
  proof
    assume "(of_nat n :: u16) = 0x3ff"
    then have "unat (of_nat n :: u16) = 0x3ff" by simp
    then show False using n u by simp
  qed
  ultimately show ?thesis using u by (simp add: body_len_def is_special_length_def LEN_SPECIAL_def)
qed

abbreviation ccrc_of :: "byte \<Rightarrow> nat \<Rightarrow> tag" where
  "ccrc_of chunk blen \<equiv> Tag_new True (CommitCrc chunk) 0x3FF (of_nat blen)"

lemma commit_finish_is_padded: "commit_finish c chunk = commit_ccrc_padded c chunk (cm_offset c + 8)"
  by (simp add: commit_finish_def commit_ccrc_padded_def Let_def add.assoc)

lemma commit_ccrc_padded_Inr:
  assumes "commit_ccrc_padded c chunk fin = Inr c'" and "cm_offset c + 8 \<le> fin"
  defines "t \<equiv> ccrc_of chunk (fin - cm_offset c - 4)"
  shows "fin \<le> length (cm_buf c)" "fin - cm_offset c - 4 \<le> 0x3FE"
    "c' = \<lparr>cm_buf = splice (splice (cm_buf c) (cm_offset c) (to_be_bytes (t XOR cm_ptag c))) (cm_offset c + 4)
         (to_le_bytes (crc_update (cm_crc c) (to_be_bytes (t XOR cm_ptag c)))),
       cm_offset = fin, cm_ptag = t XOR parity chunk, cm_crc = crc_INIT\<rparr>"
  using assms(1,2) unfolding commit_ccrc_padded_def Let_def t_def
  by (auto split: if_splits)

text \<open>The closing CCRC brings the scan to a committed state.\<close>

lemma tracks_ccrc:
  assumes tr: "tracks c s es" and nat: "chunk AND 0x80 = 0"
    and op: "commit_ccrc_padded c chunk fin = Inr c'" and room: "cm_offset c + 8 \<le> fin"
  defines "n \<equiv> fin - cm_offset c - 4"
  shows "\<exists>s' body. tracks c' s' (es @ [\<lparr>te_tag = ccrc_of chunk n, te_body = body\<rparr>]) \<and> at_commit s' \<and>
    cm_offset c' = fin \<and> sc_last s' = sc_pending s \<and> is_ccrc (sc_ptag s') \<and> staged c c' \<and> length body = n"
proof -
  define t where "t = ccrc_of chunk n"
  note C = commit_ccrc_padded_Inr [OF op room, folded n_def, folded t_def]
  let ?o = "cm_offset c" and ?raw = "to_be_bytes (t XOR cm_ptag c)"
  let ?crc = "crc_update (cm_crc c) ?raw"
  have bl: "body_len t = n" using C(2) by (simp add: t_def body_len_Tag_new)
  have ds: "?o + dsize t = fin" using room by (simp add: dsize_def bl n_def)
  have ct: "tag_type t = CommitCrc chunk" "is_valid t" using nat by (simp_all add: t_def)
  have cc: "is_ccrc t" "ccrc_chunk t = Some chunk" using ct by (simp_all add: is_ccrc_def ccrc_chunk_def)
  have l: "?o + 4 + length (to_le_bytes ?crc) \<le> length (cm_buf c)" using C(1) room by simp
  note sp = slice_splice_two [OF l length_to_be_bytes [of "t XOR cm_ptag c"]]
  have oe: "off_end s = ?o" "sc_ptag s = cm_ptag c" "sc_crc s = cm_crc c" using tr by (simp_all add: tracks_def)
  define s' where "s' = \<lparr>sc_ptag = t XOR parity chunk, sc_crc = crc_INIT, sc_off = ?o, sc_end = fin,
      sc_next = t XOR parity chunk, sc_pending = None, sc_last = sc_pending s\<rparr>"
  define body where "body = slice (cm_buf c') (?o + 4) n"
  have len': "length (cm_buf c') = length (cm_buf c)" using C(3) sp(5) by simp
  have b4: "slice (cm_buf c') (?o + 4) 4 = to_le_bytes ?crc" using C(3) sp(2) by simp
  have n4: "4 \<le> n" using room by (simp add: n_def)
  have blen: "length body = n" using C(1) len' room by (simp add: body_def n_def)
  have "tracks c' s' (es @ [\<lparr>te_tag = t, te_body = body\<rparr>])"
  proof (rule tracks_step [OF tr, of t "cm_buf c'" body s' c'])
    show "?o + dsize t \<le> length (cm_buf c')" using C(1) ds len' by simp
    show "length body = body_len t" using blen bl by simp
    show "take ?o (cm_buf c') = take ?o (cm_buf c)" using C(3) sp(3) by simp
    show "slice (cm_buf c') ?o 4 = ?raw" using C(3) sp(1) by simp
    show "slice (cm_buf c') (?o + 4) (body_len t) = body" by (simp add: body_def bl)
    show "off_end s' = off_end s + dsize t" using oe by (simp add: s'_def off_end_def)
    show "cm_offset c' = ?o + dsize t" using C(3) ds by simp
    fix b assume b: "be_u32_at b (off_end s) = t XOR sc_ptag s" "off_end s + dsize t \<le> length b"
      "slice b (off_end s) 4 = ?raw" "slice b (off_end s + 4) (body_len t) = body"
    have x: "(t XOR sc_ptag s) XOR sc_ptag s = t" by (simp add: xor.assoc)
    have g: "\<not> length b < ?o + 4" using b(2) oe(1) by (simp add: dsize_def)
    have "slice b (?o + 4) 4 = slice (slice b (?o + 4) n) 0 4" using n4 by (simp add: slice_slice)
    also have "\<dots> = slice (cm_buf c') (?o + 4) 4" using b(4) n4 by (simp add: oe bl body_def slice_slice)
    finally have st: "le_u32_at b (?o + 4) = ?crc" using b4 by (metis le_u32_at_to_le_bytes)
    show "scan_step b s = Some s'"
      using b g cc ct(2) n4 ds st oe unfolding scan_step_def Let_def off_end_def [symmetric] b(1) x
      by (simp add: s'_def bl)
  qed (use C in \<open>simp_all add: s'_def\<close>)
  moreover have "at_commit s'" using ds by (simp add: at_commit_def s'_def off_end_def)
  moreover have "is_ccrc (sc_ptag s')"
    using cc(1) by (simp add: s'_def is_ccrc_bits bit_simps bit_parity)
  moreover have "staged c c'"
  proof -
    have "drop fin (splice (splice (cm_buf c) ?o ?raw) (?o + 4) (to_le_bytes ?crc)) = drop fin (cm_buf c)"
      using l room by (simp add: drop_splice_after)
    then show ?thesis using C(3) sp(3,5) room by (simp add: staged_def)
  qed
  moreover have "sc_last s' = sc_pending s" "cm_offset c' = fin" using C(3) by (simp_all add: s'_def)
  ultimately show ?thesis using blen unfolding t_def by blast
qed


section \<open>After the last commit\<close>

lemma be_u32_at_erased: "(\<forall>k. i \<le> k \<and> k < length b \<longrightarrow> b ! k = 0xFF) \<Longrightarrow> i + 4 \<le> length b \<Longrightarrow> be_u32_at b i = 0xFFFFFFFF"
proof -
  assume a: "\<forall>k. i \<le> k \<and> k < length b \<longrightarrow> b ! k = 0xFF" and l: "i + 4 \<le> length b"
  have "b ! i = 0xFF" "b ! (i + 1) = 0xFF" "b ! (i + 2) = 0xFF" "b ! (i + 3) = 0xFF" using a l by simp_all
  then have "be_u32_at b i = be_u32_at [0xFF, 0xFF, 0xFF, 0xFF] 0" by (simp add: be_u32_at_def numeral_3_eq_3)
  also have "\<dots> = 0xFFFFFFFF" by code_simp
  finally show ?thesis .
qed

lemma xor_all_ones_bit: "n < 32 \<Longrightarrow> bit (0xFFFFFFFF XOR x) n \<longleftrightarrow> \<not> bit x n" for x :: u32
proof -
  have "(0xFFFFFFFF :: u32) = mask 32" by (simp add: mask_eq_exp_minus_1)
  then show "n < 32 \<Longrightarrow> ?thesis" by (simp only: bit_simps) (simp add: bit_mask_iff possible_bit_def)
qed

text \<open>Erased flash behind a commit holds no further commit: the first erased word decodes to the
  complement of the XOR base, which is never a CCRC, and the one after it back to the base itself,
  whose valid bit is then set.\<close>

lemma scan_loop_erased:
  assumes "is_ccrc (sc_ptag s)" and ff: "\<forall>k. off_end s \<le> k \<and> k < length b \<longrightarrow> b ! k = 0xFF"
  shows "sc_end (scan_loop b s) = sc_end s \<and> sc_next (scan_loop b s) = sc_next s \<and> sc_last (scan_loop b s) = sc_last s"
proof (cases "scan_step b s")
  case None
  then show ?thesis by (simp add: scan_loop.simps [of b s])
next
  case (Some s1)
  define t where "t = te_tag (entry_of b s)"
  note S = scan_step_Some [OF Some, folded t_def]
  have r: "off_end s + 4 \<le> length b" using S(4) by (simp add: dsize_def)
  have t: "t = 0xFFFFFFFF XOR sc_ptag s"
    using be_u32_at_erased [OF ff r] by (simp add: t_def entry_of_def Let_def)
  have nc: "\<not> is_ccrc t" using assms(1) unfolding is_ccrc_bits t by (simp add: xor_all_ones_bit)
  then have p1: "sc_ptag s1 = t" using S(2) by (simp add: ccrc_chunk_def is_ccrc_def split: tag_type.splits)
  have "scan_step b s1 = None"
  proof (cases "off_end s1 + 4 \<le> length b")
    case True
    have "\<forall>k. off_end s1 \<le> k \<and> k < length b \<longrightarrow> b ! k = 0xFF" using ff S(5) by auto
    from be_u32_at_erased [OF this True] have "be_u32_at b (off_end s1) XOR sc_ptag s1 = 0xFFFFFFFF XOR t"
      by (simp add: p1)
    moreover have "\<not> is_valid (0xFFFFFFFF XOR t)" using S(3) by (simp add: is_valid_bit xor_all_ones_bit)
    ultimately show ?thesis by (simp add: scan_step_def Let_def flip: off_end_def)
  qed (simp add: scan_step_def Let_def flip: off_end_def)
  then show ?thesis using Some S(8) nc by (simp add: scan_loop.simps [of b s] scan_loop.simps [of b s1])
qed



section \<open>Reading back\<close>

abbreviation valid_entries :: "tag_entry list \<Rightarrow> bool" where
  "valid_entries es \<equiv> list_all (\<lambda>e. is_valid (te_tag e)) es"

abbreviation crc_entries :: "tag_entry list \<Rightarrow> bool" where
  "crc_entries es \<equiv> list_all (\<lambda>e. is_ccrc (te_tag e) \<or> tag_type (te_tag e) = ForwardCrc) es"

abbreviation erased_from :: "byte list \<Rightarrow> nat \<Rightarrow> bool" where
  "erased_from b p \<equiv> drop p b = replicate (length b - p) 0xFF"

lemma tracks_tags:
  "tracks c s es \<Longrightarrow> valid_entries fs \<Longrightarrow> commit_tags c fs = Inr c' \<Longrightarrow>
   \<exists>s'. tracks c' s' (es @ fs) \<and> staged c c'"
proof (induction fs arbitrary: c s es)
  case (Cons e fs)
  then obtain d where d: "commit_tag c (te_tag e) (te_body e) = Inr d" "commit_tags d fs = Inr c'" by auto
  obtain s1 where s1: "tracks d s1 (es @ [e])" "staged c d"
    using tracks_tag [OF Cons.prems(1) _ d(1)] Cons.prems(2) by (cases e) auto
  obtain s' where "tracks c' s' ((es @ [e]) @ fs)" "staged d c'"
    using Cons.IH [OF s1(1) _ d(2)] Cons.prems(2) by auto
  then show ?case using s1(2) staged_trans by auto
qed (auto simp: staged_refl)

lemma fcrc_tag_facts: "is_valid fcrc_tag" "\<not> is_ccrc fcrc_tag" "tag_type fcrc_tag = ForwardCrc" "body_len fcrc_tag = 8"
  using body_len_Tag_new [of 8] by (simp_all add: fcrc_tag_def is_ccrc_def)

lemma fcrc_erased_window: "fcrc_erased p = crc_update crc_INIT (replicate p 0xFF)"
proof -
  have "((\<lambda>crc. crc_update crc [0xFF]) ^^ p) x = crc_update x (replicate p 0xFF)" for x
    by (induction p arbitrary: x) (simp_all add: funpow_swap1 del: funpow.simps(2) add: funpow_Suc_right)
  then show ?thesis by (simp add: fcrc_erased_def)
qed

lemma fcrc_body_words:
  "length (fcrc_body p) = 8" "le_u32_at (fcrc_body p) 0 = of_nat p" "le_u32_at (fcrc_body p) 4 = fcrc_erased p"
  by (simp_all add: fcrc_body_def slice_splice_before)

lemma div_ceil_ge: "0 < d \<Longrightarrow> n \<le> div_ceil n d * d"
proof -
  assume d: "0 < d"
  have "n + d - 1 < (n + d - 1) div d * d + d" using d by (simp add: dividend_less_div_times add.commute)
  then show ?thesis by (simp add: div_ceil_def)
qed

text \<open>Both forms of \<open>finish\<close> close the commit with a CCRC, preceded by at most an FCRC tag.\<close>

lemma tracks_finish_padded:
  assumes tr: "tracks c s es" and nat: "chunk AND 0x80 = 0"
    and op: "commit_finish_padded c chunk p bs = Inr c'"
  shows "\<exists>s' fs. tracks c' s' (es @ fs) \<and> crc_entries fs \<and> at_commit s' \<and> is_ccrc (sc_ptag s') \<and>
    staged c c' \<and> p dvd (if p = 0 then 0 else cm_offset c') \<and>
    (0 < p \<and> p < 2 ^ 32 \<and> cm_offset c' \<ge> cm_offset c + 20 \<and> cm_offset c' + p \<le> bs \<longrightarrow>
       sc_last s' = Some (p, fcrc_erased p))"
proof -
  have ccrc: "is_ccrc (ccrc_of chunk n)" for n using nat by (simp add: is_ccrc_def)
  show ?thesis
  proof (cases "p = 0")
    case True
    then have "commit_ccrc_padded c chunk (cm_offset c + 8) = Inr c'"
      using op by (simp add: commit_finish_padded_def commit_finish_is_padded)
    from tracks_ccrc [OF tr nat this] obtain s' body where
      "tracks c' s' (es @ [\<lparr>te_tag = ccrc_of chunk (cm_offset c + 8 - cm_offset c - 4), te_body = body\<rparr>])"
      "at_commit s'" "is_ccrc (sc_ptag s')" "staged c c'" by auto
    then show ?thesis using True ccrc [of 4]
      by (intro exI [of _ s'] exI [of _ "[\<lparr>te_tag = ccrc_of chunk 4, te_body = body\<rparr>]"]) auto
  next
    case False
    define fin where "fin = div_ceil (min (cm_offset c + 20) bs) p * p"
    define emit where "emit \<longleftrightarrow> cm_offset c + 20 \<le> fin \<and> fin + p \<le> bs"
    have op': "rbind (if emit then commit_tag c fcrc_tag (fcrc_body p) else Inr c)
        (\<lambda>d. commit_ccrc_padded d chunk fin) = Inr c'" "cm_offset c + 8 \<le> fin" "fin \<le> bs"
      using op False unfolding commit_finish_padded_def Let_def fin_def [symmetric] emit_def [symmetric]
      by (auto split: if_splits)
    show ?thesis
    proof (cases emit)
      case True
      then obtain d where d: "commit_tag c fcrc_tag (fcrc_body p) = Inr d" "commit_ccrc_padded d chunk fin = Inr c'"
        using op'(1) by auto
      note D = commit_tag_Inr [OF d(1)]
      obtain s1 where s1: "tracks d s1 (es @ [\<lparr>te_tag = fcrc_tag, te_body = fcrc_body p\<rparr>])"
        "sc_pending s1 = fcrc_of (cm_buf d) (cm_offset c) fcrc_tag (sc_pending s)" "staged c d"
        using tracks_tag [OF tr fcrc_tag_facts(1) d(1)] by auto
      have off: "cm_offset d = cm_offset c + 12" using D(4) by (simp add: dsize_def fcrc_tag_facts)
      have rm: "cm_offset d + 8 \<le> fin" using True off by (simp add: emit_def)
      obtain s' body where s': "tracks c' s' ((es @ [\<lparr>te_tag = fcrc_tag, te_body = fcrc_body p\<rparr>]) @
           [\<lparr>te_tag = ccrc_of chunk (fin - cm_offset d - 4), te_body = body\<rparr>])"
        "at_commit s'" "is_ccrc (sc_ptag s')" "staged d c'" "cm_offset c' = fin" "sc_last s' = sc_pending s1"
        using tracks_ccrc [OF s1(1) nat d(2) rm] by auto
      have l: "cm_offset c + 4 + 8 \<le> length (cm_buf c)" using D(3) by (simp add: dsize_def fcrc_tag_facts)
      have body: "slice (cm_buf d) (cm_offset c + 4) 8 = fcrc_body p"
        using slice_splice_two(2) [of "cm_offset c" "fcrc_body p" "cm_buf c" "to_be_bytes (fcrc_tag XOR cm_ptag c)"] l
        by (simp add: D(4) fcrc_body_words)
      have len: "length (cm_buf d) = length (cm_buf c)" using s1(3) by (simp add: staged_def)
      have "le_u32_at (cm_buf d) (cm_offset c + 4) = of_nat p" "le_u32_at (cm_buf d) (cm_offset c + 8) = fcrc_erased p"
        using le_u32_at_slice [of 0 8 "cm_offset c + 4" "cm_buf d"] le_u32_at_slice [of 4 8 "cm_offset c + 4" "cm_buf d"]
          l len body fcrc_body_words [of p] by (simp_all add: add.assoc)
      then have pend: "p < 2 ^ 32 \<Longrightarrow> sc_pending s1 = Some (p, fcrc_erased p)"
        using s1(2) by (simp add: fcrc_of_def fcrc_tag_facts unat_small_of_nat)
      show ?thesis
        using s' pend ccrc fcrc_tag_facts(3) staged_trans [OF s1(3) s'(4)] False
        by (intro exI [of _ s'] exI [of _ "[\<lparr>te_tag = fcrc_tag, te_body = fcrc_body p\<rparr>,
            \<lparr>te_tag = ccrc_of chunk (fin - cm_offset d - 4), te_body = body\<rparr>]"]) (auto simp: fin_def)
    next
      case no: False
      then have "commit_ccrc_padded c chunk fin = Inr c'" using op'(1) by simp
      from tracks_ccrc [OF tr nat this op'(2)] obtain s' body where s':
        "tracks c' s' (es @ [\<lparr>te_tag = ccrc_of chunk (fin - cm_offset c - 4), te_body = body\<rparr>])"
        "at_commit s'" "is_ccrc (sc_ptag s')" "staged c c'" "cm_offset c' = fin" by auto
      show ?thesis using s' ccrc False no
        by (intro exI [of _ s'] exI [of _ "[\<lparr>te_tag = ccrc_of chunk (fin - cm_offset c - 4), te_body = body\<rparr>]"])
           (auto simp: fin_def emit_def)
    qed
  qed
qed

lemma reader_of_commit:
  assumes tr: "tracks c s es" and at: "at_commit s" and b: "cm_offset c \<le> length b"
    "take (cm_offset c) b = take (cm_offset c) (cm_buf c)"
    and last: "sc_end (scan_loop b s) = sc_end s" "sc_next (scan_loop b s) = sc_next s" "sc_last (scan_loop b s) = sc_last s"
  shows "\<exists>r. reader_new b = Inr r \<and> iter_tags r = es \<and> committed_end r = cm_offset c \<and>
    next_ptag r = cm_ptag c \<and> revision r = le_u32_at (cm_buf c) 0 \<and>
    rd_erased r = window_erased b (cm_offset c) (sc_last s)"
proof -
  have t: "off_end s = cm_offset c" "sc_ptag s = cm_ptag c" "4 \<le> cm_offset c" "cm_offset c \<le> length (cm_buf c)"
    and p: "scan_path b (scan_init b) es s" using tr b by (auto simp: tracks_def)
  have e: "sc_end s = cm_offset c" "sc_next s = cm_ptag c" using at t by (auto simp: at_commit_def)
  have rev: "le_u32_at b 0 = le_u32_at (cm_buf c) 0"
    using le_u32_at_cong [of b 0 "cm_buf c"] slice_eq_of_take [OF _ b(2), of 0 4] t b(1) by simp
  have "tags_from \<lparr>ti_block = b, ti_offset = 0, ti_end = cm_offset c, ti_ptag = 0xFFFFFFFF\<rparr> = es"
    using tags_from_path [OF p, of "cm_offset c"] t(1)
      tags_from_end [of "cm_offset c" "sc_off s" "sc_ptag s" b, folded off_end_def] by (simp add: scan_init_def)
  then show ?thesis using t b(1) e rev last scan_path_loop [OF p]
    by (auto simp: reader_new_def Let_def iter_tags_def reader_iter_def split: prod.splits)
qed

lemma reader_of_commit_erased:
  assumes "tracks c s es" "at_commit s" "is_ccrc (sc_ptag s)" "erased_from (cm_buf c) (cm_offset c)"
  shows "\<exists>r. reader_new (cm_buf c) = Inr r \<and> iter_tags r = es \<and> committed_end r = cm_offset c \<and>
    next_ptag r = cm_ptag c \<and> revision r = le_u32_at (cm_buf c) 0 \<and>
    rd_erased r = window_erased (cm_buf c) (cm_offset c) (sc_last s)"
proof -
  have oe: "off_end s = cm_offset c" "cm_offset c \<le> length (cm_buf c)" using assms(1) by (simp_all add: tracks_def)
  have ff: "\<forall>k. off_end s \<le> k \<and> k < length (cm_buf c) \<longrightarrow> cm_buf c ! k = 0xFF"
  proof (intro allI impI, elim conjE)
    fix k assume k: "off_end s \<le> k" "k < length (cm_buf c)"
    then have "cm_buf c ! k = drop (cm_offset c) (cm_buf c) ! (k - cm_offset c)" using oe by simp
    then show "cm_buf c ! k = 0xFF" using assms(4) k oe by simp
  qed
  show ?thesis
    using reader_of_commit [OF assms(1,2), of "cm_buf c"] scan_loop_erased [OF assms(3) ff] oe by simp
qed


lemma erased_from_staged: "staged c c' \<Longrightarrow> erased_from (cm_buf c) (cm_offset c) \<Longrightarrow> erased_from (cm_buf c') (cm_offset c')"
proof -
  assume s: "staged c c'" and e: "erased_from (cm_buf c) (cm_offset c)"
  have "drop (cm_offset c') (cm_buf c') = drop (cm_offset c' - cm_offset c) (drop (cm_offset c) (cm_buf c))"
    using s by (simp add: staged_def)
  then show ?thesis using s e by (simp add: staged_def)
qed

lemma tracks_appending:
  assumes r: "reader_new buf = Inr r" "has_commits r"
    and op: "commit_new_appending buf (committed_end r) (next_ptag r) = Inr c"
  shows "\<exists>s. tracks c s (iter_tags r) \<and> cm_buf c = buf \<and> cm_offset c = committed_end r"
proof -
  obtain es s where p: "scan_path buf (scan_init buf) es s" "iter_tags r = es" "next_ptag r = sc_next s"
    "s = scan_init buf \<and> es = [] \<and> committed_end r = 0 \<or> at_commit s \<and> committed_end r = off_end s"
    "committed_end r \<le> length buf" "4 \<le> length buf"
    by (rule reader_new_path [OF r(1)]) blast
  have at: "at_commit s" "committed_end r = off_end s" using p(4) r(2) by (auto simp: has_commits_def)
  have c: "c = \<lparr>cm_buf = buf, cm_offset = committed_end r, cm_ptag = next_ptag r, cm_crc = crc_INIT\<rparr>"
    using op by (auto simp: commit_new_appending_def split: if_splits)
  have o4: "4 \<le> off_end s" using scan_path_mono [OF p(1)] scan_init_ok(2) [of buf] by simp
  have "scan_path b (scan_init b) es s"
    if b: "off_end s \<le> length b" "take (off_end s) b = take (off_end s) buf" for b
  proof -
    have "scan_init b = scan_init buf"
      using slice_eq_of_take [OF _ b(2), of 0 4] o4 by (simp add: scan_init_def)
    then show ?thesis using scan_path_prefix [OF p(1) order_refl b(2) [symmetric] b(1)] at p(5) by simp
  qed
  then have "tracks c s es"
    using c at p(3,5) o4 by (simp add: tracks_def at_commit_def)
  then show ?thesis using p(2) c by auto
qed


text \<open>When the builder accepts: the error branches are exactly the guards.\<close>

lemma commit_tag_ok:
  assumes "\<not> is_ccrc t" "length body = body_len t" "cm_offset c + dsize t \<le> length (cm_buf c)"
  shows "\<exists>c'. commit_tag c t body = Inr c' \<and> cm_offset c' = cm_offset c + dsize t \<and>
    length (cm_buf c') = length (cm_buf c)"
  using assms slice_splice_two(5) [of "cm_offset c" body "cm_buf c" "to_be_bytes (t XOR cm_ptag c)"]
  by (auto simp: commit_tag_def Let_def dsize_def)

lemma commit_ccrc_padded_ok:
  assumes "cm_offset c + 8 \<le> fin" "fin - cm_offset c - 4 \<le> 0x3FE" "fin \<le> length (cm_buf c)"
  shows "\<exists>c'. commit_ccrc_padded c chunk fin = Inr c' \<and> cm_offset c' = fin \<and> length (cm_buf c') = length (cm_buf c)"
  using assms by (auto simp: commit_ccrc_padded_def Let_def)

lemma commit_finish_padded_ok:
  assumes "fin = div_ceil (min (cm_offset c + 20) bs) p * p" "0 < p" "fin \<le> bs" "cm_offset c + 8 \<le> fin"
    "fin - cm_offset c - 4 \<le> 0x3FE" "bs \<le> length (cm_buf c)"
  shows "\<exists>c'. commit_finish_padded c chunk p bs = Inr c' \<and> cm_offset c' = fin \<and> length (cm_buf c') = length (cm_buf c)"
proof (cases "cm_offset c + 20 \<le> fin \<and> fin + p \<le> bs")
  case True
  have "\<exists>d. commit_tag c fcrc_tag (fcrc_body p) = Inr d \<and> cm_offset d = cm_offset c + 12 \<and>
      length (cm_buf d) = length (cm_buf c)"
    using commit_tag_ok [of fcrc_tag "fcrc_body p" c] fcrc_tag_facts fcrc_body_words(1) [of p] True assms(6)
    by (simp add: dsize_def)
  then obtain d where d: "commit_tag c fcrc_tag (fcrc_body p) = Inr d" "cm_offset d = cm_offset c + 12"
      "length (cm_buf d) = length (cm_buf c)" by blast
  have "\<exists>c'. commit_ccrc_padded d chunk fin = Inr c' \<and> cm_offset c' = fin \<and> length (cm_buf c') = length (cm_buf d)"
    using d True assms by (intro commit_ccrc_padded_ok) auto
  then show ?thesis using d True assms by (auto simp: commit_finish_padded_def Let_def)
next
  case False
  have "\<exists>c'. commit_ccrc_padded c chunk fin = Inr c' \<and> cm_offset c' = fin \<and> length (cm_buf c') = length (cm_buf c)"
    using assms by (intro commit_ccrc_padded_ok) auto
  then show ?thesis using False assms by (auto simp: commit_finish_padded_def Let_def)
qed


lemma fresh_commit_reader:
  assumes "commit_new (replicate n 0xFF) rv = Inr c0" and "commit_tags c0 es = Inr c1"
    and "commit_finish_padded c1 chunk p bs = Inr c2"
    and "valid_entries es" and "chunk AND 0x80 = 0"
  shows "\<exists>r fs. reader_new (cm_buf c2) = Inr r \<and> revision r = rv \<and> iter_tags r = es @ fs \<and>
    crc_entries fs \<and> committed_end r = cm_offset c2 \<and> next_ptag r = cm_ptag c2"
proof -
  note new = tracks_new [OF assms(1)]
  have c0: "cm_offset c0 = 4" "8 \<le> n" using assms(1) by (auto simp: commit_new_def Let_def split: if_splits)
  obtain s1 where s1: "tracks c1 s1 es" "staged c0 c1"
    using tracks_tags [OF _ assms(4,2)] new by fastforce
  obtain s2 fs where s2: "tracks c2 s2 (es @ fs)" "crc_entries fs" "at_commit s2" "is_ccrc (sc_ptag s2)" "staged c1 c2"
    using tracks_finish_padded [OF s1(1) assms(5,3)] by blast
  have st: "staged c0 c2" using staged_trans [OF s1(2) s2(5)] .
  have e: "erased_from (cm_buf c2) (cm_offset c2)"
    by (rule erased_from_staged [OF st]) (use new c0 in simp)
  have "take 4 (cm_buf c2) = to_le_bytes rv" using st new c0 by (simp add: staged_def)
  then have "le_u32_at (cm_buf c2) 0 = rv" by (intro le_u32_at_to_le_bytes) (simp add: slice_def)
  then show ?thesis using reader_of_commit_erased [OF s2(1,3,4) e] s2(2) by auto
qed

lemma fresh_commit_erased:
  assumes "commit_new (replicate n 0xFF) rv = Inr c0" and "commit_tags c0 es = Inr c1"
    and "commit_finish_padded c1 chunk p bs = Inr c2"
    and "valid_entries es" and "chunk AND 0x80 = 0"
  shows "erased_from (cm_buf c2) (cm_offset c2)"
proof -
  note new = tracks_new [OF assms(1)]
  have c0: "cm_offset c0 = 4" "8 \<le> n" using assms(1) by (auto simp: commit_new_def Let_def split: if_splits)
  obtain s1 where s1: "tracks c1 s1 es" "staged c0 c1" using tracks_tags [OF _ assms(4,2)] new by fastforce
  obtain s2 fs where s2: "staged c1 c2" using tracks_finish_padded [OF s1(1) assms(5,3)] by blast
  show ?thesis by (rule erased_from_staged [OF staged_trans [OF s1(2) s2]]) (use new c0 in simp)
qed

lemma append_commit_reader:
  assumes "reader_new buf = Inr r0" and "has_commits r0" and "erased_from buf (committed_end r0)"
    and "commit_new_appending buf (committed_end r0) (next_ptag r0) = Inr c0"
    and "commit_tags c0 es = Inr c1" and "commit_finish_padded c1 chunk p bs = Inr c2"
    and "valid_entries es" and "chunk AND 0x80 = 0"
  shows "\<exists>r fs. reader_new (cm_buf c2) = Inr r \<and> revision r = revision r0 \<and>
    iter_tags r = iter_tags r0 @ es @ fs \<and> crc_entries fs \<and> committed_end r = cm_offset c2 \<and>
    next_ptag r = cm_ptag c2"
proof -
  obtain s0 where s0: "tracks c0 s0 (iter_tags r0)" "cm_buf c0 = buf" "cm_offset c0 = committed_end r0"
    using tracks_appending [OF assms(1,2,4)] by blast
  obtain s1 where s1: "tracks c1 s1 (iter_tags r0 @ es)" "staged c0 c1"
    using tracks_tags [OF s0(1) assms(7,5)] by blast
  obtain s2 fs where s2: "tracks c2 s2 ((iter_tags r0 @ es) @ fs)" "crc_entries fs" "at_commit s2"
      "is_ccrc (sc_ptag s2)" "staged c1 c2"
    using tracks_finish_padded [OF s1(1) assms(8,6)] by blast
  have st: "staged c0 c2" using staged_trans [OF s1(2) s2(5)] .
  have e: "erased_from (cm_buf c2) (cm_offset c2)"
    by (rule erased_from_staged [OF st]) (use s0 assms(3) in simp)
  obtain r where r: "reader_new (cm_buf c2) = Inr r" "iter_tags r = (iter_tags r0 @ es) @ fs"
      "committed_end r = cm_offset c2" "next_ptag r = cm_ptag c2"
    using reader_of_commit_erased [OF s2(1,3,4) e] by blast
  have ag: "take (committed_end r0) buf = take (committed_end r0) (cm_buf c2)" "4 \<le> length (cm_buf c2)"
      "committed_end r0 \<le> length (cm_buf c2)"
    using st s0 s2(1) by (auto simp: staged_def tracks_def)
  have "revision r = revision r0"
    by (rule reader_new_prefix [OF assms(1) ag]) (use assms(2) r(1) in auto)
  then show ?thesis using r s2(2) by auto
qed


section \<open>Properties\<close>

text \<open>C24. A commit staged onto an erased block reads back: the reader of the staged bytes reports the
  revision, exactly the staged entries in order followed only by the forward and commit CRC tags
  that close the commit, and the builder's own offset and XOR base as the place to append. Both
  forms of closing are covered (\<open>p = 0\<close> is the plain \<open>finish\<close>).\<close>

theorem commit_reads_back:
  assumes "commit_new (replicate n 0xFF) rv = Inr c0" and "commit_tags c0 es = Inr c1"
    and "commit_finish_padded c1 chunk p bs = Inr c2"
    and "valid_entries es" and "chunk AND 0x80 = 0"
  shows "\<exists>r fs. reader_new (cm_buf c2) = Inr r \<and> revision r = rv \<and> iter_tags r = es @ fs \<and>
    crc_entries fs \<and> committed_end r = cm_offset c2 \<and> next_ptag r = cm_ptag c2"
  using assms by (rule fresh_commit_reader)

abbreviation sample_entry :: tag_entry where
  "sample_entry \<equiv> \<lparr>te_tag = Tag_new True InlineStruct 3 2, te_body = [10, 20]\<rparr>"

theorem commit_reads_back_witness:
  "\<exists>c0 c1 c2 r fs. commit_new (replicate 64 0xFF) 7 = Inr c0 \<and> commit_tags c0 [sample_entry] = Inr c1 \<and>
     commit_finish_padded c1 0 16 64 = Inr c2 \<and> reader_new (cm_buf c2) = Inr r \<and> revision r = 7 \<and>
     iter_tags r = sample_entry # fs \<and> committed_end r = 32"
proof -
  obtain c0 where c0: "commit_new (replicate 64 0xFF) 7 = Inr c0" "cm_offset c0 = 4" "length (cm_buf c0) = 64"
    by (simp add: commit_new_def Let_def)
  obtain c1 where c1: "commit_tags c0 [sample_entry] = Inr c1" "cm_offset c1 = 10" "length (cm_buf c1) = 64"
    using commit_tag_ok [of "Tag_new True InlineStruct 3 2" "[10, 20]" c0] c0 body_len_Tag_new [of 2]
    by (auto simp: dsize_def is_ccrc_def)
  obtain c2 where c2: "commit_finish_padded c1 0 16 64 = Inr c2" "cm_offset c2 = 32"
    using commit_finish_padded_ok [of 32 c1 64 16] c1 by (auto simp: div_ceil_def)
  note c = c0(1) c1(1) c2
  show ?thesis using commit_reads_back [OF c(1-3)] c by fastforce
qed

text \<open>C20. Appending continues a log: a commit staged at the committed end, with the XOR base the reader
  reports, onto a block that is erased from there on, reads back as the old entries followed by the
  new ones, under the same revision.\<close>

theorem append_reads_back:
  assumes "reader_new buf = Inr r0" and "has_commits r0" and "erased_from buf (committed_end r0)"
    and "commit_new_appending buf (committed_end r0) (next_ptag r0) = Inr c0"
    and "commit_tags c0 es = Inr c1" and "commit_finish_padded c1 chunk p bs = Inr c2"
    and "valid_entries es" and "chunk AND 0x80 = 0"
  shows "\<exists>r fs. reader_new (cm_buf c2) = Inr r \<and> revision r = revision r0 \<and>
    iter_tags r = iter_tags r0 @ es @ fs \<and> crc_entries fs \<and> committed_end r = cm_offset c2 \<and>
    next_ptag r = cm_ptag c2"
  by (rule append_commit_reader [OF assms])

theorem append_reads_back_witness:
  "\<exists>r0 c0 c1 c2 r fs. reader_new tiny_block = Inr r0 \<and>
     commit_new_appending tiny_block (committed_end r0) (next_ptag r0) = Inr c0 \<and>
     commit_tags c0 [] = Inr c1 \<and> commit_finish_padded c1 0 0 24 = Inr c2 \<and>
     reader_new (cm_buf c2) = Inr r \<and> iter_tags r = iter_tags r0 @ fs \<and> committed_end r = 20"
proof -
  have "case reader_new tiny_block of Inl _ \<Rightarrow> False
    | Inr r0 \<Rightarrow> has_commits r0 \<and> erased_from tiny_block (committed_end r0) \<and>
        (case rbind (commit_new_appending tiny_block (committed_end r0) (next_ptag r0))
           (\<lambda>c0. rbind (commit_tags c0 []) (\<lambda>c1. commit_finish_padded c1 0 0 24)) of
           Inl _ \<Rightarrow> False | Inr c2 \<Rightarrow> cm_offset c2 = 20)" by code_simp
  then obtain r0 c0 c1 c2 where c: "reader_new tiny_block = Inr r0" "has_commits r0"
      "erased_from tiny_block (committed_end r0)"
      "commit_new_appending tiny_block (committed_end r0) (next_ptag r0) = Inr c0" "commit_tags c0 [] = Inr c1"
      "commit_finish_padded c1 0 0 24 = Inr c2" "cm_offset c2 = 20"
    by (auto split: sum.splits)
  show ?thesis using append_reads_back [OF c(1-6)] c by fastforce
qed

text \<open>C25. The forward CRC guards appends: after a padded commit that carries one, the reader reports
  the following program window as erased, and reports it as dirty as soon as the window differs from
  the erased state within up to four adjacent bytes, while the commit itself stays the last one.\<close>

theorem fcrc_guards_append:
  assumes "commit_new (replicate n 0xFF) rv = Inr c0" and "commit_tags c0 es = Inr c1"
    and "commit_finish_padded c1 chunk p bs = Inr c2" and "valid_entries es" and "chunk AND 0x80 = 0"
    and "0 < p" and "p < 2 ^ 32" and "cm_offset c1 + 20 \<le> cm_offset c2" and "cm_offset c2 + p \<le> bs" and "bs \<le> n"
    and torn: "length b = n" "take (cm_offset c2) b = take (cm_offset c2) (cm_buf c2)"
      "slice b (cm_offset c2) p = x @ u @ y" "replicate p 0xFF = x @ v @ y"
      "length u = length v" "length u \<le> 4" "u \<noteq> v"
  shows "(\<exists>r. reader_new (cm_buf c2) = Inr r \<and> rd_erased r) \<and> p dvd cm_offset c2 \<and>
    (\<exists>rt. reader_new b = Inr rt \<and> (committed_end rt = cm_offset c2 \<longrightarrow> \<not> rd_erased rt))"
proof -
  obtain rt where rb: "reader_new b = Inr rt" using reader_new_ok [of b] torn(1) assms(1)
    by (auto simp: commit_new_def split: if_splits)
  note new = tracks_new [OF assms(1)]
  have c0: "cm_offset c0 = 4" "8 \<le> n" using assms(1) by (auto simp: commit_new_def Let_def split: if_splits)
  obtain s1 where s1: "tracks c1 s1 es" "staged c0 c1" using tracks_tags [OF _ assms(4,2)] new by fastforce
  obtain s2 fs where s2: "tracks c2 s2 (es @ fs)" "at_commit s2" "is_ccrc (sc_ptag s2)" "staged c1 c2"
      "sc_last s2 = Some (p, fcrc_erased p)" "p dvd cm_offset c2"
    using tracks_finish_padded [OF s1(1) assms(5,3)] assms(6-9) by auto
  have st: "staged c0 c2" using staged_trans [OF s1(2) s2(4)] .
  have e: "erased_from (cm_buf c2) (cm_offset c2)"
    by (rule erased_from_staged [OF st]) (use new c0 in simp)
  have len: "length (cm_buf c2) = n" using st new by (simp add: staged_def)
  have "slice (cm_buf c2) (cm_offset c2) p = replicate p 0xFF"
    unfolding slice_def e using assms(9,10) len by simp
  then have er: "window_erased (cm_buf c2) (cm_offset c2) (sc_last s2)"
    using s2(5) assms(9,10) len by (simp add: window_erased_def fcrc_erased_window)
  have path: "scan_path b (scan_init b) (es @ fs) s2"
    using s2(1) torn(1,2) len by (auto simp: tracks_def)
  obtain gs d where d: "scan_path b s2 gs d" "d = s2 \<or> at_commit d" "sc_end (scan_loop b s2) = sc_end d"
      "sc_last (scan_loop b s2) = sc_last d" using scan_loop_last_commit [of b s2] by blast
  have ce: "committed_end rt = sc_end d" "rd_erased rt = window_erased b (sc_end d) (sc_last d)"
    using rb(1) scan_path_loop [OF path] d(3,4) by (auto simp: reader_new_def Let_def split: if_splits prod.splits)
  have "d = s2" if rb2: "committed_end rt = cm_offset c2"
  proof (rule ccontr)
    assume "d \<noteq> s2"
    then have "gs \<noteq> []" "at_commit d" using d(1,2) by (auto elim: scan_path_NilE)
    then have "off_end s2 < off_end d" using scan_path_entries(1) [OF d(1)] by (cases gs) (auto intro: add_pos_nonneg)
    then show False using ce(1) rb2 \<open>at_commit d\<close> s2(1) by (simp add: at_commit_def tracks_def)
  qed
  moreover have "crc_update crc_INIT (x @ u @ y) \<noteq> crc_update crc_INIT (x @ v @ y)"
    using crc_update_burst [OF torn(5,6,7)] .
  ultimately have "committed_end rt = cm_offset c2 \<longrightarrow> \<not> rd_erased rt"
    using ce torn(3,4) s2(5) by (auto simp: window_erased_def fcrc_erased_window simp del: crc_update_append)
  then show ?thesis using reader_of_commit_erased [OF s2(1-3) e] er s2(6) rb by auto
qed

theorem fcrc_guards_append_witness:
  "\<exists>c0 c2 rt. commit_new (replicate 64 0xFF) 7 = Inr c0 \<and> commit_finish_padded c0 0 16 64 = Inr c2 \<and>
     cm_offset c2 = 32 \<and> (\<exists>r. reader_new (cm_buf c2) = Inr r \<and> rd_erased r) \<and>
     reader_new (take 32 (cm_buf c2) @ [0] @ replicate 31 0xFF) = Inr rt \<and>
     (committed_end rt = 32 \<longrightarrow> \<not> rd_erased rt)"
proof -
  obtain c0 where c0: "commit_new (replicate 64 0xFF) 7 = Inr c0" "cm_offset c0 = 4" "length (cm_buf c0) = 64"
    by (simp add: commit_new_def Let_def)
  obtain c2 where c2: "commit_finish_padded c0 0 16 64 = Inr c2" "cm_offset c2 = 32" "length (cm_buf c2) = 64"
    using commit_finish_padded_ok [of 32 c0 64 16] c0 by (auto simp: div_ceil_def)
  let ?b = "take 32 (cm_buf c2) @ [0] @ replicate 31 (0xFF :: byte)"
  have rep: "replicate 31 x = replicate 15 x @ replicate 16 x" "replicate 16 x = x # replicate 15 x" for x :: byte
    by (simp_all add: numeral_eq_Suc)
  have win: "slice ?b 32 16 = [] @ [0] @ replicate 15 0xFF" using c2(3) by (simp add: slice_def)
  show ?thesis
    using fcrc_guards_append [OF c0(1) _ c2(1), of "[]" ?b "[]" "[0]" "replicate 15 0xFF" "[0xFF]"] c0 c2 win rep(2)
    by auto
qed

end
