(* ===== verification/Gstates.thy ===== *)
theory Gstates
  imports Tags Blocks
begin

text \<open>
  Filesystem global state (\<open>src/src/gstate.rs\<close>): the record of an unfinished cross directory move
  or pair relocation, XOR accumulated over the metadata pairs. The XOR algebra is what makes the
  two commits of a move cancel.
\<close>

definition MOVE_STATE_BODY_SIZE :: nat where "MOVE_STATE_BODY_SIZE = 12"

definition RELOCATE_STATE_BODY_SIZE :: nat where "RELOCATE_STATE_BODY_SIZE = 16"

record gstate =
  move_tag :: u32
  move_pair_a :: u32
  move_pair_b :: u32
  relocate_old_a :: u32
  relocate_old_b :: u32
  relocate_new_a :: u32
  relocate_new_b :: u32

definition gstate_ZERO :: gstate where
  "gstate_ZERO = \<lparr>move_tag = 0, move_pair_a = 0, move_pair_b = 0, relocate_old_a = 0,
     relocate_old_b = 0, relocate_new_a = 0, relocate_new_b = 0\<rparr>"

definition gstate_is_zero :: "gstate \<Rightarrow> bool" where
  "gstate_is_zero g \<longleftrightarrow> move_tag g = 0 \<and> move_pair_a g = 0 \<and> move_pair_b g = 0 \<and>
     relocate_old_a g = 0 \<and> relocate_old_b g = 0 \<and> relocate_new_a g = 0 \<and> relocate_new_b g = 0"

definition has_pending_move :: "gstate \<Rightarrow> bool" where
  "has_pending_move g \<longleftrightarrow> move_tag g \<noteq> 0 \<or> move_pair_a g \<noteq> 0 \<or> move_pair_b g \<noteq> 0"

definition has_pending_relocation :: "gstate \<Rightarrow> bool" where
  "has_pending_relocation g \<longleftrightarrow>
     relocate_old_a g \<noteq> 0 \<or> relocate_old_b g \<noteq> 0 \<or> relocate_new_a g \<noteq> 0 \<or> relocate_new_b g \<noteq> 0"

definition xor_relocate_body :: "gstate \<Rightarrow> byte list \<Rightarrow> gstate" where
  "xor_relocate_body g body =
     g\<lparr>relocate_old_a := relocate_old_a g XOR le_u32_at body 0,
       relocate_old_b := relocate_old_b g XOR le_u32_at body 4,
       relocate_new_a := relocate_new_a g XOR le_u32_at body 8,
       relocate_new_b := relocate_new_b g XOR le_u32_at body 12\<rparr>"

definition pending_relocation :: "gstate \<Rightarrow> (block_pair \<times> block_pair) option" where
  "pending_relocation g =
     (if \<not> has_pending_relocation g then None
      else Some (pair_new (BlockAddress (relocate_old_a g)) (BlockAddress (relocate_old_b g)),
                 pair_new (BlockAddress (relocate_new_a g)) (BlockAddress (relocate_new_b g))))"

definition xor_body :: "gstate \<Rightarrow> byte list \<Rightarrow> gstate" where
  "xor_body g body =
     g\<lparr>move_tag := move_tag g XOR le_u32_at body 0,
       move_pair_a := move_pair_a g XOR le_u32_at body 4,
       move_pair_b := move_pair_b g XOR le_u32_at body 8\<rparr>"

definition gstate_to_body :: "gstate \<Rightarrow> byte list" where
  "gstate_to_body g =
     splice (splice (splice (replicate MOVE_STATE_BODY_SIZE 0) 0 (to_le_bytes (move_tag g)))
       4 (to_le_bytes (move_pair_a g))) 8 (to_le_bytes (move_pair_b g))"

definition pending_move :: "gstate \<Rightarrow> (block_pair \<times> u16) option" where
  "pending_move g =
     (if \<not> has_pending_move g then None
      else if tag_type (move_tag g) \<noteq> Delete then None
      else Some (pair_new (BlockAddress (move_pair_a g)) (BlockAddress (move_pair_b g)), tag_id (move_tag g)))"

definition build_relocate_body :: "block_pair \<Rightarrow> block_pair \<Rightarrow> byte list" where
  "build_relocate_body old_pair new_pair =
     splice (splice (splice (splice (replicate RELOCATE_STATE_BODY_SIZE 0)
       0 (to_le_bytes (as_u32 (bp_a old_pair)))) 4 (to_le_bytes (as_u32 (bp_b old_pair))))
       8 (to_le_bytes (as_u32 (bp_a new_pair)))) 12 (to_le_bytes (as_u32 (bp_b new_pair)))"

definition build_move_body :: "block_pair \<Rightarrow> u16 \<Rightarrow> byte list" where
  "build_move_body src_pair src_id =
     splice (splice (splice (replicate MOVE_STATE_BODY_SIZE 0)
       0 (to_le_bytes (Tag_new True Delete src_id 0))) 4 (to_le_bytes (as_u32 (bp_a src_pair))))
       8 (to_le_bytes (as_u32 (bp_b src_pair)))"


section \<open>The XOR algebra\<close>

lemma xor_cancel: "(x XOR y) XOR y = x" for x y :: u32
  by (simp add: xor.assoc)

lemma xor_body_involutive: "xor_body (xor_body g b) b = g"
  by (simp add: xor_body_def xor_cancel)

lemma xor_body_commute: "xor_body (xor_body g b) c = xor_body (xor_body g c) b"
  by (simp add: xor_body_def ac_simps)

lemma xor_relocate_involutive: "xor_relocate_body (xor_relocate_body g b) b = g"
  by (simp add: xor_relocate_body_def xor_cancel)

lemma words_of_splices:
  assumes "length z = 12"
  shows "le_u32_at (splice (splice (splice z 0 (to_le_bytes x)) 4 (to_le_bytes y)) 8 (to_le_bytes w)) 0 = x"
    "le_u32_at (splice (splice (splice z 0 (to_le_bytes x)) 4 (to_le_bytes y)) 8 (to_le_bytes w)) 4 = y"
    "le_u32_at (splice (splice (splice z 0 (to_le_bytes x)) 4 (to_le_bytes y)) 8 (to_le_bytes w)) 8 = w"
  using assms by (simp_all add: slice_splice_before)

lemma build_move_words:
  "le_u32_at (build_move_body p i) 0 = Tag_new True Delete i 0"
  "le_u32_at (build_move_body p i) 4 = as_u32 (bp_a p)"
  "le_u32_at (build_move_body p i) 8 = as_u32 (bp_b p)"
  by (simp_all add: build_move_body_def words_of_splices MOVE_STATE_BODY_SIZE_def)

lemma build_relocate_words:
  "le_u32_at (build_relocate_body p q) 0 = as_u32 (bp_a p)"
  "le_u32_at (build_relocate_body p q) 4 = as_u32 (bp_b p)"
  "le_u32_at (build_relocate_body p q) 8 = as_u32 (bp_a q)"
  "le_u32_at (build_relocate_body p q) 12 = as_u32 (bp_b q)"
  by (simp_all add: build_relocate_body_def slice_splice_before RELOCATE_STATE_BODY_SIZE_def)

lemma delete_tag_nonzero: "Tag_new True Delete i n \<noteq> 0"
proof
  assume "Tag_new True Delete i n = 0"
  then have "tag_type (Tag_new True Delete i n) = tag_type 0" by simp
  moreover have "tag_type 0 \<noteq> Delete" by code_simp
  ultimately show False by simp
qed

lemma pair_new_eta: "pair_new (BlockAddress (as_u32 (bp_a p))) (BlockAddress (as_u32 (bp_b p))) = p"
  by (simp add: pair_new_def)

lemma gstate_body_roundtrip:
  "move_tag (xor_body gstate_ZERO (gstate_to_body g)) = move_tag g"
  "move_pair_a (xor_body gstate_ZERO (gstate_to_body g)) = move_pair_a g"
  "move_pair_b (xor_body gstate_ZERO (gstate_to_body g)) = move_pair_b g"
  by (simp_all add: xor_body_def gstate_ZERO_def gstate_to_body_def words_of_splices MOVE_STATE_BODY_SIZE_def)

lemma accumulate_insert: "foldl xor_body g (b # bs) = xor_body (foldl xor_body g bs) b"
proof (induction bs arbitrary: g)
  case (Cons c bs)
  then show ?case using xor_body_commute [of g b c] by simp
qed simp

section \<open>Properties\<close>

text \<open>The move record: a move body on its own decodes to exactly its source pair and source id,
  and the same body committed on the other side of the rename cancels it, wherever it lands among
  the contributions of the other pairs.\<close>

theorem move_record_cancels:
  "pending_move (xor_body gstate_ZERO (build_move_body p i)) = Some (p, i AND 0x3ff) \<and>
   foldl xor_body g (xs @ build_move_body p i # ys @ build_move_body p i # zs) = foldl xor_body g (xs @ ys @ zs)"
proof -
  let ?b = "build_move_body p i"
  have "pending_move (xor_body gstate_ZERO ?b) = Some (p, i AND 0x3ff)"
    using delete_tag_nonzero [of i 0]
    by (simp add: pending_move_def has_pending_move_def xor_body_def gstate_ZERO_def build_move_words pair_new_eta)
  moreover have "foldl xor_body h (?b # ys @ ?b # zs) = foldl xor_body h (ys @ zs)" for h
  proof -
    have "foldl xor_body h (?b # ys @ ?b # zs) = foldl xor_body (xor_body (xor_body (foldl xor_body h ys) ?b) ?b) zs"
      using accumulate_insert [of h ?b ys] by simp
    then show ?thesis by (simp add: xor_body_involutive)
  qed
  ultimately show ?thesis by simp
qed

text \<open>The relocation record: it decodes to the old and new pair (unless all four addresses are
  zero) and cancels against itself.\<close>

lemma relocate_record_cancels:
  "pending_relocation (xor_relocate_body gstate_ZERO (build_relocate_body p q)) =
     (if as_u32 (bp_a p) = 0 \<and> as_u32 (bp_b p) = 0 \<and> as_u32 (bp_a q) = 0 \<and> as_u32 (bp_b q) = 0
      then None else Some (p, q)) \<and>
   xor_relocate_body (xor_relocate_body g (build_relocate_body p q)) (build_relocate_body p q) = g"
  by (simp add: pending_relocation_def has_pending_relocation_def xor_relocate_body_def gstate_ZERO_def
      build_relocate_words pair_new_eta xor_cancel)

end
