(* ===== verification/Superblocks.thy ===== *)
theory Superblocks
  imports Commits
begin

text \<open>
  The superblock (\<open>src/src/superblock.rs\<close> and the format constants of \<open>src/src/lib.rs\<close>): the 24 byte
  struct, and how it is found in the root pair.
\<close>

definition DISK_VERSION :: u32 where "DISK_VERSION = 0x00020001"

definition MAGIC :: "byte list" where
  "MAGIC = [0x6c, 0x69, 0x74, 0x74, 0x6c, 0x65, 0x66, 0x73]"

record superblock =
  version :: u32
  sb_block_size :: u32
  sb_block_count :: u32
  name_max :: u32
  file_max :: u32
  attr_max :: u32

definition SUPERBLOCK_SIZE :: nat where "SUPERBLOCK_SIZE = 24"

definition major_version :: "superblock \<Rightarrow> u16" where
  "major_version sb = ucast (drop_bit 16 (version sb))"

definition minor_version :: "superblock \<Rightarrow> u16" where
  "minor_version sb = ucast (version sb AND 0xFFFF)"

definition superblock_from_bytes :: "byte list \<Rightarrow> superblock result" where
  "superblock_from_bytes bytes =
     (if length bytes \<noteq> SUPERBLOCK_SIZE then Inl OutOfRange
      else Inr \<lparr>version = le_u32_at bytes 0, sb_block_size = le_u32_at bytes 4,
                sb_block_count = le_u32_at bytes 8, name_max = le_u32_at bytes 12,
                file_max = le_u32_at bytes 16, attr_max = le_u32_at bytes 20\<rparr>)"

definition superblock_to_bytes :: "superblock \<Rightarrow> byte list" where
  "superblock_to_bytes sb =
     splice (splice (splice (splice (splice (splice (replicate SUPERBLOCK_SIZE 0)
       0 (to_le_bytes (version sb))) 4 (to_le_bytes (sb_block_size sb)))
       8 (to_le_bytes (sb_block_count sb))) 12 (to_le_bytes (name_max sb)))
       16 (to_le_bytes (file_max sb))) 20 (to_le_bytes (attr_max sb))"

text \<open>The loop of \<open>from_pair\<close>: whether the magic was seen, and the last geometry struct at id 0.\<close>

fun superblock_scan :: "tag_entry list \<Rightarrow> bool \<Rightarrow> superblock option \<Rightarrow> (bool \<times> superblock option) result" where
  "superblock_scan [] magic_seen decoded = Inr (magic_seen, decoded)"
| "superblock_scan (e # es) magic_seen decoded =
     (if tag_type (te_tag e) = Superblock \<and> te_body e = MAGIC then superblock_scan es True decoded
      else if tag_type (te_tag e) = InlineStruct \<and> tag_id (te_tag e) = 0 \<and> length (te_body e) = SUPERBLOCK_SIZE
      then rbind (superblock_from_bytes (te_body e)) (\<lambda>sb. superblock_scan es magic_seen (Some sb))
      else superblock_scan es magic_seen decoded)"

definition superblock_from_pair :: "metadata_pair \<Rightarrow> superblock result" where
  "superblock_from_pair pair =
     rbind (superblock_scan (iter_tags (mp_reader pair)) False None) (\<lambda>(magic_seen, decoded).
       if \<not> magic_seen then Inl NotLittleFs
       else case decoded of None \<Rightarrow> Inl Corrupt
         | Some sb \<Rightarrow>
             let our_major = (ucast (drop_bit 16 DISK_VERSION) :: u16);
                 our_minor = (ucast (DISK_VERSION AND 0xFFFF) :: u16)
             in if major_version sb \<noteq> our_major \<or> minor_version sb > our_minor
                then Inl (UnsupportedVersion (version sb)) else Inr sb)"


section \<open>Lemmas\<close>

lemma superblock_roundtrip:
  "length (superblock_to_bytes sb) = SUPERBLOCK_SIZE" "superblock_from_bytes (superblock_to_bytes sb) = Inr sb"
  by (simp_all add: superblock_to_bytes_def superblock_from_bytes_def SUPERBLOCK_SIZE_def slice_splice_before)

definition is_magic_entry :: "tag_entry \<Rightarrow> bool" where
  "is_magic_entry e \<longleftrightarrow> tag_type (te_tag e) = Superblock \<and> te_body e = MAGIC"

definition is_geometry_entry :: "tag_entry \<Rightarrow> bool" where
  "is_geometry_entry e \<longleftrightarrow>
     tag_type (te_tag e) = InlineStruct \<and> tag_id (te_tag e) = 0 \<and> length (te_body e) = SUPERBLOCK_SIZE"

definition decode_geometry :: "byte list \<Rightarrow> superblock" where
  "decode_geometry b = (case superblock_from_bytes b of Inr sb \<Rightarrow> sb)"

lemma superblock_scan_spec:
  "superblock_scan es m d = Inr (m \<or> list_ex is_magic_entry es,
     if filter is_geometry_entry es = [] then d
     else Some (decode_geometry (te_body (last (filter is_geometry_entry es)))))"
proof (induction es m d rule: superblock_scan.induct)
  case (2 e es m d)
  consider (magic) "is_magic_entry e" "\<not> is_geometry_entry e" | (geom) "is_geometry_entry e" "\<not> is_magic_entry e"
    | (other) "\<not> is_magic_entry e" "\<not> is_geometry_entry e"
    by (auto simp: is_magic_entry_def is_geometry_entry_def)
  then show ?case
  proof cases
    case magic
    then show ?thesis using 2(1) by (simp add: is_magic_entry_def [of e])
  next
    case geom
    then have dec: "superblock_from_bytes (te_body e) = Inr (decode_geometry (te_body e))"
      by (simp add: is_geometry_entry_def superblock_from_bytes_def decode_geometry_def)
    have g: "tag_type (te_tag e) = InlineStruct" "tag_id (te_tag e) = 0" "length (te_body e) = SUPERBLOCK_SIZE"
      using geom(1) by (simp_all add: is_geometry_entry_def)
    show ?thesis using 2(2) [OF _ _ dec] g geom by (simp add: dec)
  next
    case other
    have e: "superblock_scan (e # es) m d = superblock_scan es m d"
      using other by (auto simp: is_magic_entry_def is_geometry_entry_def)
    have "superblock_scan es m d = Inr (m \<or> list_ex is_magic_entry es,
        if filter is_geometry_entry es = [] then d
        else Some (decode_geometry (te_body (last (filter is_geometry_entry es)))))"
      by (rule 2(3)) (use other in \<open>auto simp: is_magic_entry_def is_geometry_entry_def\<close>)
    then show ?thesis using other unfolding e by simp
  qed
qed simp

lemma crc_entries_no_geometry:
  "crc_entries fs \<Longrightarrow> filter is_geometry_entry fs = [] \<and> \<not> list_ex is_magic_entry fs"
  by (induction fs) (auto simp: is_geometry_entry_def is_magic_entry_def is_ccrc_def)


text \<open>What a format writes into the root block, and how such a block is recognised.\<close>

definition root_tags :: "superblock \<Rightarrow> tag_entry list" where
  "root_tags sb = [\<lparr>te_tag = Tag_new True Superblock 0 8, te_body = MAGIC\<rparr>,
     \<lparr>te_tag = Tag_new True InlineStruct 0 24, te_body = superblock_to_bytes sb\<rparr>]"

lemma root_tag_types:
  "tag_type (Tag_new True Superblock 0 8) = Superblock" "tag_type (Tag_new True InlineStruct 0 24) = InlineStruct"
  "tag_id (Tag_new True Superblock 0 8) = 0" "tag_id (Tag_new True InlineStruct 0 24) = 0"
  "dsize (Tag_new True Superblock 0 8) = 12" "dsize (Tag_new True InlineStruct 0 24) = 28"
  by code_simp+

lemma root_pair_superblock:
  assumes "iter_tags (mp_reader pair) = root_tags sb @ fs" "crc_entries fs" "major_version sb = 2" "minor_version sb \<le> 1"
  shows "superblock_from_pair pair = Inr sb"
proof -
  have vs: "(ucast (drop_bit 16 DISK_VERSION) :: u16) = 2" "(ucast (DISK_VERSION AND 0xFFFF) :: u16) = 1"
    unfolding DISK_VERSION_def by code_simp+
  have "filter is_geometry_entry (iter_tags (mp_reader pair)) = [root_tags sb ! 1]" "list_ex is_magic_entry (iter_tags (mp_reader pair))"
    using crc_entries_no_geometry [OF assms(2)] assms(1) superblock_roundtrip(1) [of sb]
    by (auto simp: is_geometry_entry_def is_magic_entry_def root_tags_def root_tag_types SUPERBLOCK_SIZE_def MAGIC_def)
  then have "superblock_scan (iter_tags (mp_reader pair)) False None = Inr (True, Some sb)"
    by (simp add: superblock_scan_spec decode_geometry_def superblock_roundtrip root_tags_def)
  then show ?thesis using vs assms(3,4) by (simp add: superblock_from_pair_def not_less)
qed


section \<open>Properties\<close>

text \<open>The superblock of a pair: the image is recognised exactly by the magic name, its geometry
  is the last well sized struct at id 0, and only images of this major version and of a minor
  version this crate knows are accepted.\<close>

theorem superblock_from_pair_spec:
  "superblock_from_pair pair =
    (let es = iter_tags (mp_reader pair); gs = filter is_geometry_entry es;
         sb = decode_geometry (te_body (last gs))
     in if \<not> list_ex is_magic_entry es then Inl NotLittleFs
        else if gs = [] then Inl Corrupt
        else if major_version sb = 2 \<and> minor_version sb \<le> 1 then Inr sb
        else Inl (UnsupportedVersion (version sb)))"
proof -
  have "(ucast (drop_bit 16 DISK_VERSION) :: u16) = 2" "(ucast (DISK_VERSION AND 0xFFFF) :: u16) = 1"
    unfolding DISK_VERSION_def by code_simp+
  then show ?thesis by (simp add: superblock_from_pair_def superblock_scan_spec Let_def) (auto simp: not_le)
qed

text \<open>C38. A freshly staged root block, the magic name and the geometry struct in one commit, mounts:
  the pair it forms with an erased block yields exactly the superblock written, for every geometry
  of a supported version.\<close>

theorem superblock_commit_reads_back:
  assumes "commit_new (replicate n 0xFF) rv = Inr c0"
    and "commit_tags c0 [\<lparr>te_tag = Tag_new True Superblock 0 8, te_body = MAGIC\<rparr>,
           \<lparr>te_tag = Tag_new True InlineStruct 0 24, te_body = superblock_to_bytes sb\<rparr>] = Inr c1"
    and "commit_finish_padded c1 chunk p bs = Inr c2" and "chunk AND 0x80 = 0"
    and "reader_new other = Inr r2" and "\<not> has_commits r2"
    and "major_version sb = 2" and "minor_version sb \<le> 1"
  shows "\<exists>pair. pair_parse a (cm_buf c2) b other = Inr pair \<and> active_block pair = a \<and>
    superblock_from_pair pair = Inr sb"
proof -
  obtain r fs where r: "reader_new (cm_buf c2) = Inr r" "iter_tags r = root_tags sb @ fs" "crc_entries fs" "committed_end r = cm_offset c2"
    using fresh_commit_reader [OF assms(1-3) _ assms(4)] by (auto simp: root_tags_def)
  have hc: "has_commits r"
    by (rule reader_new_path [OF r(1)]) (use r(2) in \<open>auto simp: root_tags_def has_commits_def at_commit_def off_end_def\<close>)
  let ?pair = "\<lparr>active_block = a, alternate_block = b, mp_reader = r, alternate_valid = False\<rparr>"
  have "superblock_from_pair ?pair = Inr sb" by (rule root_pair_superblock [OF _ r(3) assms(7,8)]) (use r(2) in simp)
  then show ?thesis using r(1) assms(5,6) hc by (simp add: pair_parse_def Let_def)
qed

abbreviation sample_superblock :: superblock where
  "sample_superblock \<equiv> \<lparr>version = 0x00020001, sb_block_size = 256, sb_block_count = 8, name_max = 255,
     file_max = 0x7FFFFFFF, attr_max = 1022\<rparr>"

theorem superblock_commit_reads_back_witness:
  "\<exists>c0 c1 c2 pair. commit_new (replicate 256 0xFF) 1 = Inr c0 \<and>
     commit_tags c0 [\<lparr>te_tag = Tag_new True Superblock 0 8, te_body = MAGIC\<rparr>,
       \<lparr>te_tag = Tag_new True InlineStruct 0 24, te_body = superblock_to_bytes sample_superblock\<rparr>] = Inr c1 \<and>
     commit_finish_padded c1 0 16 256 = Inr c2 \<and>
     pair_parse (BlockAddress 0) (cm_buf c2) (BlockAddress 1) (replicate 24 0xFF) = Inr pair \<and>
     superblock_from_pair pair = Inr sample_superblock"
proof -
  obtain c0 where c0: "commit_new (replicate 256 0xFF) 1 = Inr c0" "cm_offset c0 = 4" "length (cm_buf c0) = 256"
    by (simp add: commit_new_def Let_def)
  obtain d where d: "commit_tag c0 (Tag_new True Superblock 0 8) MAGIC = Inr d" "cm_offset d = 16" "length (cm_buf d) = 256"
    using commit_tag_ok [of "Tag_new True Superblock 0 8" MAGIC c0] c0 body_len_Tag_new [of 8]
    by (auto simp: dsize_def is_ccrc_def MAGIC_def)
  obtain c1 where c1: "commit_tag d (Tag_new True InlineStruct 0 24) (superblock_to_bytes sample_superblock) = Inr c1"
      "cm_offset c1 = 44" "length (cm_buf c1) = 256"
    using commit_tag_ok [of "Tag_new True InlineStruct 0 24" "superblock_to_bytes sample_superblock" d] d
      body_len_Tag_new [of 24] superblock_roundtrip(1) [of sample_superblock]
    by (auto simp: dsize_def is_ccrc_def SUPERBLOCK_SIZE_def)
  obtain c2 where c2: "commit_finish_padded c1 0 16 256 = Inr c2"
    using commit_finish_padded_ok [of 64 c1 256 16] c1 by (auto simp: div_ceil_def)
  obtain e where e: "reader_new (replicate 24 0xFF) = Inr e" "committed_end e = 0" using erased_reader by blast
  have v: "major_version sample_superblock = 2" "minor_version sample_superblock \<le> 1"
    unfolding major_version_def minor_version_def by code_simp+
  have tags: "commit_tags c0 [\<lparr>te_tag = Tag_new True Superblock 0 8, te_body = MAGIC\<rparr>,
       \<lparr>te_tag = Tag_new True InlineStruct 0 24, te_body = superblock_to_bytes sample_superblock\<rparr>] = Inr c1"
    using d(1) c1(1) by simp
  have "\<not> has_commits e" using e by (simp add: has_commits_def)
  from superblock_commit_reads_back [OF c0(1) tags c2 _ e(1) this v] show ?thesis
    using c0(1) tags c2 by fastforce
qed

end
