(* ===== verification/Nor.thy ===== *)
theory Nor
  imports Storages
begin

text \<open>
  The write-back adapter of \<open>src/src/nor.rs\<close>: \<open>NorAlignedStorage\<close> owns an inner device and caches
  one program window, so that programs of any alignment reach the device as whole windows.

  The adapter is itself a \<open>Storage\<close>: \<open>nor_storage S\<close> is the record of its methods over the state
  \<open>'s nor\<close>. Its contract is the image \<open>nor_img\<close> (the inner image with the cached window laid over
  it) and the invariant \<open>nor_inv\<close>; on an inner \<open>flash\<close> whose legal operations do not fail the
  adapter is again a \<open>flash\<close> (\<open>steady_flash\<close> and its \<open>sublocale\<close>), so every theorem about a
  device holds behind it. The shape of the window alone (\<open>nor_wf\<close>) holds over any device at all.

  An inner failure is not repaired here: the window being written back is dropped, and the kernel
  relocates (\<open>nor_program_failure_drops\<close>).
\<close>

section \<open>State and operations\<close>

definition MAX_PROG_SIZE :: nat where
  "MAX_PROG_SIZE = 512"

record 's nor =
  nor_inner :: 's
  cached_block :: "u32 option"
  cached_off :: u32
  nor_cache :: "byte list"
  nor_dirty :: bool

text \<open>The two guards of \<open>new\<close>; a value of the adapter type exists only where they pass.\<close>

definition nor_supported :: "'s storage \<Rightarrow> bool" where
  "nor_supported S \<longleftrightarrow>
     \<not> (PROG_SIZE S = 0 \<or> PROG_SIZE S > MAX_PROG_SIZE) \<and> \<not> BLOCK_SIZE S mod PROG_SIZE S \<noteq> 0"

definition nor_new :: "'s storage \<Rightarrow> 's \<Rightarrow> 's nor option" where
  "nor_new S dev =
     (if \<not> nor_supported S then None
      else Some \<lparr>nor_inner = dev, cached_block = None, cached_off = 0,
                 nor_cache = replicate MAX_PROG_SIZE 0xFF, nor_dirty = False\<rparr>)"

text \<open>\<open>expect("dirty cache must have a target")\<close> would panic on a dirty cache without a block; the
  branch answers \<open>False\<close> here and \<open>nor_window_shape\<close> shows that no adapter reaches it.\<close>

definition nor_flush :: "'s storage \<Rightarrow> 's nor \<Rightarrow> 's nor \<times> bool" where
  "nor_flush S n =
     (if \<not> nor_dirty n then (n, True)
      else case cached_block n of
        None \<Rightarrow> (n, False)
      | Some block \<Rightarrow>
          (case st_program S (nor_inner n) block (cached_off n) (take (PROG_SIZE S) (nor_cache n)) of
             (dev, ok) \<Rightarrow>
               (n\<lparr>nor_dirty := False, nor_inner := dev,
                  cached_block := (if ok then Some block else None)\<rparr>, ok)))"

definition nor_into_inner :: "'s storage \<Rightarrow> 's nor \<Rightarrow> 's \<times> bool" where
  "nor_into_inner S n = (case nor_flush S n of (n', ok) \<Rightarrow> (nor_inner n', ok))"

definition nor_load_window :: "'s storage \<Rightarrow> 's nor \<Rightarrow> u32 \<Rightarrow> u32 \<Rightarrow> 's nor \<times> bool" where
  "nor_load_window S n block window_off =
     (if cached_block n = Some block \<and> cached_off n = window_off then (n, True)
      else case nor_flush S n of (n1, flushed) \<Rightarrow>
        if \<not> flushed then (n1, False)
        else case st_read S (nor_inner n1) block window_off (take (PROG_SIZE S) (nor_cache n1)) of
          (dev, buf, ok) \<Rightarrow>
            (let n2 = n1\<lparr>nor_inner := dev, nor_cache := splice (nor_cache n1) 0 buf\<rparr>
             in if \<not> ok then (n2, False)
                else (n2\<lparr>cached_block := Some block, cached_off := window_off, nor_dirty := False\<rparr>,
                      True)))"

text \<open>The overlap of a request with the cached window, as the \<open>u64\<close> interval arithmetic of
  \<open>read\<close> computes it.\<close>

definition nor_read ::
  "'s storage \<Rightarrow> 's nor \<Rightarrow> u32 \<Rightarrow> u32 \<Rightarrow> byte list \<Rightarrow> 's nor \<times> byte list \<times> bool" where
  "nor_read S n block off buf =
     (case st_read S (nor_inner n) block off buf of (dev, buf', ok) \<Rightarrow>
        (let n' = n\<lparr>nor_inner := dev\<rparr>
         in if \<not> ok then (n', buf', False)
            else if cached_block n = Some block then
              (let cache_start = unat (cached_off n); cache_end = cache_start + PROG_SIZE S;
                   read_start = unat off; read_end = read_start + length buf';
                   overlap_start = max read_start cache_start; overlap_end = min read_end cache_end
               in if overlap_start < overlap_end then
                    (n', splice buf' (overlap_start - read_start)
                           (slice (nor_cache n) (overlap_start - cache_start) (overlap_end - overlap_start)),
                     True)
                  else (n', buf', True))
            else (n', buf', True)))"

definition nor_read_device ::
  "'s storage \<Rightarrow> 's nor \<Rightarrow> u32 \<Rightarrow> u32 \<Rightarrow> byte list \<Rightarrow> 's nor \<times> byte list \<times> bool" where
  "nor_read_device S n block off buf =
     (let cache_start = unat (cached_off n); cache_end = cache_start + PROG_SIZE S;
          read_start = unat off; read_end = read_start + length buf;
          r = (if nor_dirty n \<and> cached_block n = Some block \<and>
                  read_start < cache_end \<and> cache_start < read_end
               then nor_flush S n else (n, True))
      in case r of (n1, flushed) \<Rightarrow>
        if \<not> flushed then (n1, buf, False)
        else case st_read_device S (nor_inner n1) block off buf of (dev, buf', ok) \<Rightarrow>
          (n1\<lparr>nor_inner := dev\<rparr>, buf', ok))"

text \<open>One round of \<open>program\<close>: the window that holds \<open>cur_off\<close>, the offset within it and the
  number of bytes it takes. The \<open>u32\<close> arithmetic is the code's.\<close>

definition window_of :: "'s storage \<Rightarrow> u32 \<Rightarrow> u32" where
  "window_of S cur_off = cur_off div of_nat (PROG_SIZE S) * of_nat (PROG_SIZE S)"

definition within_of :: "'s storage \<Rightarrow> u32 \<Rightarrow> nat" where
  "within_of S cur_off = unat (cur_off - window_of S cur_off)"

definition nor_take :: "'s storage \<Rightarrow> u32 \<Rightarrow> nat \<Rightarrow> nat" where
  "nor_take S cur_off left = min (PROG_SIZE S - within_of S cur_off) left"

lemma unat_prog:
  "nor_supported S \<Longrightarrow> unat (of_nat (PROG_SIZE S) :: u32) = PROG_SIZE S"
  by (intro unat_small_of_nat) (simp add: nor_supported_def MAX_PROG_SIZE_def)

lemma window_within:
  assumes "nor_supported S"
  shows "unat (window_of S c) = unat c - unat c mod PROG_SIZE S"
    and "within_of S c = unat c mod PROG_SIZE S"
proof -
  let ?p = "of_nat (PROG_SIZE S) :: u32"
  have w: "within_of S c = unat c mod PROG_SIZE S"
    using unat_prog [OF assms] by (simp add: within_of_def window_of_def minus_div_mult_eq_mod unat_mod_distrib)
  have "unat (c div ?p * ?p) = unat c div PROG_SIZE S * PROG_SIZE S"
  proof -
    have "unat c div PROG_SIZE S * PROG_SIZE S < 4294967296"
      by (rule le_less_trans [OF div_times_less_eq_dividend unat_u32_less])
    then show ?thesis
      using mod_mult_left_eq [of "unat c div PROG_SIZE S" 4294967296 "PROG_SIZE S"]
      by (simp add: unat_word_ariths unat_div_distrib unat_prog [OF assms])
  qed
  then show "unat (window_of S c) = unat c - unat c mod PROG_SIZE S"
    by (simp add: window_of_def minus_mod_eq_div_mult)
  show "within_of S c = unat c mod PROG_SIZE S" by (rule w)
qed

lemma within_less: "nor_supported S \<Longrightarrow> within_of S c < PROG_SIZE S"
  by (simp add: window_within) (simp add: nor_supported_def)

lemma nor_take_pos: "nor_supported S \<Longrightarrow> 0 < left \<Longrightarrow> 0 < nor_take S c left"
  by (simp add: nor_take_def within_less)

lemma nor_take_le: "nor_take S c left \<le> left"
  by (simp add: nor_take_def)

lemma nor_take_room: "nor_supported S \<Longrightarrow> within_of S c + nor_take S c left \<le> PROG_SIZE S"
  using within_less [of S c] by (simp add: nor_take_def)

text \<open>\<open>within_of\<close> is below the window size, so every round writes at least a byte and the loop
  ends. On a geometry \<open>new\<close> refuses there is no adapter to call.\<close>

function nor_program_loop ::
  "'s storage \<Rightarrow> u32 \<Rightarrow> u32 \<Rightarrow> byte list \<Rightarrow> nat \<Rightarrow> 's nor \<Rightarrow> 's nor \<times> bool" where
  "nor_program_loop S block off data written n =
     (if \<not> nor_supported S then (n, False)
      else if written < length data then
        let cur_off = off + of_nat written; within = within_of S cur_off;
            tk = nor_take S cur_off (length data - written)
        in case nor_load_window S n block (window_of S cur_off) of (n1, ok) \<Rightarrow>
          if \<not> ok then (n1, False)
          else
            let merged = map2 (AND) (slice (nor_cache n1) within tk) (slice data written tk)
            in nor_program_loop S block off data (written + tk)
                 (n1\<lparr>nor_cache := splice (nor_cache n1) within merged, nor_dirty := True\<rparr>)
      else (n, True))"
  by pat_completeness auto
termination
  by (relation "measure (\<lambda>(S, block, off, data, written, n). length data - written)")
     (auto simp: nor_take_pos nor_take_le less_diff_conv2 intro!: diff_less_mono2)

declare nor_program_loop.simps [simp del]

definition nor_program :: "'s storage \<Rightarrow> 's nor \<Rightarrow> u32 \<Rightarrow> u32 \<Rightarrow> byte list \<Rightarrow> 's nor \<times> bool" where
  "nor_program S n block off data = nor_program_loop S block off data 0 n"

definition nor_erase :: "'s storage \<Rightarrow> 's nor \<Rightarrow> u32 \<Rightarrow> 's nor \<times> bool" where
  "nor_erase S n block =
     (let n1 = (if cached_block n = Some block then n\<lparr>cached_block := None, nor_dirty := False\<rparr> else n)
      in case st_erase S (nor_inner n1) block of (dev, ok) \<Rightarrow> (n1\<lparr>nor_inner := dev\<rparr>, ok))"

definition nor_sync :: "'s storage \<Rightarrow> 's nor \<Rightarrow> 's nor \<times> bool" where
  "nor_sync S n =
     (case nor_flush S n of (n1, flushed) \<Rightarrow>
        if \<not> flushed then (n1, False)
        else case st_sync S (nor_inner n1) of (dev, ok) \<Rightarrow> (n1\<lparr>nor_inner := dev\<rparr>, ok))"

text \<open>The \<open>Storage\<close> implementation: the constants pass through.\<close>

definition nor_storage :: "'s storage \<Rightarrow> 's nor storage" where
  "nor_storage S =
     \<lparr>READ_SIZE = READ_SIZE S, PROG_SIZE = PROG_SIZE S, BLOCK_SIZE = BLOCK_SIZE S,
      BLOCK_COUNT = BLOCK_COUNT S, BLOCK_CYCLES = BLOCK_CYCLES S,
      st_read = nor_read S, st_program = nor_program S, st_erase = nor_erase S,
      st_read_device = nor_read_device S, st_sync = nor_sync S\<rparr>"

lemma nor_storage_sel [simp]:
  "READ_SIZE (nor_storage S) = READ_SIZE S" "PROG_SIZE (nor_storage S) = PROG_SIZE S"
  "BLOCK_SIZE (nor_storage S) = BLOCK_SIZE S" "BLOCK_COUNT (nor_storage S) = BLOCK_COUNT S"
  "st_read (nor_storage S) = nor_read S" "st_program (nor_storage S) = nor_program S"
  "st_erase (nor_storage S) = nor_erase S" "st_read_device (nor_storage S) = nor_read_device S"
  "st_sync (nor_storage S) = nor_sync S"
  by (simp_all add: nor_storage_def)


section \<open>The shape of the window, over any device\<close>

definition nor_wf :: "'s storage \<Rightarrow> 's nor \<Rightarrow> bool" where
  "nor_wf S n \<longleftrightarrow>
     length (nor_cache n) = MAX_PROG_SIZE \<and> PROG_SIZE S dvd unat (cached_off n) \<and>
     (nor_dirty n \<longrightarrow> cached_block n \<noteq> None)"

text \<open>A call of the adapter: what its owner may do with it, with any arguments.\<close>

datatype nor_call =
    NorRead u32 u32 "byte list"
  | NorReadDevice u32 u32 "byte list"
  | NorProgram u32 u32 "byte list"
  | NorErase u32
  | NorSync

fun nor_step :: "'s storage \<Rightarrow> nor_call \<Rightarrow> 's nor \<Rightarrow> 's nor" where
  "nor_step S (NorRead b off buf) n = fst (nor_read S n b off buf)"
| "nor_step S (NorReadDevice b off buf) n = fst (nor_read_device S n b off buf)"
| "nor_step S (NorProgram b off data) n = fst (nor_program S n b off data)"
| "nor_step S (NorErase b) n = fst (nor_erase S n b)"
| "nor_step S NorSync n = fst (nor_sync S n)"

inductive nor_reachable :: "'s storage \<Rightarrow> 's nor \<Rightarrow> bool" for S where
  built: "nor_new S dev = Some n \<Longrightarrow> nor_reachable S n"
| called: "nor_reachable S n \<Longrightarrow> nor_reachable S (nor_step S c n)"

text \<open>A slice handed to a device keeps its length (a \<open>&mut [u8]\<close> cannot be resized).\<close>

definition keeps_length :: "'s storage \<Rightarrow> bool" where
  "keeps_length S \<longleftrightarrow> (\<forall>st b off buf. length (fst (snd (st_read S st b off buf))) = length buf)"

lemma keeps_lengthD: "keeps_length S \<Longrightarrow> st_read S st b off buf = (st', buf', ok) \<Longrightarrow> length buf' = length buf"
  unfolding keeps_length_def by (metis fst_conv snd_conv)

lemma nor_flush_wf: "nor_wf S n \<Longrightarrow> nor_flush S n = (n', ok) \<Longrightarrow> nor_wf S n'"
  by (auto simp: nor_flush_def nor_wf_def split: if_splits option.splits prod.splits)

lemma nor_flush_clean: "nor_wf S n \<Longrightarrow> nor_flush S n = (n', ok) \<Longrightarrow> \<not> nor_dirty n'"
  by (auto simp: nor_flush_def nor_wf_def split: if_splits option.splits prod.splits)

lemma window_of_dvd: "nor_supported S \<Longrightarrow> PROG_SIZE S dvd unat (window_of S c)"
  by (simp add: window_within minus_mod_eq_mult_div)

lemma nor_load_window_wf:
  assumes "nor_wf S n" "keeps_length S" "nor_supported S" "PROG_SIZE S dvd unat w"
    and "nor_load_window S n block w = (n', ok)"
  shows "nor_wf S n' \<and> (ok \<longrightarrow> cached_block n' = Some block \<and> cached_off n' = w)"
proof (cases "cached_block n = Some block \<and> cached_off n = w")
  case True then show ?thesis using assms by (simp add: nor_load_window_def)
next
  case False
  obtain n1 fl where f: "nor_flush S n = (n1, fl)" by fastforce
  note wf1 = nor_flush_wf [OF assms(1) f] and clean = nor_flush_clean [OF assms(1) f]
  obtain dev buf rd where r: "st_read S (nor_inner n1) block w (take (PROG_SIZE S) (nor_cache n1)) = (dev, buf, rd)"
    by (metis prod_cases3)
  have "length buf \<le> MAX_PROG_SIZE" using keeps_lengthD [OF assms(2) r] wf1 by (simp add: nor_wf_def)
  then have "length (splice (nor_cache n1) 0 buf) = MAX_PROG_SIZE"
    using wf1 by (simp add: nor_wf_def)
  then show ?thesis using False assms(4,5) f r wf1 clean
    by (auto simp: nor_load_window_def nor_wf_def Let_def split: if_splits)
qed

lemma nor_program_loop_wf:
  assumes "nor_wf S n" "keeps_length S" "nor_program_loop S block off data written n = (n', ok)"
  shows "nor_wf S n'"
  using assms
proof (induction S block off data written n rule: nor_program_loop.induct)
  case (1 S block off data written n)
  show ?case
  proof (cases "nor_supported S \<and> written < length data")
    case False
    then show ?thesis using 1(2-4) by (auto simp: nor_program_loop.simps [of S] split: if_splits)
  next
    case True
    let ?c = "off + of_nat written"
    let ?tk = "nor_take S ?c (length data - written)"
    obtain n1 ld where l: "nor_load_window S n block (window_of S ?c) = (n1, ld)" by fastforce
    note w = nor_load_window_wf [OF 1(2,3) _ _ l]
    show ?thesis
    proof (cases ld)
      case False
      then show ?thesis using True 1(4) l w by (simp add: nor_program_loop.simps [of S] Let_def window_of_dvd)
    next
      case ld: True
      let ?m = "map2 (AND) (slice (nor_cache n1) (within_of S ?c) ?tk) (slice data written ?tk)"
      let ?n2 = "n1\<lparr>nor_cache := splice (nor_cache n1) (within_of S ?c) ?m, nor_dirty := True\<rparr>"
      have wf1: "nor_wf S n1" "cached_block n1 = Some block" using w True ld by (simp_all add: window_of_dvd)
      have "length ?m \<le> ?tk" unfolding length_map length_zip length_slice by linarith
      then have "within_of S ?c + length ?m \<le> MAX_PROG_SIZE"
        using True nor_take_room [of S ?c "length data - written"]
        unfolding nor_supported_def by linarith
      then have "nor_wf S ?n2" using wf1 by (simp add: nor_wf_def)
      moreover have "nor_program_loop S block off data (written + ?tk) ?n2 = (n', ok)"
        using True 1(4) l ld by (simp add: nor_program_loop.simps [of S _ _ _ written] Let_def)
      ultimately show ?thesis
        using 1(1) [OF _ _ refl refl refl l [symmetric] _ refl] True 1(3) ld by blast
    qed
  qed
qed

lemma nor_step_wf:
  assumes "nor_wf S n" "keeps_length S"
  shows "nor_wf S (nor_step S c n)"
proof (cases c)
  case (NorRead b off buf)
  then show ?thesis using assms
    by (auto simp: nor_read_def nor_wf_def Let_def split: prod.splits option.splits)
next
  case (NorReadDevice b off buf)
  obtain n1 fl where f: "nor_flush S n = (n1, fl)" by fastforce
  then show ?thesis using NorReadDevice assms nor_flush_wf [OF assms(1) f]
    by (auto simp: nor_read_device_def nor_wf_def Let_def split: prod.splits)
next
  case (NorProgram b off data)
  obtain n1 ok where f: "nor_program_loop S b off data 0 n = (n1, ok)" by fastforce
  then show ?thesis using NorProgram nor_program_loop_wf [OF assms f] by (simp add: nor_program_def)
next
  case (NorErase b)
  then show ?thesis using assms by (auto simp: nor_erase_def nor_wf_def Let_def split: prod.splits)
next
  case NorSync
  obtain n1 fl where f: "nor_flush S n = (n1, fl)" by fastforce
  then show ?thesis using NorSync nor_flush_wf [OF assms(1) f]
    by (auto simp: nor_sync_def nor_wf_def split: prod.splits)
qed


section \<open>The image behind the adapter\<close>

text \<open>A program over bytes that are already there clears bits and never sets one.\<close>

definition nor_merge :: "byte list \<Rightarrow> nat \<Rightarrow> byte list \<Rightarrow> byte list" where
  "nor_merge old off data = splice old off (map2 (AND) (slice old off (length data)) data)"

definition nor_img :: "'s storage \<Rightarrow> ('s \<Rightarrow> u32 \<Rightarrow> byte list) \<Rightarrow> 's nor \<Rightarrow> u32 \<Rightarrow> byte list" where
  "nor_img S img n b =
     (if cached_block n = Some b
      then splice (img (nor_inner n) b) (unat (cached_off n)) (take (PROG_SIZE S) (nor_cache n))
      else img (nor_inner n) b)"

text \<open>The window lies inside a block, only clears bits of what the device holds, and equals it when
  it is clean.\<close>

definition nor_inv :: "'s storage \<Rightarrow> ('s \<Rightarrow> bool) \<Rightarrow> ('s \<Rightarrow> u32 \<Rightarrow> byte list) \<Rightarrow> 's nor \<Rightarrow> bool" where
  "nor_inv S Inv img n \<longleftrightarrow>
     nor_wf S n \<and> Inv (nor_inner n) \<and>
     (\<forall>b. cached_block n = Some b \<longrightarrow>
        b < BLOCK_COUNT S \<and> unat (cached_off n) + PROG_SIZE S \<le> BLOCK_SIZE S \<and>
        (let held = slice (img (nor_inner n) b) (unat (cached_off n)) (PROG_SIZE S);
             window = take (PROG_SIZE S) (nor_cache n)
         in clears held window \<and> (\<not> nor_dirty n \<longrightarrow> window = held)))"

lemma splice_slice_id [simp]: "i + n \<le> length xs \<Longrightarrow> splice xs i (slice xs i n) = xs"
  by (rule nth_equalityI) (auto simp: nth_splice)

lemma clears_iff_nth:
  "clears a b \<longleftrightarrow> length a = length b \<and> (\<forall>i < length a. a ! i AND b ! i = b ! i)"
  by (auto simp: clears_def list_all2_conv_all_nth)

lemma clears_refl: "clears a a"
  by (simp add: clears_iff_nth)

lemma length_nor_merge [simp]:
  "off + length data \<le> length old \<Longrightarrow> length (nor_merge old off data) = length old"
  by (simp add: nor_merge_def)

lemma nth_nor_merge:
  "off + length data \<le> length old \<Longrightarrow> j < length old \<Longrightarrow>
   nor_merge old off data ! j =
     (if off \<le> j \<and> j < off + length data then old ! j AND data ! (j - off) else old ! j)"
  by (auto simp: nor_merge_def nth_splice)

lemma nor_merge_Nil [simp]: "nor_merge old off [] = old"
  by (simp add: nor_merge_def)

lemma nor_merge_append:
  "off + length d1 + length d2 \<le> length old \<Longrightarrow>
   nor_merge (nor_merge old off d1) (off + length d1) d2 = nor_merge old off (d1 @ d2)"
  by (rule nth_equalityI) (auto simp: nth_nor_merge nth_append)

lemma nor_merge_clears:
  "off + length data \<le> length old \<Longrightarrow> clears (slice old off (length data)) data \<Longrightarrow>
   nor_merge old off data = splice old off data"
  unfolding nor_merge_def
  by (rule arg_cong [where f = "splice old off"], rule nth_equalityI) (auto simp: clears_iff_nth)

text \<open>Merging into the window is merging into the image.\<close>

lemma window_merge:
  assumes "length c = MAX_PROG_SIZE" "P \<le> MAX_PROG_SIZE" "w + P \<le> length held"
    and "k + length d \<le> P"
  defines "c' \<equiv> splice c k (map2 (AND) (slice c k (length d)) d)"
  shows "splice held w (take P c') = nor_merge (splice held w (take P c)) (w + k) d"
    and "clears (slice held w P) (take P c) \<Longrightarrow> clears (slice held w P) (take P c')"
    and "length c' = MAX_PROG_SIZE"
proof -
  have n: "c' ! i = (if k \<le> i \<and> i < k + length d then c ! i AND d ! (i - k) else c ! i)"
    if "i < MAX_PROG_SIZE" for i
    using that assms(1,2,4) by (auto simp: c'_def nth_splice)
  show l: "length c' = MAX_PROG_SIZE" using assms(1,2,4) by (simp add: c'_def)
  show "splice held w (take P c') = nor_merge (splice held w (take P c)) (w + k) d"
    using assms(1-4) l by (intro nth_equalityI) (auto simp: nth_nor_merge nth_splice n)
  assume a: "clears (slice held w P) (take P c)"
  have "held ! (w + i) AND c ! i = c ! i" if "i < P" for i
    using a that assms(1-3) by (simp add: clears_iff_nth)
  moreover have "held ! (w + i) AND (c ! i AND x) = c ! i AND x" if "i < P" for i x
    using calculation [OF that] by (metis and.assoc)
  ultimately show "clears (slice held w P) (take P c')"
    using assms(1-3) l by (auto simp: clears_iff_nth n)
qed

text \<open>Laying the overlap of the window over the bytes read is reading the image.\<close>

lemma overlay_read:
  assumes "d = slice I off m" "off + m \<le> length I" "c + P \<le> length I" "P \<le> length cache"
    and "off \<le> lo" "c \<le> lo" "lo = off \<or> lo = c" "hi \<le> off + m" "hi \<le> c + P" "hi = off + m \<or> hi = c + P"
    and "lo < hi"
  shows "splice d (lo - off) (slice cache (lo - c) (hi - lo)) = slice (splice I c (take P cache)) off m"
proof (rule nth_equalityI)
  have wl: "length (slice cache (lo - c) (hi - lo)) = hi - lo" using assms by simp
  have fit: "lo - off + length (slice cache (lo - c) (hi - lo)) \<le> length d"
    unfolding wl using assms by simp
  show len: "length (splice d (lo - off) (slice cache (lo - c) (hi - lo))) =
      length (slice (splice I c (take P cache)) off m)"
    using fit assms by simp
  fix i assume "i < length (splice d (lo - off) (slice cache (lo - c) (hi - lo)))"
  then have i: "i < m" using len assms by simp
  have "slice cache (lo - c) (hi - lo) ! (i - (lo - off)) = cache ! (off + i - c)"
    if "lo - off \<le> i" "i < lo - off + (hi - lo)"
  proof -
    have "lo - c + (i - (lo - off)) = off + i - c" "i - (lo - off) < hi - lo" "off + i - c < length cache"
      using that assms(4-11) by linarith+
    then show ?thesis by simp
  qed
  moreover have "lo - off \<le> i \<and> i < lo - off + (hi - lo) \<longleftrightarrow> c \<le> off + i \<and> off + i < c + P"
    using i assms(5-11) by linarith
  moreover have "splice d (lo - off) (slice cache (lo - c) (hi - lo)) ! i =
      (if lo - off \<le> i \<and> i < lo - off + (hi - lo)
       then slice cache (lo - c) (hi - lo) ! (i - (lo - off)) else d ! i)"
    using nth_splice [OF fit, of i] i assms(1,2) wl by simp
  moreover have "d ! i = I ! (off + i)" using i assms(1,2) by simp
  moreover have "slice (splice I c (take P cache)) off m ! i =
      (if c \<le> off + i \<and> off + i < c + P then cache ! (off + i - c) else I ! (off + i))"
    using i assms(2-4) by (auto simp: nth_splice)
  ultimately show "splice d (lo - off) (slice cache (lo - c) (hi - lo)) ! i =
      slice (splice I c (take P cache)) off m ! i" by presburger
qed

text \<open>A device whose legal programs do not fail and whose \<open>read_device\<close> answers as \<open>read\<close> does
  (the trait's default body).\<close>

locale steady_flash = flash S Inv img True for S :: "'s storage" and Inv img +
  assumes supported: "nor_supported S"
    and program_total: "Inv st \<Longrightarrow> b < BLOCK_COUNT S \<Longrightarrow>
      PROG_SIZE S dvd unat off \<Longrightarrow> PROG_SIZE S dvd length data \<Longrightarrow>
      unat off + length data \<le> BLOCK_SIZE S \<Longrightarrow>
      clears (slice (img st b) (unat off) (length data)) data \<Longrightarrow>
      st_program S st b off data = (st', ok) \<Longrightarrow> ok"
    and read_device_law: "Inv st \<Longrightarrow> b < BLOCK_COUNT S \<Longrightarrow>
      READ_SIZE S dvd unat off \<Longrightarrow> READ_SIZE S dvd length buf \<Longrightarrow>
      unat off + length buf \<le> BLOCK_SIZE S \<Longrightarrow> st_read_device S st b off buf = (st', buf', ok) \<Longrightarrow>
      Inv st' \<and> img st' = img st \<and> ok \<and> buf' = slice (img st b) (unat off) (length buf)"
begin

lemma prog_unit: "0 < PROG_SIZE S" "PROG_SIZE S \<le> MAX_PROG_SIZE" "PROG_SIZE S dvd BLOCK_SIZE S"
  "READ_SIZE S dvd PROG_SIZE S"
  using geometry supported by (auto simp: fault_for_None_iff nor_supported_def)

lemma clean_img: "nor_inv S Inv img n \<Longrightarrow> \<not> nor_dirty n \<Longrightarrow> nor_img S img n = img (nor_inner n)"
  by (auto simp: fun_eq_iff nor_img_def nor_inv_def Let_def img_length)

lemma flush_keeps:
  assumes "nor_inv S Inv img n" "nor_flush S n = (n', ok)"
  shows "ok \<and> nor_inv S Inv img n' \<and> \<not> nor_dirty n' \<and> nor_img S img n' = nor_img S img n \<and>
    cached_block n' = cached_block n \<and> cached_off n' = cached_off n"
proof (cases "nor_dirty n")
  case False
  then show ?thesis using assms by (simp add: nor_flush_def)
next
  case True
  obtain b where b: "cached_block n = Some b" using assms(1) True by (auto simp: nor_inv_def nor_wf_def)
  let ?d = "take (PROG_SIZE S) (nor_cache n)" and ?o = "unat (cached_off n)"
  have wf: "nor_wf S n" "Inv (nor_inner n)" "b < BLOCK_COUNT S" "?o + PROG_SIZE S \<le> BLOCK_SIZE S"
      "clears (slice (img (nor_inner n) b) ?o (PROG_SIZE S)) ?d"
    using assms(1) b by (auto simp: nor_inv_def Let_def)
  have dl: "length ?d = PROG_SIZE S" using wf(1) prog_unit by (simp add: nor_wf_def)
  obtain dev k where p: "st_program S (nor_inner n) b (cached_off n) ?d = (dev, k)" by fastforce
  have leg: "PROG_SIZE S dvd ?o" "PROG_SIZE S dvd length ?d" "?o + length ?d \<le> BLOCK_SIZE S"
      "clears (slice (img (nor_inner n) b) ?o (length ?d)) ?d"
    using wf unfolding dl by (simp_all add: nor_wf_def)
  have k: k by (rule program_total [OF wf(2,3) leg p])
  have law: "Inv dev" "b' \<noteq> b \<Longrightarrow> img dev b' = img (nor_inner n) b'"
      "img dev b = splice (img (nor_inner n) b) ?o ?d" for b'
    using program_law [OF wf(2,3) leg p] k by simp_all
  have imgl: "length (img (nor_inner n) b) = BLOCK_SIZE S" using wf by (simp add: img_length)
  have n': "n' = n\<lparr>nor_dirty := False, nor_inner := dev, cached_block := Some b\<rparr>" "ok"
    using assms(2) True b p k by (simp_all add: nor_flush_def)
  have held: "slice (img dev b) ?o (PROG_SIZE S) = ?d"
    using law(3) leg(3) imgl dl by simp
  have i: "nor_inv S Inv img n'"
    using wf held law(1) by (auto simp: nor_inv_def nor_wf_def n' clears_refl Let_def)
  have "nor_img S img n' = nor_img S img n"
    using clean_img [OF i] b law(2,3) by (auto simp: n' nor_img_def fun_eq_iff)
  then show ?thesis using i n' b by simp
qed

lemma inner_read:
  assumes "Inv st" "b < BLOCK_COUNT S" "READ_SIZE S dvd unat off" "READ_SIZE S dvd length buf"
    "unat off + length buf \<le> BLOCK_SIZE S" "st_read S st b off buf = (st', buf', ok)"
  shows "Inv st' \<and> img st' = img st \<and> ok \<and> buf' = slice (img st b) (unat off) (length buf)"
proof -
  have ok by (rule read_live [OF TrueI assms])
  then show ?thesis using read_keeps [OF assms] read_data [OF assms(1-5)] assms(6) by simp
qed

lemma load_keeps:
  assumes "nor_inv S Inv img n" "b < BLOCK_COUNT S" "PROG_SIZE S dvd unat w"
    and "unat w + PROG_SIZE S \<le> BLOCK_SIZE S" and "nor_load_window S n b w = (n', ok)"
  shows "ok \<and> nor_inv S Inv img n' \<and> nor_img S img n' = nor_img S img n \<and>
    cached_block n' = Some b \<and> cached_off n' = w"
proof (cases "cached_block n = Some b \<and> cached_off n = w")
  case True
  then show ?thesis using assms by (simp add: nor_load_window_def)
next
  case False
  obtain n1 fl where f: "nor_flush S n = (n1, fl)" by fastforce
  note fk = flush_keeps [OF assms(1) f]
  then have i1: "nor_inv S Inv img n1" and c1: "\<not> nor_dirty n1" by simp_all
  then have wf1: "nor_wf S n1" "Inv (nor_inner n1)" by (simp_all add: nor_inv_def)
  let ?buf = "take (PROG_SIZE S) (nor_cache n1)"
  have bl: "length ?buf = PROG_SIZE S" using wf1 prog_unit by (simp add: nor_wf_def)
  obtain dev buf rd where r: "st_read S (nor_inner n1) b w ?buf = (dev, buf, rd)"
    by (metis prod_cases3)
  have rk: "Inv dev" "img dev = img (nor_inner n1)" rd
      "buf = slice (img (nor_inner n1) b) (unat w) (PROG_SIZE S)"
    using inner_read [OF wf1(2) assms(2) _ _ _ r] assms(3,4) prog_unit(4) bl by (auto intro: dvd_trans)
  have imgl: "length (img (nor_inner n1) b) = BLOCK_SIZE S" using wf1 assms(2) by (simp add: img_length)
  have n': "n' = n1\<lparr>nor_inner := dev, nor_cache := splice (nor_cache n1) 0 buf,
      cached_block := Some b, cached_off := w, nor_dirty := False\<rparr>" "ok"
    using assms(5) False f fk r rk(3) by (simp_all add: nor_load_window_def Let_def)
  have "length buf = PROG_SIZE S" using rk(4) imgl assms(4) by simp
  then have win: "take (PROG_SIZE S) (splice (nor_cache n1) 0 buf) = buf"
      "length (splice (nor_cache n1) 0 buf) = MAX_PROG_SIZE"
    using wf1 prog_unit by (simp_all add: nor_wf_def splice_def)
  have i: "nor_inv S Inv img n'"
    using assms(2-4) rk win by (simp add: nor_inv_def nor_wf_def n' clears_refl Let_def)
  have "nor_img S img n' = nor_img S img n"
    using clean_img [OF i] clean_img [OF i1 c1] fk rk(2) by (simp add: n')
  then show ?thesis using i n' by simp
qed

lemma merge_keeps:
  assumes "nor_inv S Inv img n" "cached_block n = Some b"
    and "k + length d \<le> PROG_SIZE S"
  defines "n' \<equiv> n\<lparr>nor_cache := splice (nor_cache n) k (map2 (AND) (slice (nor_cache n) k (length d)) d),
    nor_dirty := True\<rparr>"
  shows "nor_inv S Inv img n'"
    and "nor_img S img n' = (nor_img S img n)(b := nor_merge (nor_img S img n b) (unat (cached_off n) + k) d)"
proof -
  have f: "length (nor_cache n) = MAX_PROG_SIZE" "b < BLOCK_COUNT S" "Inv (nor_inner n)"
      "unat (cached_off n) + PROG_SIZE S \<le> length (img (nor_inner n) b)"
    using assms(1,2) by (auto simp: nor_inv_def nor_wf_def img_length Let_def)
  note w = window_merge [OF f(1) prog_unit(2) f(4) assms(3)]
  show "nor_inv S Inv img n'"
    using assms(1,2) w(2,3) by (auto simp: nor_inv_def nor_wf_def n'_def Let_def)
  show "nor_img S img n' = (nor_img S img n)(b := nor_merge (nor_img S img n b) (unat (cached_off n) + k) d)"
    using assms(2) w(1) by (auto simp: fun_eq_iff nor_img_def n'_def)
qed

lemma program_loop_keeps:
  assumes "nor_inv S Inv img n" "b < BLOCK_COUNT S" "unat off + length data \<le> BLOCK_SIZE S"
    and "written \<le> length data" and "nor_program_loop S b off data written n = (n', ok)"
  shows "ok \<and> nor_inv S Inv img n' \<and>
    nor_img S img n' = (nor_img S img n)
      (b := nor_merge (nor_img S img n b) (unat off + written) (drop written data))"
  using assms
proof (induction "length data - written" arbitrary: written n rule: less_induct)
  case less
  show ?case
  proof (cases "written < length data")
    case False
    then show ?thesis using less.prems supported by (simp add: nor_program_loop.simps [of S])
  next
    case True
    define c where "c = off + of_nat written"
    define tk where "tk = nor_take S c (length data - written)"
    define k where "k = within_of S c"
    have "unat off + written < 4294967296" using less.prems(3) True read_unit(3) by simp
    then have c: "unat c = unat off + written"
      by (simp add: c_def unat_word_ariths unat_of_nat)
    have k: "k = unat c mod PROG_SIZE S" "unat (window_of S c) = unat c - k"
      using window_within [OF supported] by (simp_all add: k_def)
    have tk: "0 < tk" "tk \<le> length data - written" "k + tk \<le> PROG_SIZE S"
      using True nor_take_pos [OF supported] nor_take_le nor_take_room [OF supported]
      by (simp_all add: tk_def k_def)
    have wd: "PROG_SIZE S dvd unat (window_of S c)" by (rule window_of_dvd [OF supported])
    have room: "unat (window_of S c) + PROG_SIZE S \<le> BLOCK_SIZE S"
      using wd prog_unit(3) c less.prems(3) True by (intro dvd_le_room) (simp_all add: k(2))
    obtain n1 ld where l: "nor_load_window S n b (window_of S c) = (n1, ld)" by fastforce
    note lk = load_keeps [OF less.prems(1,2) wd room l]
    let ?d = "slice data written tk"
    let ?n2 = "n1\<lparr>nor_cache := splice (nor_cache n1) k (map2 (AND) (slice (nor_cache n1) k tk) ?d), nor_dirty := True\<rparr>"
    have dl: "length ?d = tk" using tk(2) True by simp
    have i1: "nor_inv S Inv img n1" "cached_block n1 = Some b" using lk by simp_all
    have "k + length ?d \<le> PROG_SIZE S" using tk(3) dl by simp
    note mk = merge_keeps [OF i1 this, unfolded dl]
    have wk: "unat (cached_off n1) + k = unat off + written"
      using lk k c by simp
    have rest: "nor_program_loop S b off data (written + tk) ?n2 = (n', ok)"
      using less.prems(5) True l lk supported
      by (simp add: nor_program_loop.simps [of S _ _ _ written] Let_def c_def [symmetric] k_def [symmetric] tk_def [symmetric])
    have "nor_inv S Inv img ?n2" by (rule mk(1))
    then have ih: "ok \<and> nor_inv S Inv img n' \<and> nor_img S img n' = (nor_img S img ?n2)
        (b := nor_merge (nor_img S img ?n2 b) (unat off + (written + tk)) (drop (written + tk) data))"
      using less.hyps [of "written + tk" ?n2] less.prems(2,3) rest tk(1,2) True by simp
    have imgl: "length (nor_img S img n b) = BLOCK_SIZE S"
      using less.prems(1,2) by (auto simp: nor_img_def nor_inv_def nor_wf_def img_length Let_def)
    have "drop written data = ?d @ drop (written + tk) data"
      by (simp add: slice_def add.commute flip: drop_drop)
    moreover have "unat off + written + length ?d + length (drop (written + tk) data) \<le> length (nor_img S img n b)"
      using imgl less.prems(3) tk(2) True by simp
    ultimately have "nor_merge (nor_merge (nor_img S img n b) (unat off + written) ?d)
        (unat off + (written + tk)) (drop (written + tk) data)
      = nor_merge (nor_img S img n b) (unat off + written) (drop written data)"
      using nor_merge_append [of "unat off + written" ?d "drop (written + tk) data" "nor_img S img n b"] dl
      by (simp add: add.assoc)
    then show ?thesis using ih mk(2) lk wk by (simp add: fun_eq_iff)
  qed
qed

lemma nor_img_length: "nor_inv S Inv img n \<Longrightarrow> b < BLOCK_COUNT S \<Longrightarrow> length (nor_img S img n b) = BLOCK_SIZE S"
  by (auto simp: nor_img_def nor_inv_def nor_wf_def img_length Let_def)

lemma nor_inv_inner:
  "nor_inv S Inv img n \<Longrightarrow> Inv dev \<Longrightarrow> img dev = img (nor_inner n) \<Longrightarrow>
   nor_inv S Inv img (n\<lparr>nor_inner := dev\<rparr>) \<and> nor_img S img (n\<lparr>nor_inner := dev\<rparr>) = nor_img S img n"
  by (auto simp: nor_inv_def nor_wf_def nor_img_def fun_eq_iff)

lemma nor_read_delivers:
  assumes "nor_inv S Inv img n" "b < BLOCK_COUNT S" "READ_SIZE S dvd unat off" "READ_SIZE S dvd length buf"
    "unat off + length buf \<le> BLOCK_SIZE S" "nor_read S n b off buf = (n', buf', ok)"
  shows "nor_inv S Inv img n' \<and> nor_img S img n' = nor_img S img n \<and> ok \<and>
    buf' = slice (nor_img S img n b) (unat off) (length buf)"
proof -
  obtain dev d rd where r: "st_read S (nor_inner n) b off buf = (dev, d, rd)" by (metis prod_cases3)
  have "Inv (nor_inner n)" using assms(1) by (simp add: nor_inv_def)
  note rk = inner_read [OF this assms(2-5) r]
  have keep: "nor_inv S Inv img (n\<lparr>nor_inner := dev\<rparr>)" "nor_img S img (n\<lparr>nor_inner := dev\<rparr>) = nor_img S img n"
    using nor_inv_inner [OF assms(1)] rk by simp_all
  show ?thesis
  proof (cases "cached_block n = Some b")
    case False
    then show ?thesis using assms(6) r rk keep by (auto simp: nor_read_def nor_img_def Let_def)
  next
    case True
    let ?c = "unat (cached_off n)" and ?P = "PROG_SIZE S" and ?o = "unat off" and ?I = "img (nor_inner n) b"
    let ?lo = "max ?o ?c" and ?hi = "min (?o + length buf) (?c + ?P)"
    have f: "length (nor_cache n) = MAX_PROG_SIZE" "?c + ?P \<le> BLOCK_SIZE S"
        "length ?I = BLOCK_SIZE S" "?P \<le> MAX_PROG_SIZE"
      using assms(1,2) True prog_unit(2) by (auto simp: nor_inv_def nor_wf_def img_length Let_def)
    have im: "nor_img S img n b = splice ?I ?c (take ?P (nor_cache n))" using True by (simp add: nor_img_def)
    have d: "d = slice ?I ?o (length buf)" "?o + length buf \<le> length ?I" "length d = length buf"
      using rk f assms(5) by simp_all
    have "(if ?lo < ?hi then splice d (?lo - ?o) (slice (nor_cache n) (?lo - ?c) (?hi - ?lo)) else d)
        = slice (nor_img S img n b) ?o (length buf)"
    proof (cases "?lo < ?hi")
      case ov: True
      have "splice d (?lo - ?o) (slice (nor_cache n) (?lo - ?c) (?hi - ?lo)) =
          slice (splice ?I ?c (take ?P (nor_cache n))) ?o (length buf)"
        by (rule overlay_read [OF d(1,2)]) (use f ov in \<open>simp_all add: max_def min_def\<close>)
      then show ?thesis using ov im by simp
    next
      case no: False
      then consider "length buf = 0" | "?o + length buf \<le> ?c" | "?c + ?P \<le> ?o"
        using prog_unit(1) by linarith
      then have "slice (splice ?I ?c (take ?P (nor_cache n))) ?o (length buf) = slice ?I ?o (length buf)"
        by cases (use d f in \<open>simp_all add: slice_splice_before slice_splice_after\<close>)
      then show ?thesis unfolding if_not_P [OF no] im using d(1) by simp
    qed
    then show ?thesis using assms(6) r rk keep True d(3)
      by (simp add: nor_read_def Let_def split: if_splits)
  qed
qed

lemma nor_erase_law:
  assumes "nor_inv S Inv img n" "b < BLOCK_COUNT S" "nor_erase S n b = (n', ok)"
  shows "nor_inv S Inv img n' \<and> (\<forall>b'. b' \<noteq> b \<longrightarrow> nor_img S img n' b' = nor_img S img n b') \<and>
    (ok \<longrightarrow> nor_img S img n' b = replicate (BLOCK_SIZE S) 0xFF)"
proof -
  obtain dev k where e: "st_erase S (nor_inner n) b = (dev, k)" by fastforce
  have "Inv (nor_inner n)" using assms(1) by (simp add: nor_inv_def)
  note law = erase_law [OF this assms(2) e]
  show ?thesis
  proof (cases "cached_block n = Some b")
    case True
    then show ?thesis using assms(1,3) e law
      by (auto simp: nor_erase_def nor_inv_def nor_wf_def nor_img_def)
  next
    case False
    then show ?thesis using assms(1,3) e law
      by (auto simp: nor_erase_def nor_inv_def nor_wf_def nor_img_def)
  qed
qed

lemma nor_sync_law:
  assumes "nor_inv S Inv img n" "nor_sync S n = (n', ok)"
  shows "nor_inv S Inv img n' \<and> nor_img S img n' = nor_img S img n \<and> img (nor_inner n') = nor_img S img n"
proof -
  obtain n1 fl where f: "nor_flush S n = (n1, fl)" by fastforce
  note fk = flush_keeps [OF assms(1) f]
  obtain dev k where s: "st_sync S (nor_inner n1) = (dev, k)" by fastforce
  have "Inv (nor_inner n1)" using fk by (simp add: nor_inv_def)
  note law = sync_law [OF this s]
  have "n' = n1\<lparr>nor_inner := dev\<rparr>" using assms(2) f fk s by (simp add: nor_sync_def)
  then show ?thesis using nor_inv_inner [of n1 dev] fk law clean_img [of n1] by simp
qed

lemma nor_read_device_delivers:
  assumes "nor_inv S Inv img n" "b < BLOCK_COUNT S" "READ_SIZE S dvd unat off" "READ_SIZE S dvd length buf"
    "unat off + length buf \<le> BLOCK_SIZE S" "nor_read_device S n b off buf = (n', buf', ok)"
  shows "nor_inv S Inv img n' \<and> nor_img S img n' = nor_img S img n \<and> ok \<and>
    buf' = slice (nor_img S img n b) (unat off) (length buf) \<and>
    buf' = slice (img (nor_inner n') b) (unat off) (length buf)"
proof -
  let ?c = "unat (cached_off n)" and ?o = "unat off"
  define hit where "hit \<longleftrightarrow> nor_dirty n \<and> cached_block n = Some b \<and>
    ?o < ?c + PROG_SIZE S \<and> ?c < ?o + length buf"
  obtain n1 fl where f: "(if hit then nor_flush S n else (n, True)) = (n1, fl)" by fastforce
  have k1: "fl" "nor_inv S Inv img n1" "nor_img S img n1 = nor_img S img n"
    using f assms(1) flush_keeps [OF assms(1)] by (auto split: if_splits)
  then have "Inv (nor_inner n1)" by (simp add: nor_inv_def)
  obtain dev d rd where r: "st_read_device S (nor_inner n1) b off buf = (dev, d, rd)" by (metis prod_cases3)
  note rk = read_device_law [OF \<open>Inv (nor_inner n1)\<close> assms(2-5) r]
  have n': "n' = n1\<lparr>nor_inner := dev\<rparr>" "buf' = d" "ok = rd"
    using assms(6) f k1(1) r unfolding nor_read_device_def Let_def hit_def [symmetric] by simp_all
  have same: "slice (img (nor_inner n1) b) ?o (length buf) = slice (nor_img S img n b) ?o (length buf)"
  proof (cases "nor_dirty n1")
    case False
    then show ?thesis using clean_img [OF k1(2)] k1(3) by simp
  next
    case dirty: True
    then have nh: "\<not> hit" and n1: "n1 = n" using f flush_keeps [OF assms(1), of n1 fl] by (auto split: if_splits)
    show ?thesis
    proof (cases "cached_block n = Some b")
      case False
      then show ?thesis by (simp add: nor_img_def n1)
    next
      case True
      then have out: "?o + length buf \<le> ?c \<or> ?c + PROG_SIZE S \<le> ?o"
        using nh dirty unfolding hit_def n1 by linarith
      have "length (take (PROG_SIZE S) (nor_cache n)) = PROG_SIZE S"
          "?c + PROG_SIZE S \<le> length (img (nor_inner n) b)" "length (img (nor_inner n) b) = BLOCK_SIZE S"
        using assms(1,2) True prog_unit(2) by (auto simp: nor_inv_def nor_wf_def img_length Let_def)
      with out True assms(5) show ?thesis
        by (auto simp: nor_img_def n1 slice_splice_before slice_splice_after)
    qed
  qed
  show ?thesis using nor_inv_inner [OF k1(2)] rk same k1(3) unfolding n' by simp
qed

lemma nor_new_inv:
  assumes "Inv dev" "nor_new S dev = Some n"
  shows "nor_inv S Inv img n \<and> nor_img S img n = img dev"
  using assms by (auto simp: nor_new_def nor_inv_def nor_wf_def nor_img_def split: if_splits)

end

sublocale steady_flash \<subseteq> nor: flash "nor_storage S" "nor_inv S Inv img" "nor_img S img" True
proof unfold_locales
  show "0 < READ_SIZE (nor_storage S)" "READ_SIZE (nor_storage S) dvd BLOCK_SIZE (nor_storage S)"
    "BLOCK_SIZE (nor_storage S) < 2 ^ 32"
    "fault_for (READ_SIZE (nor_storage S)) (PROG_SIZE (nor_storage S)) (BLOCK_SIZE (nor_storage S))
       (BLOCK_COUNT (nor_storage S)) = None"
    using read_unit geometry by simp_all
next
  fix n b assume "nor_inv S Inv img n" "b < BLOCK_COUNT (nor_storage S)"
  then show "length (nor_img S img n b) = BLOCK_SIZE (nor_storage S)" by (simp add: nor_img_length)
next
  fix n b off buf n' buf' ok
  assume "nor_inv S Inv img n" "b < BLOCK_COUNT (nor_storage S)" "READ_SIZE (nor_storage S) dvd unat off"
    "READ_SIZE (nor_storage S) dvd length buf" "unat off + length buf \<le> BLOCK_SIZE (nor_storage S)"
    "st_read (nor_storage S) n b off buf = (n', buf', ok)"
  note r = nor_read_delivers [OF this [simplified]]
  show "nor_inv S Inv img n' \<and> nor_img S img n' = nor_img S img n" using r by simp
  show ok using r by simp
next
  fix n b off buf n' buf'
  assume "nor_inv S Inv img n" "b < BLOCK_COUNT (nor_storage S)" "READ_SIZE (nor_storage S) dvd unat off"
    "READ_SIZE (nor_storage S) dvd length buf" "unat off + length buf \<le> BLOCK_SIZE (nor_storage S)"
    "st_read (nor_storage S) n b off buf = (n', buf', True)"
  note r = nor_read_delivers [OF this [simplified]]
  show "buf' = slice (nor_img S img n b) (unat off) (length buf)" using r by simp
next
  fix n b off data n' ok
  assume a: "nor_inv S Inv img n" "b < BLOCK_COUNT (nor_storage S)"
    "unat off + length data \<le> BLOCK_SIZE (nor_storage S)"
    "clears (slice (nor_img S img n b) (unat off) (length data)) data"
    "st_program (nor_storage S) n b off data = (n', ok)"
  note p = program_loop_keeps [OF a(1), of b off data 0 n' ok]
  have "nor_merge (nor_img S img n b) (unat off) data = splice (nor_img S img n b) (unat off) data"
    using a by (intro nor_merge_clears) (simp_all add: nor_img_length)
  then show "nor_inv S Inv img n' \<and> (\<forall>b'. b' \<noteq> b \<longrightarrow> nor_img S img n' b' = nor_img S img n b') \<and>
      (ok \<longrightarrow> nor_img S img n' b = splice (nor_img S img n b) (unat off) data)"
    using p a(2,3,5) by (simp add: nor_program_def)
next
  fix n b n' ok
  assume "nor_inv S Inv img n" "b < BLOCK_COUNT (nor_storage S)" "st_erase (nor_storage S) n b = (n', ok)"
  then show "nor_inv S Inv img n' \<and> (\<forall>b'. b' \<noteq> b \<longrightarrow> nor_img S img n' b' = nor_img S img n b') \<and>
      (ok \<longrightarrow> nor_img S img n' b = replicate (BLOCK_SIZE (nor_storage S)) 0xFF)"
    using nor_erase_law [of n b n' ok] by simp
next
  fix n n' ok assume "nor_inv S Inv img n" "st_sync (nor_storage S) n = (n', ok)"
  then show "nor_inv S Inv img n' \<and> nor_img S img n' = nor_img S img n" using nor_sync_law [of n n' ok] by simp
qed

section \<open>The adapter over the suites' devices\<close>

lemma mem_steady:
  assumes "fault_for IO IO BS BC = None" "IO \<le> MAX_PROG_SIZE"
  shows "steady_flash (mem_storage BS IO BC) (mem_inv BS BC) (mem_img BS)"
proof (intro steady_flash.intro steady_flash_axioms.intro)
  show "flash (mem_storage BS IO BC) (mem_inv BS BC) (mem_img BS) True"
    by (rule mem_flash [OF assms(1)])
  show "nor_supported (mem_storage BS IO BC)"
    using assms by (auto simp: nor_supported_def fault_for_None_iff)
  have ext: "mem_inv BS BC data \<Longrightarrow> b < BC \<Longrightarrow> unat b * BS + BS \<le> length data" for b data
    by (simp add: mem_inv_def block_extent)
  show ok
    if "mem_inv BS BC st" "b < BLOCK_COUNT (mem_storage BS IO BC)"
      "unat off + length data \<le> BLOCK_SIZE (mem_storage BS IO BC)"
      "st_program (mem_storage BS IO BC) st b off data = (st', ok)" for st b off data st' ok
    using that ext [of st b] by (auto simp: mem_program_def Let_def split: if_splits)
  show "mem_inv BS BC st' \<and> mem_img BS st' = mem_img BS st \<and> ok \<and>
      buf' = slice (mem_img BS st b) (unat off) (length buf)"
    if "mem_inv BS BC st" "b < BLOCK_COUNT (mem_storage BS IO BC)"
      "unat off + length buf \<le> BLOCK_SIZE (mem_storage BS IO BC)"
      "st_read_device (mem_storage BS IO BC) st b off buf = (st', buf', ok)" for st b off buf st' buf' ok
    using that ext [of st b] by (auto simp: mem_read_def mem_img_def slice_slice Let_def split: if_splits)
qed

interpretation nor256: steady_flash "mem_storage 256 16 8" "mem_inv 256 8" "mem_img 256"
  by (rule mem_steady) (simp_all add: fault_for_def BLOCK_SIZE_MIN_def BLOCK_COUNT_MIN_def MAX_PROG_SIZE_def)

interpretation nor4k: steady_flash "mem_storage 4096 256 16" "mem_inv 4096 16" "mem_img 4096"
  by (rule mem_steady) (simp_all add: fault_for_def BLOCK_SIZE_MIN_def BLOCK_COUNT_MIN_def MAX_PROG_SIZE_def)

text \<open>An inner program that fails takes the window with it: the failure is reported, the window is
  gone and the next flush touches nothing.\<close>

lemma nor_program_failure_drops:
  assumes "nor_wf S n" "nor_flush S n = (n', False)"
  shows "cached_block n' = None \<and> nor_flush S n' = (n', True)"
  using assms by (auto simp: nor_flush_def nor_wf_def split: if_splits option.splits prod.splits)

lemma nor_reachable_wf:
  assumes "keeps_length S" "nor_reachable S n"
  shows "nor_wf S n"
  using assms(2)
proof (induction rule: nor_reachable.induct)
  case (built dev n)
  then show ?case by (auto simp: nor_new_def nor_wf_def split: if_splits)
next
  case (called n c)
  then show ?case by (simp add: nor_step_wf assms(1))
qed

context steady_flash begin

lemma nor_flash: "flash (nor_storage S) (nor_inv S Inv img) (nor_img S img) True"
  by unfold_locales

lemma program_then_sync:
  assumes "nor_inv S Inv img n" "b < BLOCK_COUNT S" "unat off + length data \<le> BLOCK_SIZE S"
    and "nor_program S n b off data = (n1, ok)" "nor_sync S n1 = (n2, synced)"
  shows "ok \<and> nor_img S img n1 = (nor_img S img n)(b := nor_merge (nor_img S img n b) (unat off) data) \<and>
    nor_img S img n2 = nor_img S img n1 \<and> img (nor_inner n2) = nor_img S img n1 \<and> nor_inv S Inv img n2"
  using program_loop_keeps [OF assms(1-3), of 0 n1 ok] nor_sync_law [of n1 n2 synced] assms(4,5)
  by (simp add: nor_program_def)

end


section \<open>Properties\<close>





text \<open>Over any device and any sequence of calls with any arguments, the adapter's state stays
  well formed: the window starts on the program grid, the cache keeps its 512 bytes, and a dirty
  cache has a target, so the \<open>expect\<close> of \<open>flush\<close> cannot panic: a flush of a reachable adapter is
  the inner device's program of the window, or nothing.\<close>

theorem nor_window_shape:
  assumes "keeps_length S" and "nor_reachable S n"
  shows "length (nor_cache n) = MAX_PROG_SIZE \<and> PROG_SIZE S dvd unat (cached_off n) \<and>
    (nor_dirty n \<longrightarrow> (\<exists>b. cached_block n = Some b \<and>
       snd (nor_flush S n) =
         snd (st_program S (nor_inner n) b (cached_off n) (take (PROG_SIZE S) (nor_cache n)))))"
  using nor_reachable_wf [OF assms]
  by (auto simp: nor_wf_def nor_flush_def split: prod.split)

theorem nor_window_shape_witness:
  "let S = mem_storage 256 16 8;
       n = \<lparr>nor_inner = mem_new 256 8, cached_block = None, cached_off = 0,
            nor_cache = replicate MAX_PROG_SIZE 0xFF, nor_dirty = False\<rparr>
   in PROG_SIZE S dvd unat (cached_off (nor_step S (NorProgram 9 300 [1, 2, 3]) (nor_step S (NorErase 1) n)))"
proof -
  let ?S = "mem_storage 256 16 8"
  let ?n = "\<lparr>nor_inner = mem_new 256 8, cached_block = None, cached_off = 0,
     nor_cache = replicate MAX_PROG_SIZE 0xFF, nor_dirty = False\<rparr>"
  have "nor_new ?S (mem_new 256 8) = Some ?n" using nor256.supported by (simp add: nor_new_def)
  then have r: "nor_reachable ?S (nor_step ?S (NorProgram 9 300 [1, 2, 3]) (nor_step ?S (NorErase 1) ?n))"
    by (intro nor_reachable.called nor_reachable.built)
  have "keeps_length ?S" by (auto simp: keeps_length_def mem_read_def Let_def)
  from nor_window_shape [OF this r] show ?thesis by (simp add: Let_def)
qed

end
