(* ===== verification/Dirs.thy ===== *)
theory Dirs
  imports Commits Storages
begin

text \<open>
  Directory entries of one metadata pair (\<open>src/src/dir.rs\<close>): the splice core shared by all live
  entry walkers, the raw and the live walker, name lookup, and the two backward attribute walks.

  The splice core is shown to implement insertion and removal in the list of live slots; the
  backward attribute walk is shown to find what a forward replay of the log would leave.
\<close>

definition MAX_LIVE_ENTRIES :: nat where "MAX_LIVE_ENTRIES = 256"

datatype splice_outcome = Consumed | Name nat | Other

text \<open>The two shifting loops of \<open>splice_step\<close>.\<close>

fun shift_up :: "'a list \<Rightarrow> nat \<Rightarrow> nat \<Rightarrow> 'a list" where
  "shift_up slots i idx = (if i > idx then shift_up (slots[i := slots ! (i - 1)]) (i - 1) idx else slots)"

function shift_down :: "'a list \<Rightarrow> nat \<Rightarrow> nat \<Rightarrow> 'a list" where
  "shift_down slots i cnt = (if i + 1 < cnt then shift_down (slots[i := slots ! (i + 1)]) (i + 1) cnt else slots)"
  by pat_completeness auto

termination
  by (relation "measure (\<lambda>(_, i, cnt). cnt - i)") auto

declare shift_up.simps [simp del] shift_down.simps [simp del]

definition splice_step :: "'a list \<Rightarrow> nat \<Rightarrow> 'a \<Rightarrow> tag \<Rightarrow> ('a list \<times> nat \<times> splice_outcome) result" where
  "splice_step slots cnt emp t =
     (let idx = unat (tag_id t)
      in case tag_type t of
           Create \<Rightarrow>
             (if cnt \<ge> MAX_LIVE_ENTRIES then Inl OutOfRange
              else if idx > cnt then Inl Corrupt
              else Inr ((shift_up slots cnt idx)[idx := emp], cnt + 1, Consumed))
         | Delete \<Rightarrow>
             (if idx \<ge> cnt then Inl Corrupt
              else Inr ((shift_down slots idx cnt)[cnt - 1 := emp], cnt - 1, Consumed))
         | RegularFile \<Rightarrow>
             (if idx \<ge> MAX_LIVE_ENTRIES then Inl OutOfRange
              else Inr (slots, if idx \<ge> cnt then idx + 1 else cnt, Name idx))
         | Directory \<Rightarrow>
             (if idx \<ge> MAX_LIVE_ENTRIES then Inl OutOfRange
              else Inr (slots, if idx \<ge> cnt then idx + 1 else cnt, Name idx))
         | Superblock \<Rightarrow>
             (if idx \<ge> MAX_LIVE_ENTRIES then Inl OutOfRange
              else Inr (slots, if idx \<ge> cnt then idx + 1 else cnt, Name idx))
         | _ \<Rightarrow> Inr (slots, cnt, Other))"

datatype entry_kind = KindFile | KindDirectory

record dir_entry =
  de_id :: u16
  de_name :: "byte list"
  de_kind :: entry_kind

text \<open>The kind of a NAME tag; \<open>None\<close> is the superblock name (the source's last arm is unreachable).\<close>

definition kind_of :: "tag \<Rightarrow> entry_kind option" where
  "kind_of t = (case tag_type t of RegularFile \<Rightarrow> Some KindFile | Directory \<Rightarrow> Some KindDirectory | _ \<Rightarrow> None)"

text \<open>\<open>Entries\<close>: the raw walker.\<close>

fun entries_of :: "tag_entry list \<Rightarrow> dir_entry list" where
  "entries_of [] = []"
| "entries_of (e # es) =
     (case kind_of (te_tag e) of
        Some k \<Rightarrow> \<lparr>de_id = tag_id (te_tag e), de_name = te_body e, de_kind = k\<rparr> # entries_of es
      | None \<Rightarrow> entries_of es)"

definition dir_entries :: "metadata_pair \<Rightarrow> dir_entry list" where
  "dir_entries pair = entries_of (iter_tags (mp_reader pair))"

text \<open>The walk of \<open>live_entries\<close> over the tags, then the callback in id order; the callback is a
  computation over the caller's state that may fail.\<close>

fun live_walk :: "tag_entry list \<Rightarrow> dir_entry option list \<Rightarrow> nat \<Rightarrow> (dir_entry option list \<times> nat) result" where
  "live_walk [] slots cnt = Inr (slots, cnt)"
| "live_walk (e # es) slots cnt =
     rbind (splice_step slots cnt None (te_tag e)) (\<lambda>(slots1, cnt1, oc).
       case oc of
         Name idx \<Rightarrow>
           live_walk es (slots1[idx := map_option (\<lambda>k. \<lparr>de_id = of_nat idx, de_name = te_body e, de_kind = k\<rparr>)
                                   (kind_of (te_tag e))]) cnt1
       | _ \<Rightarrow> live_walk es slots1 cnt1)"

fun emit_slots :: "(dir_entry \<Rightarrow> ('c, unit) io) \<Rightarrow> nat \<Rightarrow> dir_entry option list \<Rightarrow> ('c, unit) io" where
  "emit_slots f i [] = io_return ()"
| "emit_slots f i (None # slots) = emit_slots f (i + 1) slots"
| "emit_slots f i (Some e # slots) =
     io_bind (f (e\<lparr>de_id := of_nat i\<rparr>)) (\<lambda>_. emit_slots f (i + 1) slots)"

definition live_entries :: "metadata_pair \<Rightarrow> (dir_entry \<Rightarrow> ('c, unit) io) \<Rightarrow> ('c, nat) io" where
  "live_entries pair f =
     io_bind (io_lift (live_walk (iter_tags (mp_reader pair)) (replicate MAX_LIVE_ENTRIES None) 0)) (\<lambda>(slots, cnt).
       io_bind (emit_slots f 0 (take cnt slots)) (\<lambda>_. io_return cnt))"

record resolved =
  rs_entry :: dir_entry
  struct_type :: tag_type
  struct_body :: "byte list"

record lookup_slot =
  ls_name :: "byte list option"
  ls_kind :: "entry_kind option"
  ls_struct :: "(tag_type \<times> byte list) option"

definition lookup_EMPTY :: lookup_slot where
  "lookup_EMPTY = \<lparr>ls_name = None, ls_kind = None, ls_struct = None\<rparr>"

definition is_struct_type :: "tag_type \<Rightarrow> bool" where
  "is_struct_type ty \<longleftrightarrow> ty = InlineStruct \<or> ty = CtzStruct \<or> ty = DirStruct"

fun lookup_walk :: "tag_entry list \<Rightarrow> lookup_slot list \<Rightarrow> nat \<Rightarrow> (lookup_slot list \<times> nat) result" where
  "lookup_walk [] slots cnt = Inr (slots, cnt)"
| "lookup_walk (e # es) slots cnt =
     rbind (splice_step slots cnt lookup_EMPTY (te_tag e)) (\<lambda>(slots1, cnt1, oc).
       case oc of
         Consumed \<Rightarrow> lookup_walk es slots1 cnt1
       | Name idx \<Rightarrow>
           lookup_walk es (slots1[idx := (slots1 ! idx)\<lparr>ls_name := Some (te_body e), ls_kind := kind_of (te_tag e)\<rparr>]) cnt1
       | Other \<Rightarrow>
           (let idx = unat (tag_id (te_tag e))
            in if is_struct_type (tag_type (te_tag e)) \<and> idx < MAX_LIVE_ENTRIES
               then lookup_walk es (slots1[idx := (slots1 ! idx)\<lparr>ls_struct := Some (tag_type (te_tag e), te_body e)\<rparr>]) cnt1
               else lookup_walk es slots1 cnt1))"

fun find_slot :: "byte list \<Rightarrow> nat \<Rightarrow> lookup_slot list \<Rightarrow> resolved option" where
  "find_slot nm i [] = None"
| "find_slot nm i (s # slots) =
     (case (ls_name s, ls_kind s, ls_struct s) of
        (Some slot_name, Some kind, Some (ty, body)) \<Rightarrow>
          if slot_name = nm
          then Some \<lparr>rs_entry = \<lparr>de_id = of_nat i, de_name = slot_name, de_kind = kind\<rparr>,
                     struct_type = ty, struct_body = body\<rparr>
          else find_slot nm (i + 1) slots
      | _ \<Rightarrow> find_slot nm (i + 1) slots)"

definition lookup_checked :: "metadata_pair \<Rightarrow> byte list \<Rightarrow> resolved option result" where
  "lookup_checked pair nm =
     rbind (lookup_walk (iter_tags (mp_reader pair)) (replicate MAX_LIVE_ENTRIES lookup_EMPTY) 0) (\<lambda>(slots, cnt).
       Inr (find_slot nm 0 (take cnt slots)))"

definition dir_lookup :: "metadata_pair \<Rightarrow> byte list \<Rightarrow> resolved option" where
  "dir_lookup pair nm = (case lookup_checked pair nm of Inl _ \<Rightarrow> None | Inr r \<Rightarrow> r)"

text \<open>The backward attribute walks; \<open>gdiff\<close> is an \<open>i32\<close> that a log of at most 1024 ids per tag keeps
  far from its bounds.\<close>

fun attr_walk :: "int \<Rightarrow> byte \<Rightarrow> int \<Rightarrow> tag_entry list \<Rightarrow> byte list option" where
  "attr_walk live_id attr gdiff [] = None"
| "attr_walk live_id attr gdiff (e # es) =
     (let idx = int (unat (tag_id (te_tag e))); adj = live_id - gdiff
      in case tag_type (te_tag e) of
           Create \<Rightarrow>
             (if idx \<le> adj then (if idx = adj then None else attr_walk live_id attr (gdiff + 1) es)
              else attr_walk live_id attr gdiff es)
         | Delete \<Rightarrow>
             (if idx \<le> adj then attr_walk live_id attr (gdiff - 1) es else attr_walk live_id attr gdiff es)
         | UserAttr a \<Rightarrow>
             (if a = attr \<and> idx = adj
              then (if is_special_length (te_tag e) then None else Some (te_body e))
              else attr_walk live_id attr gdiff es)
         | _ \<Rightarrow> attr_walk live_id attr gdiff es)"

definition attr_get :: "reader \<Rightarrow> u16 \<Rightarrow> byte \<Rightarrow> byte list option" where
  "attr_get r live_id attr = attr_walk (int (unat live_id)) attr 0 (iter_tags_rev r)"

definition seen_get :: "u32 list \<Rightarrow> byte \<Rightarrow> bool" where
  "seen_get seen a \<longleftrightarrow> seen ! unat (drop_bit 5 a) AND push_bit (unat (a AND 31)) 1 \<noteq> 0"

definition seen_set :: "u32 list \<Rightarrow> byte \<Rightarrow> u32 list" where
  "seen_set seen a =
     seen[unat (drop_bit 5 a) := seen ! unat (drop_bit 5 a) OR push_bit (unat (a AND 31)) 1]"

text \<open>The walk of \<open>for_each_live_attr\<close>, as the list of calls it makes of \<open>f\<close>.\<close>

fun attrs_walk :: "int \<Rightarrow> u32 list \<Rightarrow> int \<Rightarrow> tag_entry list \<Rightarrow> (byte \<times> byte list) list" where
  "attrs_walk live_id seen gdiff [] = []"
| "attrs_walk live_id seen gdiff (e # es) =
     (let idx = int (unat (tag_id (te_tag e))); adj = live_id - gdiff
      in case tag_type (te_tag e) of
           Create \<Rightarrow>
             (if idx \<le> adj then (if idx = adj then [] else attrs_walk live_id seen (gdiff + 1) es)
              else attrs_walk live_id seen gdiff es)
         | Delete \<Rightarrow>
             (if idx \<le> adj then attrs_walk live_id seen (gdiff - 1) es else attrs_walk live_id seen gdiff es)
         | UserAttr a \<Rightarrow>
             (if idx = adj then
                (if seen_get seen a then attrs_walk live_id seen gdiff es
                 else if is_special_length (te_tag e) then attrs_walk live_id (seen_set seen a) gdiff es
                 else (a, te_body e) # attrs_walk live_id (seen_set seen a) gdiff es)
              else attrs_walk live_id seen gdiff es)
         | _ \<Rightarrow> attrs_walk live_id seen gdiff es)"

fun call_each :: "(byte \<Rightarrow> byte list \<Rightarrow> ('c, unit) io) \<Rightarrow> (byte \<times> byte list) list \<Rightarrow> ('c, unit) io" where
  "call_each f [] = io_return ()"
| "call_each f ((a, b) # xs) = io_bind (f a b) (\<lambda>_. call_each f xs)"

definition for_each_live_attr :: "reader \<Rightarrow> u16 \<Rightarrow> (byte \<Rightarrow> byte list \<Rightarrow> ('c, unit) io) \<Rightarrow> ('c, unit) io" where
  "for_each_live_attr r live_id f = call_each f (attrs_walk (int (unat live_id)) (replicate 8 0) 0 (iter_tags_rev r))"



section \<open>The splice core as list operations\<close>

definition insert_at :: "'a list \<Rightarrow> nat \<Rightarrow> 'a \<Rightarrow> 'a list" where
  "insert_at xs i x = take i xs @ x # drop i xs"

definition remove_at :: "'a list \<Rightarrow> nat \<Rightarrow> 'a list" where
  "remove_at xs i = take i xs @ drop (Suc i) xs"

lemma length_shift_up [simp]: "length (shift_up slots i idx) = length slots"
  by (induction slots i idx rule: shift_up.induct) (subst shift_up.simps, simp)

lemma shift_up_nth:
  "i < length slots \<Longrightarrow> j < length slots \<Longrightarrow>
   shift_up slots i idx ! j = (if idx < j \<and> j \<le> i then slots ! (j - 1) else slots ! j)"
proof (induction slots i idx rule: shift_up.induct)
  case (1 slots i idx)
  show ?case
  proof (cases "idx < i")
    case True
    then have "shift_up slots i idx ! j = shift_up (slots[i := slots ! (i - 1)]) (i - 1) idx ! j"
      by (subst shift_up.simps) simp
    also have "\<dots> = (if idx < j \<and> j \<le> i - 1 then slots[i := slots ! (i - 1)] ! (j - 1) else slots[i := slots ! (i - 1)] ! j)"
      using 1 True by simp
    also have "\<dots> = (if idx < j \<and> j \<le> i then slots ! (j - 1) else slots ! j)"
      using True 1(2,3) by (auto simp: nth_list_update)
    finally show ?thesis .
  qed (subst shift_up.simps, auto)
qed

lemma length_shift_down [simp]: "length (shift_down slots i cnt) = length slots"
  by (induction slots i cnt rule: shift_down.induct) (subst shift_down.simps, simp)

lemma shift_down_nth:
  "cnt \<le> length slots \<Longrightarrow> j < length slots \<Longrightarrow>
   shift_down slots i cnt ! j = (if i \<le> j \<and> Suc j < cnt then slots ! Suc j else slots ! j)"
proof (induction slots i cnt rule: shift_down.induct)
  case (1 slots i cnt)
  show ?case
  proof (cases "i + 1 < cnt")
    case True
    then have "shift_down slots i cnt ! j = shift_down (slots[i := slots ! (i + 1)]) (i + 1) cnt ! j"
      by (subst shift_down.simps) simp
    also have "\<dots> = (if i + 1 \<le> j \<and> Suc j < cnt then slots[i := slots ! (i + 1)] ! Suc j else slots[i := slots ! (i + 1)] ! j)"
      using 1 True by simp
    also have "\<dots> = (if i \<le> j \<and> Suc j < cnt then slots ! Suc j else slots ! j)"
      using True 1(2,3) by (auto simp: nth_list_update not_less_eq_eq)
    finally show ?thesis .
  qed (subst shift_down.simps, auto)
qed

lemma shift_up_insert:
  assumes "cnt < length slots" "idx \<le> cnt"
  shows "take (Suc cnt) ((shift_up slots cnt idx)[idx := x]) = insert_at (take cnt slots) idx x"
    "drop (Suc cnt) ((shift_up slots cnt idx)[idx := x]) = drop (Suc cnt) slots"
  by (rule nth_equalityI; use assms in \<open>auto simp: insert_at_def shift_up_nth nth_append nth_list_update nth_Cons'\<close>)+

lemma shift_down_remove:
  assumes "cnt \<le> length slots" "idx < cnt"
  shows "take (cnt - 1) ((shift_down slots idx cnt)[cnt - 1 := x]) = remove_at (take cnt slots) idx"
    "drop cnt ((shift_down slots idx cnt)[cnt - 1 := x]) = drop cnt slots"
  by (rule nth_equalityI; use assms in \<open>auto simp: remove_at_def shift_down_nth nth_append nth_list_update\<close>)+

definition is_name_tag :: "tag \<Rightarrow> bool" where
  "is_name_tag t \<longleftrightarrow> tag_type t = RegularFile \<or> tag_type t = Directory \<or> tag_type t = Superblock"

lemma splice_step_cases:
  "splice_step slots cnt emp t =
    (let idx = unat (tag_id t) in
     if tag_type t = Create then
       (if cnt \<ge> MAX_LIVE_ENTRIES then Inl OutOfRange else if idx > cnt then Inl Corrupt
        else Inr ((shift_up slots cnt idx)[idx := emp], cnt + 1, Consumed))
     else if tag_type t = Delete then
       (if idx \<ge> cnt then Inl Corrupt else Inr ((shift_down slots idx cnt)[cnt - 1 := emp], cnt - 1, Consumed))
     else if is_name_tag t then
       (if idx \<ge> MAX_LIVE_ENTRIES then Inl OutOfRange else Inr (slots, max cnt (idx + 1), Name idx))
     else Inr (slots, cnt, Other))"
  by (auto simp: splice_step_def is_name_tag_def Let_def max_def split: tag_type.splits)

text \<open>Count and verdict do not depend on what the slots hold.\<close>

definition count_step :: "nat \<Rightarrow> tag \<Rightarrow> (nat \<times> splice_outcome) result" where
  "count_step cnt t = (case splice_step [] cnt () t of Inl e \<Rightarrow> Inl e | Inr (_, c, oc) \<Rightarrow> Inr (c, oc))"

lemma splice_step_count:
  "(case splice_step slots cnt emp t of Inl e \<Rightarrow> Inl e | Inr (_, c, oc) \<Rightarrow> Inr (c, oc)) = count_step cnt t"
  by (simp add: count_step_def splice_step_cases Let_def)

lemma splice_step_bounds:
  assumes "splice_step slots cnt emp t = Inr (slots', cnt', oc)" "cnt \<le> MAX_LIVE_ENTRIES"
  shows "length slots' = length slots" "cnt' \<le> MAX_LIVE_ENTRIES" "oc = Name i \<Longrightarrow> i < cnt' \<and> slots' = slots"
  using assms by (auto simp: splice_step_cases Let_def split: if_splits)

text \<open>A map over the slots commutes with a step.\<close>

lemma splice_step_map:
  assumes "length slots = MAX_LIVE_ENTRIES" "cnt \<le> MAX_LIVE_ENTRIES"
  shows "splice_step (map f slots) cnt (f emp) t =
    (case splice_step slots cnt emp t of Inl e \<Rightarrow> Inl e | Inr (s, c, oc) \<Rightarrow> Inr (map f s, c, oc))"
proof -
  have up: "(shift_up (map f slots) cnt i)[i := f emp] = map f ((shift_up slots cnt i)[i := emp])"
    if "cnt < MAX_LIVE_ENTRIES" for i
    by (rule nth_equalityI) (use assms that in \<open>auto simp: shift_up_nth nth_list_update_total\<close>)
  have down: "(shift_down (map f slots) i cnt)[cnt - Suc 0 := f emp] = map f ((shift_down slots i cnt)[cnt - Suc 0 := emp])" for i
    by (rule nth_equalityI) (use assms in \<open>auto simp: shift_down_nth nth_list_update_total\<close>)
  show ?thesis by (simp add: splice_step_cases Let_def up down)
qed


section \<open>Walkers over the splice core\<close>

text \<open>Every live entry walker feeds the tags through \<open>splice_step\<close> and then updates slots by a rule
  of its own. What they share is proved once here.\<close>

fun count_walk :: "tag_entry list \<Rightarrow> nat \<Rightarrow> nat result" where
  "count_walk [] cnt = Inr cnt"
| "count_walk (e # es) cnt = rbind (count_step cnt (te_tag e)) (\<lambda>(c, _). count_walk es c)"

locale slot_walker =
  fixes walk :: "tag_entry list \<Rightarrow> 'a list \<Rightarrow> nat \<Rightarrow> ('a list \<times> nat) result"
    and emp :: 'a and upd :: "tag_entry \<Rightarrow> splice_outcome \<Rightarrow> 'a list \<Rightarrow> 'a list"
  assumes walk_Nil: "walk [] slots cnt = Inr (slots, cnt)"
    and walk_Cons: "walk (e # es) slots cnt =
      rbind (splice_step slots cnt emp (te_tag e)) (\<lambda>(s, c, oc). walk es (upd e oc s) c)"
    and upd_length: "length (upd e oc slots) = length slots"
begin

lemma walk_append:
  "walk (es @ fs) slots cnt = rbind (walk es slots cnt) (\<lambda>(s, c). walk fs s c)"
proof (induction es arbitrary: slots cnt)
  case (Cons e es)
  then show ?case by (cases "splice_step slots cnt emp (te_tag e)") (auto simp: walk_Cons split: prod.splits)
qed (simp add: walk_Nil)

lemma walk_bounds:
  "walk es slots cnt = Inr (slots', cnt') \<Longrightarrow> length slots = MAX_LIVE_ENTRIES \<Longrightarrow> cnt \<le> MAX_LIVE_ENTRIES \<Longrightarrow>
   length slots' = MAX_LIVE_ENTRIES \<and> cnt' \<le> MAX_LIVE_ENTRIES"
proof (induction es arbitrary: slots cnt)
  case (Cons e es)
  then obtain s c oc where st: "splice_step slots cnt emp (te_tag e) = Inr (s, c, oc)"
    and w: "walk es (upd e oc s) c = Inr (slots', cnt')" by (auto simp: walk_Cons)
  then show ?case using Cons.IH [OF w] Cons.prems(2,3) splice_step_bounds [OF st Cons.prems(3)]
    by (simp add: upd_length)
qed (simp add: walk_Nil)

lemma walk_count:
  "(case walk es slots cnt of Inl e \<Rightarrow> Inl e | Inr (_, c) \<Rightarrow> Inr c) = count_walk es cnt"
proof (induction es arbitrary: slots cnt)
  case (Cons e es)
  show ?case
  proof (cases "splice_step slots cnt emp (te_tag e)")
    case (Inl err)
    then show ?thesis using splice_step_count [of slots cnt emp "te_tag e", symmetric] by (simp add: walk_Cons)
  next
    case (Inr r)
    then obtain s c oc where r: "splice_step slots cnt emp (te_tag e) = Inr (s, c, oc)" by (cases r) auto
    then have "count_step cnt (te_tag e) = Inr (c, oc)"
      using splice_step_count [of slots cnt emp "te_tag e", symmetric] by simp
    then show ?thesis using r Cons.IH [of "upd e oc s" c] by (simp add: walk_Cons)
  qed
qed (simp add: walk_Nil)

end

fun live_upd :: "tag_entry \<Rightarrow> splice_outcome \<Rightarrow> dir_entry option list \<Rightarrow> dir_entry option list" where
  "live_upd e (Name idx) slots = slots[idx := map_option (\<lambda>k. \<lparr>de_id = of_nat idx, de_name = te_body e, de_kind = k\<rparr>) (kind_of (te_tag e))]"
| "live_upd e _ slots = slots"

fun lookup_upd :: "tag_entry \<Rightarrow> splice_outcome \<Rightarrow> lookup_slot list \<Rightarrow> lookup_slot list" where
  "lookup_upd e Consumed slots = slots"
| "lookup_upd e (Name idx) slots = slots[idx := (slots ! idx)\<lparr>ls_name := Some (te_body e), ls_kind := kind_of (te_tag e)\<rparr>]"
| "lookup_upd e Other slots =
     (let idx = unat (tag_id (te_tag e))
      in if is_struct_type (tag_type (te_tag e)) \<and> idx < MAX_LIVE_ENTRIES
         then slots[idx := (slots ! idx)\<lparr>ls_struct := Some (tag_type (te_tag e), te_body e)\<rparr>] else slots)"

interpretation live: slot_walker live_walk None live_upd
proof unfold_locales
  fix e es slots cnt
  show "live_walk (e # es) slots cnt =
      rbind (splice_step slots cnt None (te_tag e)) (\<lambda>(s, c, oc). live_walk es (live_upd e oc s) c)"
    by (cases "splice_step slots cnt None (te_tag e)") (auto split: splice_outcome.splits)
  fix e :: tag_entry and oc slots show "length (live_upd e oc slots) = length slots" by (cases oc) simp_all
qed simp

interpretation look: slot_walker lookup_walk lookup_EMPTY lookup_upd
proof unfold_locales
  fix e es slots cnt
  show "lookup_walk (e # es) slots cnt =
      rbind (splice_step slots cnt lookup_EMPTY (te_tag e)) (\<lambda>(s, c, oc). lookup_walk es (lookup_upd e oc s) c)"
    by (cases "splice_step slots cnt lookup_EMPTY (te_tag e)") (auto simp: Let_def split: splice_outcome.splits)
  fix e :: tag_entry and oc slots show "length (lookup_upd e oc slots) = length slots" by (cases oc) (simp_all add: Let_def)
qed simp



section \<open>Listing and lookup see the same entries\<close>

definition slot_view :: "lookup_slot \<Rightarrow> (byte list \<times> entry_kind) option" where
  "slot_view s = (case (ls_name s, ls_kind s) of (Some n, Some k) \<Rightarrow> Some (n, k) | _ \<Rightarrow> None)"

definition entry_view :: "dir_entry option \<Rightarrow> (byte list \<times> entry_kind) option" where
  "entry_view = map_option (\<lambda>e. (de_name e, de_kind e))"

lemma views_empty [simp]: "slot_view lookup_EMPTY = None" "entry_view None = None"
  by (simp_all add: slot_view_def entry_view_def lookup_EMPTY_def)

lemma views_upd:
  assumes "map entry_view ls = map slot_view ks" "oc = Name i \<Longrightarrow> i < length ks"
  shows "map entry_view (live_upd e oc ls) = map slot_view (lookup_upd e oc ks)"
proof (cases oc)
  case (Name i)
  have "entry_view (map_option (\<lambda>k. \<lparr>de_id = of_nat i, de_name = te_body e, de_kind = k\<rparr>) (kind_of (te_tag e))) =
      slot_view ((ks ! i)\<lparr>ls_name := Some (te_body e), ls_kind := kind_of (te_tag e)\<rparr>)"
    by (cases "kind_of (te_tag e)") (simp_all add: entry_view_def slot_view_def)
  then show ?thesis using assms Name by (simp add: map_update)
next
  case Other
  have "map slot_view (ks[j := (ks ! j)\<lparr>ls_struct := x\<rparr>]) = map slot_view ks" for j x
  proof (cases "j < length ks")
    case True
    have "slot_view ((ks ! j)\<lparr>ls_struct := x\<rparr>) = map slot_view ks ! j" using True by (simp add: slot_view_def)
    then show ?thesis by (simp only: map_update list_update_id)
  qed (simp add: list_update_beyond)
  then show ?thesis using assms Other by (simp add: Let_def)
qed (use assms in simp)

lemma walks_agree:
  assumes "map entry_view ls = map slot_view ks" "length ks = MAX_LIVE_ENTRIES" "cnt \<le> MAX_LIVE_ENTRIES"
    and "live_walk es ls cnt = Inr (ls', cnt')"
  shows "\<exists>ks'. lookup_walk es ks cnt = Inr (ks', cnt') \<and> map entry_view ls' = map slot_view ks'"
  using assms
proof (induction es arbitrary: ls ks cnt)
  case (Cons e es)
  have ll: "length ls = MAX_LIVE_ENTRIES" using Cons.prems(1,2) by (metis length_map)
  obtain s c oc where st: "splice_step ls cnt None (te_tag e) = Inr (s, c, oc)"
    and w: "live_walk es (live_upd e oc s) c = Inr (ls', cnt')"
    using Cons.prems(4) by (auto simp: live.walk_Cons simp del: live_walk.simps)
  have "splice_step (map slot_view ks) cnt None (te_tag e) = Inr (map entry_view s, c, oc)"
    using splice_step_map [OF ll Cons.prems(3), of entry_view None "te_tag e"] st Cons.prems(1) by simp
  then obtain k where k: "splice_step ks cnt lookup_EMPTY (te_tag e) = Inr (k, c, oc)" "map slot_view k = map entry_view s"
    using splice_step_map [OF Cons.prems(2,3), of slot_view lookup_EMPTY "te_tag e"]
    by (auto split: sum.splits)
  note b = splice_step_bounds [OF k(1) Cons.prems(3)]
  have v: "map entry_view (live_upd e oc s) = map slot_view (lookup_upd e oc k)"
    by (rule views_upd) (use k(2) b Cons.prems(2) in auto)
  have "length (lookup_upd e oc k) = MAX_LIVE_ENTRIES" using b(1) Cons.prems(2) by (simp add: look.upd_length)
  from Cons.IH [OF v this b(2) w] show ?case using k(1) by (simp add: look.walk_Cons del: lookup_walk.simps)
qed simp

lemma find_slot_Some:
  "find_slot nm i slots = Some r \<Longrightarrow>
   \<exists>j<length slots. ls_name (slots ! j) = Some nm \<and> ls_kind (slots ! j) = Some (de_kind (rs_entry r)) \<and>
     ls_struct (slots ! j) = Some (struct_type r, struct_body r) \<and>
     rs_entry r = \<lparr>de_id = of_nat (i + j), de_name = nm, de_kind = de_kind (rs_entry r)\<rparr>"
proof (induction slots arbitrary: i)
  case (Cons s slots)
  show ?case
  proof (cases "ls_name s = Some nm \<and> ls_kind s \<noteq> None \<and> ls_struct s \<noteq> None")
    case True
    then show ?thesis using Cons.prems by (intro exI [of _ 0]) auto
  next
    case False
    then have "find_slot nm (Suc i) slots = Some r"
      using Cons.prems by (auto split: option.splits prod.splits if_splits)
    from Cons.IH [OF this] obtain j where "j < length slots" "ls_name (slots ! j) = Some nm"
       "ls_kind (slots ! j) = Some (de_kind (rs_entry r))" "ls_struct (slots ! j) = Some (struct_type r, struct_body r)"
       "rs_entry r = \<lparr>de_id = of_nat (Suc i + j), de_name = nm, de_kind = de_kind (rs_entry r)\<rparr>" by blast
    then show ?thesis by (intro exI [of _ "Suc j"]) simp
  qed
qed simp

text \<open>The listing: what a callback that collects its arguments is given.\<close>

definition collect_cb :: "dir_entry \<Rightarrow> (dir_entry list, unit) io" where
  "collect_cb e = (\<lambda>acc. (acc @ [e], Inr ()))"

fun listing :: "nat \<Rightarrow> dir_entry option list \<Rightarrow> dir_entry list" where
  "listing i [] = []"
| "listing i (None # xs) = listing (i + 1) xs"
| "listing i (Some e # xs) = e\<lparr>de_id := of_nat i\<rparr> # listing (i + 1) xs"

lemma emit_collect: "emit_slots collect_cb i slots acc = (acc @ listing i slots, Inr ())"
  by (induction i slots arbitrary: acc rule: listing.induct) (simp_all add: io_bind_eq collect_cb_def)

lemma listing_set: "j < length slots \<Longrightarrow> slots ! j = Some e \<Longrightarrow> e\<lparr>de_id := of_nat (i + j)\<rparr> \<in> set (listing i slots)"
proof (induction i slots arbitrary: j rule: listing.induct)
  case (2 i xs)
  then show ?case by (cases j) (auto simp: ac_simps dest!: meta_spec)
next
  case (3 i x xs)
  then show ?case
  proof (cases j)
    case (Suc k)
    then show ?thesis using 3(1) [of k] 3(2,3) by (simp add: ac_simps)
  qed auto
qed simp


section \<open>The backward attribute walk\<close>

text \<open>The reference: replay the log forward over an unbounded array of attribute maps.\<close>

definition attr_apply :: "(nat \<Rightarrow> byte \<Rightarrow> byte list option) \<Rightarrow> tag_entry \<Rightarrow> nat \<Rightarrow> byte \<Rightarrow> byte list option" where
  "attr_apply R e =
     (let idx = unat (tag_id (te_tag e))
      in case tag_type (te_tag e) of
           Create \<Rightarrow> (\<lambda>j. if j < idx then R j else if j = idx then (\<lambda>_. None) else R (j - 1))
         | Delete \<Rightarrow> (\<lambda>j. if j < idx then R j else R (j + 1))
         | UserAttr a \<Rightarrow> R(idx := (R idx)(a := if is_special_length (te_tag e) then None else Some (te_body e)))
         | _ \<Rightarrow> R)"

definition attr_replay :: "tag_entry list \<Rightarrow> nat \<Rightarrow> byte \<Rightarrow> byte list option" where
  "attr_replay es = foldl attr_apply (\<lambda>_ _. None) es"

lemma attr_replay_snoc: "attr_replay (es @ [e]) = attr_apply (attr_replay es) e"
  by (simp add: attr_replay_def)

lemma attr_walk_replay:
  "0 \<le> live_id - gdiff \<Longrightarrow> attr_walk live_id a gdiff (rev es) = attr_replay es (nat (live_id - gdiff)) a"
proof (induction es arbitrary: gdiff rule: rev_induct)
  case (snoc e es)
  define idx where "idx = unat (tag_id (te_tag e))"
  let ?j = "nat (live_id - gdiff)"
  note adj = snoc.prems
  show ?case
  proof (cases "tag_type (te_tag e)")
    case Create
    have "?j - 1 = nat (live_id - (gdiff + 1))" by simp
    then show ?thesis using Create snoc.IH [of gdiff] snoc.IH [of "gdiff + 1"] adj
      by (simp add: attr_replay_snoc attr_apply_def Let_def flip: idx_def) (auto simp: le_nat_iff)
  next
    case Delete
    have "?j + 1 = nat (live_id - (gdiff - 1))" using adj by simp
    then show ?thesis using Delete snoc.IH [of gdiff] snoc.IH [of "gdiff - 1"] adj
      by (simp add: attr_replay_snoc attr_apply_def Let_def flip: idx_def)
  next
    case (UserAttr b)
    have "int idx = live_id - gdiff \<longleftrightarrow> ?j = idx" using adj by auto
    then show ?thesis using UserAttr snoc.IH [of gdiff] adj
      by (simp add: attr_replay_snoc attr_apply_def Let_def flip: idx_def)
  qed (use snoc.IH [of gdiff] adj in \<open>simp_all add: attr_replay_snoc attr_apply_def Let_def\<close>)
qed (simp add: attr_replay_def)


lemma seen_index: "unat (drop_bit 5 a) < 8" for a :: byte
proof -
  have "unat (drop_bit 5 a) = unat a div 32" by (simp add: drop_bit_eq_div unat_div_distrib)
  moreover have "unat a < 256" using unsigned_less [of a] by simp
  ultimately show ?thesis by simp
qed

lemma and_31: "a AND 31 = take_bit 5 a" for a :: byte
  using take_bit_eq_mask [of 5 a] by (simp add: mask_eq_exp_minus_1)

lemma and_push_bit_1: "x AND 2 ^ k \<noteq> 0 \<longleftrightarrow> bit x k" for x :: u32
  using and_exp_eq_0_iff_not_bit [of x k] by simp

lemma seen_bit: "seen_get seen a \<longleftrightarrow> bit (seen ! unat (drop_bit 5 a)) (unat (take_bit 5 a))"
proof -
  show ?thesis by (simp add: seen_get_def and_31 and_push_bit_1)
qed

lemma byte_parts: "drop_bit 5 a = drop_bit 5 b \<Longrightarrow> take_bit 5 a = take_bit 5 b \<Longrightarrow> a = b" for a b :: byte
  by (metis bits_ident)

lemma seen_get_set:
  assumes "length seen = 8"
  shows "seen_get (seen_set seen a) b \<longleftrightarrow> a = b \<or> seen_get seen b" "length (seen_set seen a) = 8"
proof -
  have l: "unat (take_bit 5 c) < 32" for c :: byte
    using take_bit_nat_less_exp [of 5 "unat c"] by (simp add: unsigned_take_bit_eq)
  have eq: "unat (drop_bit 5 a) = unat (drop_bit 5 b) \<and> unat (take_bit 5 a) = unat (take_bit 5 b) \<longleftrightarrow> a = b"
    using byte_parts [of a b] by (metis word_unat_eq_iff)
  show "seen_get (seen_set seen a) b \<longleftrightarrow> a = b \<or> seen_get seen b"
    using assms seen_index [of a] seen_index [of b] l [of a] l [of b] eq
    by (auto simp: seen_bit seen_set_def and_31 nth_list_update bit_simps)
  show "length (seen_set seen a) = 8" using assms by (simp add: seen_set_def)
qed

lemma attrs_walk_replay:
  assumes "0 \<le> live_id - gdiff" "length seen = 8"
  shows "distinct (map fst (attrs_walk live_id seen gdiff (rev es))) \<and>
    set (attrs_walk live_id seen gdiff (rev es)) =
      {(a, v). \<not> seen_get seen a \<and> attr_replay es (nat (live_id - gdiff)) a = Some v}"
  using assms
proof (induction es arbitrary: gdiff seen rule: rev_induct)
  case Nil
  then show ?case by (simp add: attr_replay_def)
next
  case (snoc e es)
  define idx where "idx = unat (tag_id (te_tag e))"
  let ?j = "nat (live_id - gdiff)"
  note adj = snoc.prems(1) and l8 = snoc.prems(2)
  show ?case
  proof (cases "tag_type (te_tag e)")
    case Create
    have "?j - 1 = nat (live_id - (gdiff + 1))" by simp
    then show ?thesis using Create snoc.IH [OF _ l8, of gdiff] snoc.IH [OF _ l8, of "gdiff + 1"] adj
      by (simp add: attr_replay_snoc attr_apply_def Let_def flip: idx_def) (auto simp: le_nat_iff)
  next
    case Delete
    have up: "?j + 1 = nat (live_id - (gdiff - 1))" using adj by simp
    have le: "int idx \<le> live_id - gdiff \<longleftrightarrow> \<not> ?j < idx" using adj by linarith
    show ?thesis
    proof (cases "?j < idx")
      case True
      then show ?thesis using Delete le snoc.IH [OF _ l8, of gdiff] adj
        by (simp add: attr_replay_snoc attr_apply_def Let_def flip: idx_def)
    next
      case False
      then show ?thesis using Delete le snoc.IH [OF _ l8, of "gdiff - 1"] adj up
        by (simp add: attr_replay_snoc attr_apply_def Let_def flip: idx_def)
    qed
  next
    case (UserAttr b)
    note upd = seen_get_set [OF l8, of b]
    have hit: "int idx = live_id - gdiff \<longleftrightarrow> ?j = idx" using adj by auto
    show ?thesis
    proof (cases "?j = idx")
      case True
      have rep: "attr_replay (es @ [e]) ?j = (attr_replay es ?j)(b := if is_special_length (te_tag e) then None else Some (te_body e))"
        using UserAttr True by (simp add: attr_replay_snoc attr_apply_def Let_def flip: idx_def)
      have walk: "attrs_walk live_id seen gdiff (rev (es @ [e])) =
          (if seen_get seen b then attrs_walk live_id seen gdiff (rev es)
           else if is_special_length (te_tag e) then attrs_walk live_id (seen_set seen b) gdiff (rev es)
           else (b, te_body e) # attrs_walk live_id (seen_set seen b) gdiff (rev es))"
        using UserAttr True hit by (simp add: Let_def flip: idx_def)
      show ?thesis
        unfolding rep walk using snoc.IH [OF adj l8] snoc.IH [OF adj upd(2)] upd(1)
        by (force simp: image_iff split: if_splits)
    next
      case False
      then show ?thesis using UserAttr hit snoc.IH [OF adj l8]
        by (simp add: attr_replay_snoc attr_apply_def Let_def flip: idx_def)
    qed
  qed (use snoc.IH [OF adj l8] in \<open>simp_all add: attr_replay_snoc attr_apply_def Let_def\<close>)
qed

lemma call_each_collect: "call_each (\<lambda>a v acc. (acc @ [(a, v)], Inr ())) xs acc = (acc @ xs, Inr ())"
  by (induction xs arbitrary: acc) (auto simp: io_bind_eq)


section \<open>Lookup after a create and after a delete\<close>

lemma find_slot_append:
  "find_slot nm i (xs @ ys) = (case find_slot nm i xs of None \<Rightarrow> find_slot nm (i + length xs) ys | Some r \<Rightarrow> Some r)"
  by (induction nm i xs rule: find_slot.induct) (auto split: option.splits)

definition renumber :: "(nat \<Rightarrow> nat) \<Rightarrow> resolved \<Rightarrow> resolved" where
  "renumber f r = r\<lparr>rs_entry := (rs_entry r)\<lparr>de_id := of_nat (f (unat (de_id (rs_entry r))))\<rparr>\<rparr>"

lemma find_slot_shift:
  assumes "i + length xs \<le> 2 ^ 16" "j + length xs \<le> 2 ^ 16"
    and "\<And>k. k < length xs \<Longrightarrow> f (i + k) = j + k"
  shows "find_slot nm j xs = map_option (renumber f) (find_slot nm i xs)"
  using assms
proof (induction xs arbitrary: i j)
  case (Cons s xs)
  have ih: "find_slot nm (Suc j) xs = map_option (renumber f) (find_slot nm (Suc i) xs)"
    using Cons.IH [of "Suc i" "Suc j"] Cons.prems(1,2) Cons.prems(3) [of "Suc _"] by simp
  have "unat (of_nat i :: u16) = i" using Cons.prems(1) by (simp add: unsigned_of_nat take_bit_nat_eq_self)
  then have "renumber f \<lparr>rs_entry = \<lparr>de_id = of_nat i, de_name = n, de_kind = k\<rparr>, struct_type = t, struct_body = b\<rparr> =
      \<lparr>rs_entry = \<lparr>de_id = of_nat j, de_name = n, de_kind = k\<rparr>, struct_type = t, struct_body = b\<rparr>" for n k t b
    using Cons.prems(3) [of 0] by (simp add: renumber_def)
  then show ?case using ih by (auto split: option.splits)
qed simp

definition ins_id :: "nat \<Rightarrow> nat \<Rightarrow> nat" where "ins_id idx k = (if k < idx then k else k + 1)"

definition del_id :: "nat \<Rightarrow> nat \<Rightarrow> nat" where "del_id idx k = (if k < idx then k else k - 1)"

lemma find_slot_insert:
  assumes "length xs < 2 ^ 16" "idx \<le> length xs" "ls_name x \<noteq> Some m"
  shows "find_slot m 0 (insert_at xs idx x) = map_option (renumber (ins_id idx)) (find_slot m 0 xs)"
proof -
  have skip: "find_slot m i (x # ys) = find_slot m (Suc i) ys" for i ys
    using assms(3) by (auto split: option.splits)
  have a: "find_slot m 0 (take idx xs) = map_option (renumber (ins_id idx)) (find_slot m 0 (take idx xs))"
    by (rule find_slot_shift) (use assms(1,2) in \<open>auto simp: ins_id_def\<close>)
  have b: "find_slot m (Suc idx) (drop idx xs) = map_option (renumber (ins_id idx)) (find_slot m idx (drop idx xs))"
    by (rule find_slot_shift) (use assms(1,2) in \<open>auto simp: ins_id_def\<close>)
  have "find_slot m 0 xs = find_slot m 0 (take idx xs @ drop idx xs)" by simp
  also have "\<dots> = (case find_slot m 0 (take idx xs) of None \<Rightarrow> find_slot m idx (drop idx xs) | Some r \<Rightarrow> Some r)"
    using assms(2) by (simp only: find_slot_append) (simp split: option.split)
  finally show ?thesis
    using a b assms(2) by (auto simp: insert_at_def find_slot_append skip simp del: find_slot.simps split: option.splits)
qed

lemma find_slot_remove:
  assumes "length xs < 2 ^ 16" "idx < length xs" "ls_name (xs ! idx) \<noteq> Some m"
  shows "find_slot m 0 (remove_at xs idx) = map_option (renumber (del_id idx)) (find_slot m 0 xs)"
proof -
  have split: "xs = take idx xs @ xs ! idx # drop (Suc idx) xs" using assms(2) by (simp add: id_take_nth_drop)
  have skip: "find_slot m i (xs ! idx # ys) = find_slot m (Suc i) ys" for i ys
    using assms(3) by (auto split: option.splits)
  have a: "find_slot m 0 (take idx xs) = map_option (renumber (del_id idx)) (find_slot m 0 (take idx xs))"
    by (rule find_slot_shift) (use assms(1,2) in \<open>auto simp: del_id_def\<close>)
  have b: "find_slot m idx (drop (Suc idx) xs) = map_option (renumber (del_id idx)) (find_slot m (Suc idx) (drop (Suc idx) xs))"
    by (rule find_slot_shift) (use assms(1,2) in \<open>auto simp: del_id_def\<close>)
  have "find_slot m 0 xs = (case find_slot m 0 (take idx xs) of None \<Rightarrow> find_slot m (Suc idx) (drop (Suc idx) xs) | Some r \<Rightarrow> Some r)"
    using assms(2) by (subst split) (simp add: find_slot_append skip del: find_slot.simps split: option.split)
  then show ?thesis
    using a b assms(2) by (auto simp: remove_at_def find_slot_append simp del: find_slot.simps split: option.splits)
qed

lemma lookup_walk_crc: "crc_entries fs \<Longrightarrow> lookup_walk fs slots cnt = Inr (slots, cnt)"
proof (induction fs)
  case (Cons e fs)
  then have "tag_type (te_tag e) = ForwardCrc \<or> (\<exists>c. tag_type (te_tag e) = CommitCrc c)"
    by (auto simp: is_ccrc_iff_chunk ccrc_chunk_Some)
  then show ?case using Cons by (auto simp: splice_step_cases is_name_tag_def is_struct_type_def Let_def)
qed simp

text \<open>The tags of a create and of a delete, as the write path stages them.\<close>

abbreviation kind_type :: "entry_kind \<Rightarrow> tag_type" where
  "kind_type k \<equiv> (case k of KindFile \<Rightarrow> RegularFile | KindDirectory \<Rightarrow> Directory)"

definition create_tags :: "u16 \<Rightarrow> byte list \<Rightarrow> entry_kind \<Rightarrow> tag_type \<Rightarrow> byte list \<Rightarrow> tag_entry list" where
  "create_tags i nm k ty body =
     [\<lparr>te_tag = Tag_new True Create i 0, te_body = []\<rparr>,
      \<lparr>te_tag = Tag_new True (kind_type k) i (of_nat (length nm)), te_body = nm\<rparr>,
      \<lparr>te_tag = Tag_new True ty i (of_nat (length body)), te_body = body\<rparr>]"

definition delete_tags :: "u16 \<Rightarrow> tag_entry list" where
  "delete_tags i = [\<lparr>te_tag = Tag_new True Delete i 0, te_body = []\<rparr>]"

lemma natural_struct: "is_struct_type ty \<Longrightarrow> natural_type ty" "natural_type (kind_type k)"
  by (auto simp: is_struct_type_def split: entry_kind.splits)

lemma take_bit_id: "unat i < 1024 \<Longrightarrow> take_bit 10 i = i" for i :: u16
  by (simp add: word_unat_eq_iff unsigned_take_bit_eq take_bit_nat_eq_self)

lemma lookup_walk_create:
  assumes "length slots = MAX_LIVE_ENTRIES" "cnt < MAX_LIVE_ENTRIES" "unat i \<le> cnt" "is_struct_type ty" "crc_entries fs"
  obtains slots' where "lookup_walk (create_tags i nm k ty body @ fs) slots cnt = Inr (slots', cnt + 1)"
    "take (cnt + 1) slots' = insert_at (take cnt slots) (unat i) \<lparr>ls_name = Some nm, ls_kind = Some k, ls_struct = Some (ty, body)\<rparr>"
proof -
  let ?i = "unat i" let ?x = "\<lparr>ls_name = Some nm, ls_kind = Some k, ls_struct = Some (ty, body)\<rparr>"
  have lt: "?i < 256" using assms(2,3) by (simp add: MAX_LIVE_ENTRIES_def)
  then have ti: "take_bit 10 i = i" by (intro take_bit_id) simp
  let ?s = "(shift_up slots cnt ?i)[?i := lookup_EMPTY]"
  have ls: "length ?s = 256" using assms(1) by (simp add: MAX_LIVE_ENTRIES_def)
  have nt: "tag_type (Tag_new True (kind_type k) i n) = kind_type k" for n by (rule tag_type_Tag_new) (rule natural_struct)
  have st: "tag_type (Tag_new True ty i n) = ty" for n by (rule tag_type_Tag_new) (rule natural_struct(1) [OF assms(4)])
  have ko: "kind_of (Tag_new True (kind_type k) i n) = Some k" for n by (cases k) (simp_all add: kind_of_def)
  have w: "lookup_walk (create_tags i nm k ty body) slots cnt = Inr ((shift_up slots cnt ?i)[?i := ?x], cnt + 1)"
    using assms lt ls
    by (auto simp: create_tags_def splice_step_cases Let_def ti nt st ko is_name_tag_def is_struct_type_def lookup_EMPTY_def
      MAX_LIVE_ENTRIES_def max_def split: entry_kind.splits)
  have "lookup_walk (create_tags i nm k ty body @ fs) slots cnt = Inr ((shift_up slots cnt ?i)[?i := ?x], cnt + 1)"
    by (simp only: look.walk_append w rbind.simps prod.case lookup_walk_crc [OF assms(5)])
  moreover have "take (cnt + 1) ((shift_up slots cnt ?i)[?i := ?x]) = insert_at (take cnt slots) ?i ?x"
    using shift_up_insert(1) [of cnt slots ?i ?x] assms(1-3) by simp
  ultimately show thesis by (rule that)
qed

lemma lookup_walk_delete:
  assumes "length slots = MAX_LIVE_ENTRIES" "cnt \<le> MAX_LIVE_ENTRIES" "unat i < cnt" "crc_entries fs"
  obtains slots' where "lookup_walk (delete_tags i @ fs) slots cnt = Inr (slots', cnt - 1)"
    "take (cnt - 1) slots' = remove_at (take cnt slots) (unat i)"
proof -
  have ti: "take_bit 10 i = i" using assms(2,3) by (intro take_bit_id) (simp add: MAX_LIVE_ENTRIES_def)
  have w: "lookup_walk (delete_tags i) slots cnt = Inr ((shift_down slots (unat i) cnt)[cnt - 1 := lookup_EMPTY], cnt - 1)"
    using assms(3) by (simp add: delete_tags_def splice_step_cases Let_def ti)
  have "lookup_walk (delete_tags i @ fs) slots cnt = Inr ((shift_down slots (unat i) cnt)[cnt - 1 := lookup_EMPTY], cnt - 1)"
    by (simp only: look.walk_append w rbind.simps prod.case lookup_walk_crc [OF assms(4)])
  then show thesis by (rule that) (use shift_down_remove(1) [of cnt slots "unat i"] assms in simp)
qed


lemma lookup_walk_ok:
  assumes "live_entries pair collect_cb [] = (ds, Inr cnt)"
  obtains ls ks where "lookup_walk (iter_tags (mp_reader pair)) (replicate MAX_LIVE_ENTRIES lookup_EMPTY) 0 = Inr (ks, cnt)"
    "length ks = MAX_LIVE_ENTRIES" "cnt \<le> MAX_LIVE_ENTRIES" "map entry_view ls = map slot_view ks"
    "length ls = MAX_LIVE_ENTRIES" "ds = listing 0 (take cnt ls)"
proof -
  obtain ls where ls: "live_walk (iter_tags (mp_reader pair)) (replicate MAX_LIVE_ENTRIES None) 0 = Inr (ls, cnt)"
      "ds = listing 0 (take cnt ls)"
    using assms by (auto simp: live_entries_def io_bind_eq io_lift_def emit_collect split: sum.splits)
  obtain ks where ks: "lookup_walk (iter_tags (mp_reader pair)) (replicate MAX_LIVE_ENTRIES lookup_EMPTY) 0 = Inr (ks, cnt)"
      "map entry_view ls = map slot_view ks"
    using walks_agree [OF _ _ _ ls(1), of "replicate MAX_LIVE_ENTRIES lookup_EMPTY"] by auto
  show thesis using that [OF ks(1) _ _ ks(2) _ ls(2)] live.walk_bounds [OF ls(1)] look.walk_bounds [OF ks(1)] by simp
qed


lemma live_walk_ok:
  assumes "lookup_walk (iter_tags (mp_reader pair)) (replicate MAX_LIVE_ENTRIES lookup_EMPTY) 0 = Inr (ks, cnt)"
  obtains ds where "live_entries pair collect_cb [] = (ds, Inr cnt)" "length ds \<le> cnt"
proof -
  have "count_walk (iter_tags (mp_reader pair)) 0 = Inr cnt"
    using look.walk_count [of "iter_tags (mp_reader pair)" "replicate MAX_LIVE_ENTRIES lookup_EMPTY" 0] assms by simp
  then obtain ls where ls: "live_walk (iter_tags (mp_reader pair)) (replicate MAX_LIVE_ENTRIES None) 0 = Inr (ls, cnt)"
    using live.walk_count [of "iter_tags (mp_reader pair)" "replicate MAX_LIVE_ENTRIES None" 0]
    by (auto split: sum.splits prod.splits)
  have "length (listing i xs) \<le> length xs" for i xs by (induction i xs rule: listing.induct) auto
  from this [of 0 "take cnt ls"] have "length (listing 0 (take cnt ls)) \<le> cnt" by simp
  then show thesis using that ls by (simp add: live_entries_def io_bind_eq io_lift_def emit_collect)
qed

lemma listing_distinct:
  "distinct (map de_name (listing i slots)) \<Longrightarrow> j < j' \<Longrightarrow> j' < length slots \<Longrightarrow> slots ! j = Some e \<Longrightarrow>
   slots ! j' = Some e' \<Longrightarrow> de_name e \<noteq> de_name e'"
proof (induction i slots arbitrary: j j' rule: listing.induct)
  case (2 i xs)
  then obtain l l' where "j = Suc l" "j' = Suc l'" by (cases j; cases j') auto
  then show ?case using 2(1) [of l l'] 2(2-) by simp
next
  case (3 i x xs)
  obtain l' where l': "j' = Suc l'" using 3(3) by (cases j') auto
  show ?case
  proof (cases j)
    case 0
    have "de_name e' \<in> de_name ` set (listing (i + 1) xs)"
      using imageI [OF listing_set [of l' xs e' "i + 1"], of de_name] 3(4,6) l' by simp
    then show ?thesis using 3(2,5) 0 by auto
  next
    case (Suc l)
    then show ?thesis using 3(1) [of l l'] 3(2-) l' by simp
  qed
qed simp

lemma view_of_slot:
  assumes "map entry_view ls = map slot_view ks" "j < length ks" "ls_name (ks ! j) = Some nm" "ls_kind (ks ! j) = Some k"
  obtains e where "ls ! j = Some e" "de_name e = nm" "de_kind e = k"
proof -
  have "entry_view (ls ! j) = slot_view (ks ! j)" using assms(1,2) by (metis length_map nth_map)
  then show thesis using that assms(3,4) by (auto simp: entry_view_def slot_view_def)
qed

lemma nth_remove_at:
  "idx < length xs \<Longrightarrow> j < length xs - 1 \<Longrightarrow> remove_at xs idx ! j = xs ! (if j < idx then j else Suc j)"
  by (auto simp: remove_at_def nth_append)

text \<open>Names are unique in the listing, so removing a resolved slot leaves no other of its name.\<close>

lemma find_slot_removed:
  assumes "map entry_view ls = map slot_view ks" "length ks = MAX_LIVE_ENTRIES" "cnt \<le> MAX_LIVE_ENTRIES"
    and "distinct (map de_name (listing 0 (take cnt ls)))"
    and "idx < cnt" "ls_name (ks ! idx) = Some nm" "ls_kind (ks ! idx) = Some k"
  shows "find_slot nm 0 (remove_at (take cnt ks) idx) = None"
proof (rule ccontr)
  have l: "length (take cnt ks) = cnt" "length (take cnt ls) = cnt"
    using assms(2,3) arg_cong [OF assms(1), of length] by simp_all
  assume "find_slot nm 0 (remove_at (take cnt ks) idx) \<noteq> None"
  then obtain r where "find_slot nm 0 (remove_at (take cnt ks) idx) = Some r" by blast
  from find_slot_Some [OF this] obtain j where j: "j < cnt - 1"
      "ls_name (remove_at (take cnt ks) idx ! j) = Some nm" "ls_kind (remove_at (take cnt ks) idx ! j) \<noteq> None"
    using l assms(5) by (auto simp: remove_at_def)
  define j' where "j' = (if j < idx then j else Suc j)"
  have j': "j' < cnt" "j' \<noteq> idx" using j(1) assms(5) by (auto simp: j'_def)
  have slot: "ls_name (ks ! j') = Some nm" "ls_kind (ks ! j') \<noteq> None"
    using j nth_remove_at [of idx "take cnt ks" j] l assms(5) j' by (simp_all add: j'_def split: if_splits)
  have lt: "j' < length ks" "idx < length ks" using j'(1) assms(2,3,5) by simp_all
  obtain k2 where k2: "ls_kind (ks ! j') = Some k2" using slot(2) by blast
  obtain e where e: "ls ! j' = Some e" "de_name e = nm" using view_of_slot [OF assms(1) lt(1) slot(1) k2] by blast
  obtain e2 where e2: "ls ! idx = Some e2" "de_name e2 = nm" using view_of_slot [OF assms(1) lt(2) assms(6,7)] by blast
  show False
  proof (cases "j' < idx")
    case True
    then show False using listing_distinct [OF assms(4) True, of e e2] e e2 l(2) assms(5) by (simp del: length_take)
  next
    case False
    then show False using listing_distinct [OF assms(4), of idx j' e2 e] e e2 l(2) assms(5) j' by (simp del: length_take)
  qed
qed


text \<open>A create of a one byte file on an open commit, for the witnesses.\<close>

abbreviation sample_create :: "tag_entry list" where
  "sample_create \<equiv> create_tags 0 [97] KindFile InlineStruct [120]"

lemma sample_create_ok:
  assumes "cm_offset c0 + 14 \<le> length (cm_buf c0)"
  obtains c1 where "commit_tags c0 sample_create = Inr c1" "cm_offset c1 = cm_offset c0 + 14" "length (cm_buf c1) = length (cm_buf c0)"
proof -
  obtain d where d: "commit_tag c0 (Tag_new True Create 0 0) [] = Inr d" "cm_offset d = cm_offset c0 + 4" "length (cm_buf d) = length (cm_buf c0)"
    using commit_tag_ok [of "Tag_new True Create 0 0" "[]" c0] body_len_Tag_new [of 0] assms by (auto simp: dsize_def is_ccrc_def)
  obtain e where e: "commit_tag d (Tag_new True RegularFile 0 1) [97] = Inr e" "cm_offset e = cm_offset c0 + 9" "length (cm_buf e) = length (cm_buf c0)"
    using commit_tag_ok [of "Tag_new True RegularFile 0 1" "[97]" d] body_len_Tag_new [of 1] assms d by (auto simp: dsize_def is_ccrc_def)
  obtain f where f: "commit_tag e (Tag_new True InlineStruct 0 1) [120] = Inr f" "cm_offset f = cm_offset c0 + 14" "length (cm_buf f) = length (cm_buf c0)"
    using commit_tag_ok [of "Tag_new True InlineStruct 0 1" "[120]" e] body_len_Tag_new [of 1] assms e by (auto simp: dsize_def is_ccrc_def)
  show thesis using that [of f] d e f by (simp add: create_tags_def)
qed

lemma sample_dir:
  obtains buf r0 where "reader_new buf = Inr r0" "has_commits r0" "erased_from buf (committed_end r0)"
    "committed_end r0 = 48" "length buf = 128" "\<exists>fs. iter_tags r0 = sample_create @ fs \<and> crc_entries fs"
proof -
  obtain c0 where c0: "commit_new (replicate 128 0xFF) 1 = Inr c0" "cm_offset c0 = 4" "length (cm_buf c0) = 128"
    by (simp add: commit_new_def Let_def)
  obtain c1 where c1: "commit_tags c0 sample_create = Inr c1" "cm_offset c1 = 18" "length (cm_buf c1) = 128"
    using sample_create_ok [of c0] c0 by auto
  obtain c2 where c2: "commit_finish_padded c1 0 16 128 = Inr c2" "cm_offset c2 = 48" "length (cm_buf c2) = 128"
    using commit_finish_padded_ok [of 48 c1 128 16] c1 by (auto simp: div_ceil_def)
  have ve: "valid_entries sample_create" by (simp add: create_tags_def)
  obtain r fs where r: "reader_new (cm_buf c2) = Inr r" "iter_tags r = sample_create @ fs" "crc_entries fs" "committed_end r = 48"
    using fresh_commit_reader [OF c0(1) c1(1) c2(1) ve] c2(2) by auto
  have "erased_from (cm_buf c2) (cm_offset c2)" by (rule fresh_commit_erased [OF c0(1) c1(1) c2(1) ve]) simp
  then show thesis using that [OF r(1)] r c2 by (auto simp: has_commits_def)
qed

section \<open>Properties\<close>

text \<open>C22. The splice core refines list insertion and removal: on the live slots (the first \<open>cnt\<close> of the
  array) an accepted \<open>Create\<close> is the insertion of an empty slot at its id and an accepted \<open>Delete\<close>
  the removal of the slot at its id, slots behind the live ones are untouched, a NAME only extends
  the live range, and the array length and the capacity bound are kept. A tag is refused exactly
  when the abstract operation is out of range, or the capacity is exceeded.\<close>

theorem splice_step_refines:
  assumes "length slots = MAX_LIVE_ENTRIES" and "cnt \<le> MAX_LIVE_ENTRIES"
  shows "case splice_step slots cnt emp t of
      Inl e \<Rightarrow>
        tag_type t = Create \<and> (cnt = MAX_LIVE_ENTRIES \<and> e = OutOfRange \<or> cnt < MAX_LIVE_ENTRIES \<and> cnt < unat (tag_id t) \<and> e = Corrupt) \<or>
        tag_type t = Delete \<and> cnt \<le> unat (tag_id t) \<and> e = Corrupt \<or>
        is_name_tag t \<and> MAX_LIVE_ENTRIES \<le> unat (tag_id t) \<and> e = OutOfRange
    | Inr (slots', cnt', oc) \<Rightarrow>
        length slots' = MAX_LIVE_ENTRIES \<and> cnt' \<le> MAX_LIVE_ENTRIES \<and>
        (if tag_type t = Create then oc = Consumed \<and> cnt' = cnt + 1 \<and> unat (tag_id t) \<le> cnt \<and>
           take cnt' slots' = insert_at (take cnt slots) (unat (tag_id t)) emp \<and> drop cnt' slots' = drop cnt' slots
         else if tag_type t = Delete then oc = Consumed \<and> cnt' = cnt - 1 \<and> unat (tag_id t) < cnt \<and>
           take cnt' slots' = remove_at (take cnt slots) (unat (tag_id t)) \<and> drop cnt slots' = drop cnt slots
         else if is_name_tag t then oc = Name (unat (tag_id t)) \<and> cnt' = max cnt (unat (tag_id t) + 1) \<and> slots' = slots
         else oc = Other \<and> cnt' = cnt \<and> slots' = slots)"
proof -
  let ?i = "unat (tag_id t)"
  have up: "take (Suc cnt) ((shift_up slots cnt ?i)[?i := emp]) = insert_at (take cnt slots) ?i emp"
      "drop (Suc cnt) ((shift_up slots cnt ?i)[?i := emp]) = drop (Suc cnt) slots" if "cnt < MAX_LIVE_ENTRIES" "?i \<le> cnt"
    using shift_up_insert [of cnt slots ?i emp] assms that by simp_all
  have down: "take (cnt - Suc 0) ((shift_down slots ?i cnt)[cnt - Suc 0 := emp]) = remove_at (take cnt slots) ?i"
      "drop cnt ((shift_down slots ?i cnt)[cnt - Suc 0 := emp]) = drop cnt slots" if "?i < cnt"
    using shift_down_remove [of cnt slots ?i emp] assms that by simp_all
  show ?thesis using assms up down by (auto simp: splice_step_cases Let_def is_name_tag_def)
qed

theorem splice_step_refines_witness:
  "case splice_step (replicate MAX_LIVE_ENTRIES (7 :: nat)) 2 9 (Tag_new True Create 1 0) of
     Inl _ \<Rightarrow> False | Inr (slots', cnt', _) \<Rightarrow> cnt' = 3 \<and> take 3 slots' = [7, 9, 7]"
proof -
  let ?s = "replicate MAX_LIVE_ENTRIES (7 :: nat)"
  have h: "length ?s = MAX_LIVE_ENTRIES" "(2 :: nat) \<le> MAX_LIVE_ENTRIES" by (simp_all add: MAX_LIVE_ENTRIES_def)
  have i: "insert_at (take 2 ?s) 1 9 = [7, 9, 7]"
    by (simp add: insert_at_def MAX_LIVE_ENTRIES_def numeral_eq_Suc)
  show ?thesis using splice_step_refines [OF h, where emp = 9 and t = "Tag_new True Create 1 0"] i
    by (auto simp: MAX_LIVE_ENTRIES_def split: sum.splits prod.splits)
qed

text \<open>C35. Listing and lookup agree on a directory: they fail on the same logs with the same error, and
  whatever lookup resolves is an entry of the listing, with the same id, name and kind.\<close>

theorem lookup_matches_listing:
  "case lookup_checked pair nm of
     Inl e \<Rightarrow> live_entries pair collect_cb [] = ([], Inl e)
   | Inr res \<Rightarrow> \<exists>ds cnt. live_entries pair collect_cb [] = (ds, Inr cnt) \<and> cnt \<le> MAX_LIVE_ENTRIES \<and>
       (case res of Some r \<Rightarrow> rs_entry r \<in> set ds \<and> de_name (rs_entry r) = nm | None \<Rightarrow> True)"
proof (cases "live_walk (iter_tags (mp_reader pair)) (replicate MAX_LIVE_ENTRIES None) 0")
  case (Inl e)
  have "count_walk (iter_tags (mp_reader pair)) 0 = Inl e"
    using live.walk_count [of "iter_tags (mp_reader pair)" "replicate MAX_LIVE_ENTRIES None" 0] Inl by simp
  then have "lookup_walk (iter_tags (mp_reader pair)) (replicate MAX_LIVE_ENTRIES lookup_EMPTY) 0 = Inl e"
    using look.walk_count [of "iter_tags (mp_reader pair)" "replicate MAX_LIVE_ENTRIES lookup_EMPTY" 0]
    by (auto split: sum.splits prod.splits)
  then show ?thesis using Inl by (simp add: lookup_checked_def live_entries_def io_bind_eq io_lift_def)
next
  case (Inr w)
  then obtain ls cnt where w: "live_walk (iter_tags (mp_reader pair)) (replicate MAX_LIVE_ENTRIES None) 0 = Inr (ls, cnt)"
    by (cases w) auto
  have lv: "live_entries pair collect_cb [] = (listing 0 (take cnt ls), Inr cnt)"
    using w by (simp add: live_entries_def io_bind_eq io_lift_def emit_collect)
  obtain ls' ks where k: "lookup_walk (iter_tags (mp_reader pair)) (replicate MAX_LIVE_ENTRIES lookup_EMPTY) 0 = Inr (ks, cnt)"
    "length ks = MAX_LIVE_ENTRIES" "cnt \<le> MAX_LIVE_ENTRIES" "map entry_view ls' = map slot_view ks"
    "length ls' = MAX_LIVE_ENTRIES" "listing 0 (take cnt ls) = listing 0 (take cnt ls')"
    using lookup_walk_ok [OF lv] by metis
  have "rs_entry r \<in> set (listing 0 (take cnt ls'))" "de_name (rs_entry r) = nm"
    if r: "find_slot nm 0 (take cnt ks) = Some r" for r
  proof -
    obtain j where j: "j < cnt" "ls_name (ks ! j) = Some nm" "ls_kind (ks ! j) = Some (de_kind (rs_entry r))"
      "rs_entry r = \<lparr>de_id = of_nat j, de_name = nm, de_kind = de_kind (rs_entry r)\<rparr>"
      using find_slot_Some [OF r] k(2,3) by auto
    have "entry_view (ls' ! j) = slot_view (ks ! j)" using k(2-5) j(1) by (metis nth_map order_less_le_trans)
    then obtain e where e: "ls' ! j = Some e" "de_name e = nm" "de_kind e = de_kind (rs_entry r)"
      using j by (auto simp: entry_view_def slot_view_def)
    have eq: "e\<lparr>de_id := of_nat j\<rparr> = rs_entry r" by (subst j(4)) (cases e, use e in simp)
    have "e\<lparr>de_id := of_nat (0 + j)\<rparr> \<in> set (listing 0 (take cnt ls'))"
      by (rule listing_set) (use e j(1) k(3,5) in auto)
    then show "rs_entry r \<in> set (listing 0 (take cnt ls'))" using eq by simp
    show "de_name (rs_entry r) = nm" using eq e(2) by (metis dir_entry.select_convs(2) dir_entry.surjective dir_entry.update_convs(1))
  qed
  then show ?thesis using lv k by (auto simp: lookup_checked_def split: option.splits)
qed


text \<open>C36. The backward attribute walk is a forward replay: \<open>attr_get\<close> at a live id returns exactly what
  replaying the whole log forward, with creates and deletes renumbering the entries, leaves as that
  attribute of that entry.\<close>

theorem attr_get_is_forward_replay:
  assumes "reader_new b = Inr r"
  shows "attr_get r live_id a = attr_replay (iter_tags r) (unat live_id) a"
proof -
  have "iter_tags_rev r = rev (iter_tags r)" by (rule reader_new_path [OF assms]) simp
  then show ?thesis using attr_walk_replay [of "int (unat live_id)" 0 a "iter_tags r"] by (simp add: attr_get_def)
qed

theorem attr_get_is_forward_replay_witness:
  "\<exists>r. reader_new tiny_block = Inr r \<and> attr_get r 0 3 = attr_replay (iter_tags r) 0 3"
proof -
  obtain r where "reader_new tiny_block = Inr r" using tiny_reader by blast
  then show ?thesis using attr_get_is_forward_replay [of tiny_block r 0 3] by simp
qed

text \<open>C37. The compaction source of attributes is complete and exact: \<open>for_each_live_attr\<close> hands the
  callback each attribute the forward replay leaves on the entry, with its value, exactly once, and
  nothing else; a removed attribute is not handed over.\<close>

theorem for_each_live_attr_complete:
  assumes "reader_new b = Inr r"
  shows "\<exists>xs. for_each_live_attr r live_id (\<lambda>a v acc. (acc @ [(a, v)], Inr ())) [] = (xs, Inr ()) \<and>
    distinct (map fst xs) \<and> map_of xs = attr_replay (iter_tags r) (unat live_id)"
proof -
  let ?xs = "attrs_walk (int (unat live_id)) (replicate 8 0) 0 (iter_tags_rev r)"
  have rv: "iter_tags_rev r = rev (iter_tags r)" by (rule reader_new_path [OF assms]) simp
  have z: "\<not> seen_get (replicate 8 0) a" for a using seen_index [of a] by (simp add: seen_bit)
  have w: "distinct (map fst ?xs)" "set ?xs = {(a, v). attr_replay (iter_tags r) (unat live_id) a = Some v}"
    using attrs_walk_replay [of "int (unat live_id)" 0 "replicate 8 0" "iter_tags r"] z by (simp_all add: rv)
  have "map_of ?xs a = attr_replay (iter_tags r) (unat live_id) a" for a
  proof (cases "attr_replay (iter_tags r) (unat live_id) a")
    case None
    then show ?thesis using w(2) by (auto simp: map_of_eq_None_iff)
  next
    case (Some v)
    then show ?thesis using w by (auto intro!: map_of_is_SomeI)
  qed
  then show ?thesis using w(1) by (auto simp: for_each_live_attr_def call_each_collect)
qed

theorem for_each_live_attr_complete_witness:
  "\<exists>r xs. reader_new tiny_block = Inr r \<and> for_each_live_attr r 0 (\<lambda>a v acc. (acc @ [(a, v)], Inr ())) [] = (xs, Inr ()) \<and>
     distinct (map fst xs)"
proof -
  obtain r where "reader_new tiny_block = Inr r" using tiny_reader by blast
  then show ?thesis using for_each_live_attr_complete [of tiny_block r 0] by blast
qed

text \<open>C21. A create is visible and disturbs nothing: when a create of \<open>nm\<close> at a live id is committed
  behind a readable directory in which \<open>nm\<close> does not resolve, the block reads back, \<open>nm\<close> resolves
  to the entry written, and every other name resolves as before, with the ids at and above the new
  one moved up by one.\<close>

theorem create_then_lookup:
  assumes "reader_new buf = Inr r0" and "has_commits r0" and "erased_from buf (committed_end r0)"
    and "commit_new_appending buf (committed_end r0) (next_ptag r0) = Inr c0"
    and "commit_tags c0 (create_tags i nm k ty body) = Inr c1" and "commit_finish_padded c1 chunk p bs = Inr c2"
    and "chunk AND 0x80 = 0" and "is_struct_type ty"
    and "mp_reader pair = r0" and "live_entries pair collect_cb [] = (ds, Inr cnt)"
    and "cnt < MAX_LIVE_ENTRIES" and "unat i \<le> cnt" and "lookup_checked pair nm = Inr None"
  shows "\<exists>r. reader_new (cm_buf c2) = Inr r \<and>
    lookup_checked (pair\<lparr>mp_reader := r\<rparr>) nm =
      Inr (Some \<lparr>rs_entry = \<lparr>de_id = i, de_name = nm, de_kind = k\<rparr>, struct_type = ty, struct_body = body\<rparr>) \<and>
    (\<forall>m. m \<noteq> nm \<longrightarrow> lookup_checked (pair\<lparr>mp_reader := r\<rparr>) m =
      rbind (lookup_checked pair m) (\<lambda>x. Inr (map_option (renumber (ins_id (unat i))) x)))"
proof -
  let ?x = "\<lparr>ls_name = Some nm, ls_kind = Some k, ls_struct = Some (ty, body)\<rparr>"
  have ve: "valid_entries (create_tags i nm k ty body)"
    using natural_struct(1) [OF assms(8)] natural_struct(2) [of k] by (simp add: create_tags_def)
  obtain r fs where r: "reader_new (cm_buf c2) = Inr r" "iter_tags r = iter_tags r0 @ create_tags i nm k ty body @ fs" "crc_entries fs"
    using append_commit_reader [OF assms(1-6) ve assms(7)] by blast
  obtain ks where k: "lookup_walk (iter_tags r0) (replicate MAX_LIVE_ENTRIES lookup_EMPTY) 0 = Inr (ks, cnt)"
    "length ks = MAX_LIVE_ENTRIES" using lookup_walk_ok [OF assms(10)] assms(9) by metis
  obtain ks' where k': "lookup_walk (create_tags i nm k ty body @ fs) ks cnt = Inr (ks', cnt + 1)"
    "take (cnt + 1) ks' = insert_at (take cnt ks) (unat i) ?x"
    using lookup_walk_create [OF k(2) assms(11,12,8) r(3)] by blast
  have old: "lookup_checked pair m = Inr (find_slot m 0 (take cnt ks))" for m
    using k assms(9) by (simp add: lookup_checked_def)
  have "lookup_walk (iter_tags r) (replicate MAX_LIVE_ENTRIES lookup_EMPTY) 0 = Inr (ks', cnt + 1)"
    by (simp only: r(2) look.walk_append [of "iter_tags r0"] k(1) rbind.simps prod.case k'(1))
  then have new: "lookup_checked (pair\<lparr>mp_reader := r\<rparr>) m = Inr (find_slot m 0 (insert_at (take cnt ks) (unat i) ?x))" for m
    using k'(2) by (simp add: lookup_checked_def)
  have l: "length (take cnt ks) = cnt" using k(2) assms(11) by simp
  have "find_slot nm 0 (take cnt ks) = None" using old assms(13) by simp
  then have none: "find_slot nm 0 (take (unat i) (take cnt ks)) = None"
    using find_slot_append [of nm 0 "take (unat i) (take cnt ks)" "drop (unat i) (take cnt ks)"]
    by (simp del: take_take split: option.splits)
  have hit: "find_slot nm 0 (insert_at (take cnt ks) (unat i) ?x) =
      Some \<lparr>rs_entry = \<lparr>de_id = i, de_name = nm, de_kind = k\<rparr>, struct_type = ty, struct_body = body\<rparr>"
    using none l assms(12) by (simp add: insert_at_def find_slot_append del: take_take)
  have "find_slot m 0 (insert_at (take cnt ks) (unat i) ?x) = map_option (renumber (ins_id (unat i))) (find_slot m 0 (take cnt ks))"
    if "m \<noteq> nm" for m
    by (rule find_slot_insert) (use l assms(11,12) that in \<open>auto simp: MAX_LIVE_ENTRIES_def\<close>)
  then show ?thesis using r(1) old new hit by auto
qed

theorem create_then_lookup_witness:
  "\<exists>buf r0 c0 c1 c2 pair r. reader_new buf = Inr r0 \<and> commit_new_appending buf (committed_end r0) (next_ptag r0) = Inr c0 \<and>
     commit_tags c0 sample_create = Inr c1 \<and> commit_finish_padded c1 0 16 96 = Inr c2 \<and> reader_new (cm_buf c2) = Inr r \<and>
     mp_reader pair = r \<and> (\<exists>x. lookup_checked pair [97] = Inr (Some x) \<and> struct_body x = [120])"
proof -
  let ?b = "tiny_block @ replicate 72 0xFF"
  have "case reader_new ?b of Inl _ \<Rightarrow> False | Inr r \<Rightarrow> committed_end r = 12 \<and> crc_entries (iter_tags r)" by code_simp
  then obtain r0 where r0: "reader_new ?b = Inr r0" "committed_end r0 = 12" "crc_entries (iter_tags r0)" by (auto split: sum.splits)
  have lb: "length ?b = 96" by (simp add: tiny_block_def Let_def)
  have er: "erased_from ?b (committed_end r0)" unfolding r0(2) by (simp add: tiny_block_def Let_def numeral_eq_Suc)
  obtain c0 where c0: "commit_new_appending ?b (committed_end r0) (next_ptag r0) = Inr c0" "cm_offset c0 = 12" "length (cm_buf c0) = 96"
    using lb r0(2) by (simp add: commit_new_appending_def)
  obtain c1 where c1: "commit_tags c0 sample_create = Inr c1" "cm_offset c1 = 26" "length (cm_buf c1) = 96"
    using sample_create_ok [of c0] c0 by auto
  obtain c2 where c2: "commit_finish_padded c1 0 16 96 = Inr c2"
    using commit_finish_padded_ok [of 48 c1 96 16] c1 by (auto simp: div_ceil_def)
  let ?p = "\<lparr>active_block = BlockAddress 0, alternate_block = BlockAddress 1, mp_reader = r0, alternate_valid = False\<rparr>"
  have lw: "lookup_walk (iter_tags (mp_reader ?p)) (replicate MAX_LIVE_ENTRIES lookup_EMPTY) 0 = Inr (replicate MAX_LIVE_ENTRIES lookup_EMPTY, 0)"
    using lookup_walk_crc [OF r0(3)] by simp
  obtain ds where ds: "live_entries ?p collect_cb [] = (ds, Inr 0)" using live_walk_ok [OF lw] by blast
  have "lookup_checked ?p [97] = Inr None" using lw by (simp add: lookup_checked_def)
  from create_then_lookup [OF r0(1) _ er c0(1) c1(1) c2 _ _ _ ds _ _ this] obtain r where
    "reader_new (cm_buf c2) = Inr r" "\<exists>x. lookup_checked (?p\<lparr>mp_reader := r\<rparr>) [97] = Inr (Some x) \<and> struct_body x = [120]"
    using r0(2) by (auto simp: has_commits_def is_struct_type_def MAX_LIVE_ENTRIES_def)
  then show ?thesis using r0(1) c0(1) c1(1) c2
    by (intro exI [of _ ?b] exI [of _ r0] exI [of _ c0] exI [of _ c1] exI [of _ c2] exI [of _ "?p\<lparr>mp_reader := r\<rparr>"] exI [of _ r]) simp
qed

text \<open>A delete removes exactly its entry: when the delete of a resolved name is committed behind a
  directory whose names are distinct, the name no longer resolves and every other name resolves as
  before, with the ids above the deleted one moved down by one.\<close>

theorem delete_then_lookup:
  assumes "reader_new buf = Inr r0" and "has_commits r0" and "erased_from buf (committed_end r0)"
    and "commit_new_appending buf (committed_end r0) (next_ptag r0) = Inr c0"
    and "commit_tags c0 (delete_tags (de_id (rs_entry x))) = Inr c1" and "commit_finish_padded c1 chunk p bs = Inr c2"
    and "chunk AND 0x80 = 0"
    and "mp_reader pair = r0" and "live_entries pair collect_cb [] = (ds, Inr cnt)"
    and "distinct (map de_name ds)" and "lookup_checked pair nm = Inr (Some x)"
  shows "\<exists>r. reader_new (cm_buf c2) = Inr r \<and> lookup_checked (pair\<lparr>mp_reader := r\<rparr>) nm = Inr None \<and>
    (\<forall>m. m \<noteq> nm \<longrightarrow> lookup_checked (pair\<lparr>mp_reader := r\<rparr>) m =
      rbind (lookup_checked pair m) (\<lambda>y. Inr (map_option (renumber (del_id (unat (de_id (rs_entry x))))) y)))"
proof -
  let ?i = "unat (de_id (rs_entry x))"
  have ve: "valid_entries (delete_tags (de_id (rs_entry x)))" by (simp add: delete_tags_def)
  obtain r fs where r: "reader_new (cm_buf c2) = Inr r"
      "iter_tags r = iter_tags r0 @ delete_tags (de_id (rs_entry x)) @ fs" "crc_entries fs"
    using append_commit_reader [OF assms(1-6) ve assms(7)] by blast
  obtain ls ks where k: "lookup_walk (iter_tags r0) (replicate MAX_LIVE_ENTRIES lookup_EMPTY) 0 = Inr (ks, cnt)"
    "length ks = MAX_LIVE_ENTRIES" "cnt \<le> MAX_LIVE_ENTRIES" "map entry_view ls = map slot_view ks" "ds = listing 0 (take cnt ls)"
    using lookup_walk_ok [OF assms(9)] assms(8) by metis
  have old: "lookup_checked pair m = Inr (find_slot m 0 (take cnt ks))" for m
    using k(1) assms(8) by (simp add: lookup_checked_def)
  then have "find_slot nm 0 (take cnt ks) = Some x" using assms(11) by simp
  from find_slot_Some [OF this] obtain j where j: "j < cnt" "ls_name (ks ! j) = Some nm"
      "ls_kind (ks ! j) = Some (de_kind (rs_entry x))" "de_id (rs_entry x) = of_nat j"
    using k(2,3) by (auto dest: arg_cong [where f = de_id])
  have i: "?i = j" using j(1,4) k(3) by (simp add: unsigned_of_nat take_bit_nat_eq_self MAX_LIVE_ENTRIES_def)
  obtain ks' where k': "lookup_walk (delete_tags (de_id (rs_entry x)) @ fs) ks cnt = Inr (ks', cnt - 1)"
    "take (cnt - 1) ks' = remove_at (take cnt ks) j"
    using lookup_walk_delete [OF k(2,3) _ r(3), of "de_id (rs_entry x)"] i j(1) by metis
  have w: "lookup_walk (iter_tags r) (replicate MAX_LIVE_ENTRIES lookup_EMPTY) 0 = Inr (ks', cnt - 1)"
    by (simp only: r(2) look.walk_append [of "iter_tags r0"] k(1) rbind.simps prod.case k'(1))
  then have new: "lookup_checked (pair\<lparr>mp_reader := r\<rparr>) m = Inr (find_slot m 0 (remove_at (take cnt ks) j))" for m
    using k'(2) by (simp add: lookup_checked_def)
  have "find_slot nm 0 (remove_at (take cnt ks) j) = None"
    by (rule find_slot_removed [OF k(4,2,3) _ j(1-3)]) (use assms(10) k(5) in simp)
  moreover have "find_slot m 0 (remove_at (take cnt ks) j) = map_option (renumber (del_id j)) (find_slot m 0 (take cnt ks))"
    if "m \<noteq> nm" for m
    by (rule find_slot_remove) (use k(2,3) j that in \<open>auto simp: MAX_LIVE_ENTRIES_def\<close>)
  ultimately show ?thesis using r(1) old new i by auto
qed

theorem delete_then_lookup_witness:
  "\<exists>buf r0 c0 c1 c2 pair r. reader_new buf = Inr r0 \<and> commit_new_appending buf (committed_end r0) (next_ptag r0) = Inr c0 \<and>
     commit_tags c0 (delete_tags 0) = Inr c1 \<and> commit_finish_padded c1 0 16 128 = Inr c2 \<and> reader_new (cm_buf c2) = Inr r \<and>
     (\<exists>x. lookup_checked (pair\<lparr>mp_reader := r0\<rparr>) [97] = Inr (Some x)) \<and> lookup_checked (pair\<lparr>mp_reader := r\<rparr>) [97] = Inr None"
proof -
  obtain buf r0 fs where d: "reader_new buf = Inr r0" "has_commits r0" "erased_from buf (committed_end r0)"
    "committed_end r0 = 48" "length buf = 128" "iter_tags r0 = sample_create @ fs" "crc_entries fs"
    by (rule sample_dir, elim exE conjE)
  let ?p = "\<lparr>active_block = BlockAddress 0, alternate_block = BlockAddress 1, mp_reader = r0, alternate_valid = False\<rparr>"
  let ?x = "\<lparr>rs_entry = \<lparr>de_id = 0, de_name = [97], de_kind = KindFile\<rparr>, struct_type = InlineStruct, struct_body = [120]\<rparr>"
  have "(0 :: nat) < MAX_LIVE_ENTRIES" "is_struct_type InlineStruct" by (simp_all add: MAX_LIVE_ENTRIES_def is_struct_type_def)
  then obtain ks where ks: "lookup_walk (iter_tags (mp_reader ?p)) (replicate MAX_LIVE_ENTRIES lookup_EMPTY) 0 = Inr (ks, 1)"
      "take 1 ks = [\<lparr>ls_name = Some [97], ls_kind = Some KindFile, ls_struct = Some (InlineStruct, [120])\<rparr>]"
    using lookup_walk_create [of "replicate MAX_LIVE_ENTRIES lookup_EMPTY" 0 0 InlineStruct fs "[97]" KindFile "[120]"] d(6,7)
    by (auto simp: insert_at_def)
  obtain ds where ds: "live_entries ?p collect_cb [] = (ds, Inr 1)" "length ds \<le> 1" using live_walk_ok [OF ks(1)] by blast
  have dist: "distinct (map de_name ds)" using ds(2) by (cases ds) auto
  have lk: "lookup_checked ?p [97] = Inr (Some ?x)" using ks by (simp add: lookup_checked_def)
  obtain c0 where c0: "commit_new_appending buf (committed_end r0) (next_ptag r0) = Inr c0" "cm_offset c0 = 48" "length (cm_buf c0) = 128"
    using d(4,5) by (simp add: commit_new_appending_def)
  obtain c1 where c1: "commit_tag c0 (Tag_new True Delete 0 0) [] = Inr c1" "cm_offset c1 = 52" "length (cm_buf c1) = 128"
    using commit_tag_ok [of "Tag_new True Delete 0 0" "[]" c0] body_len_Tag_new [of 0] c0 by (auto simp: dsize_def is_ccrc_def)
  have t: "commit_tags c0 (delete_tags (de_id (rs_entry ?x))) = Inr c1" using c1(1) by (simp add: delete_tags_def)
  obtain c2 where c2: "commit_finish_padded c1 0 16 128 = Inr c2"
    using commit_finish_padded_ok [of 80 c1 128 16] c1 by (auto simp: div_ceil_def)
  have h: "(0 :: byte) AND 0x80 = 0" "mp_reader ?p = r0" by simp_all
  have "\<exists>r. reader_new (cm_buf c2) = Inr r \<and> lookup_checked (?p\<lparr>mp_reader := r\<rparr>) [97] = Inr None"
    using delete_then_lookup [OF d(1-3) c0(1) t c2 h ds(1) dist lk] by blast
  then obtain r where r: "reader_new (cm_buf c2) = Inr r" "lookup_checked (?p\<lparr>mp_reader := r\<rparr>) [97] = Inr None" by blast
  show ?thesis
    using d(1) c0(1) t c2 r lk
    by (intro exI [of _ buf] exI [of _ r0] exI [of _ c0] exI [of _ c1] exI [of _ c2] exI [of _ ?p] exI [of _ r]) simp
qed

end
