(* ===== verification/Alloc.thy ===== *)
theory Alloc
  imports Dirs Ctz
begin

text \<open>
  The block allocator (\<open>src/src/alloc.rs\<close>, and \<open>pair_in_bounds\<close> of \<open>src/src/fs.rs\<close>): the bitmap of used
  blocks, the breadth first scan of the reachable metadata pairs and CTZ chains, and the choice of
  free blocks, with and without the cached bitmap.

  The fixed arrays of the source that are filled up to a count are lists of that length: the queue
  is \<open>queue[..tail]\<close> with the index \<open>head\<close>, the children are \<open>child_pairs[..child_count]\<close>. The scratch array
  of live structs keeps its 256 slots, because the source reuses it from pair to pair.
\<close>

section \<open>The bitmap\<close>

definition MAX_TRACKED_BLOCKS :: nat where "MAX_TRACKED_BLOCKS = 4096"

definition MAX_QUEUED_PAIRS :: nat where "MAX_QUEUED_PAIRS = 32"

record bitmap =
  bm_bits :: "byte list"

definition bitmap_EMPTY :: bitmap where
  "bitmap_EMPTY = \<lparr>bm_bits = replicate (MAX_TRACKED_BLOCKS div 8) 0\<rparr>"

definition bitmap_set :: "bitmap \<Rightarrow> u32 \<Rightarrow> bitmap result" where
  "bitmap_set bm block =
     (let idx = unat block
      in if idx \<ge> MAX_TRACKED_BLOCKS then Inl OutOfRange
         else Inr (bm\<lparr>bm_bits := (bm_bits bm)[idx div 8 := bm_bits bm ! (idx div 8) OR push_bit (idx mod 8) 1]\<rparr>))"

definition bitmap_is_set :: "bitmap \<Rightarrow> u32 \<Rightarrow> bool" where
  "bitmap_is_set bm block =
     (let idx = unat block
      in if idx \<ge> MAX_TRACKED_BLOCKS then True
         else bm_bits bm ! (idx div 8) AND push_bit (idx mod 8) 1 \<noteq> 0)"


section \<open>Live structs of a metadata block\<close>

record live_struct =
  lv_kind :: byte
  lv_w0 :: u32
  lv_w1 :: u32

definition live_NONE :: live_struct where
  "live_NONE = \<lparr>lv_kind = 0, lv_w0 = 0, lv_w1 = 0\<rparr>"

definition pair_in_bounds :: "'s storage \<Rightarrow> block_pair \<Rightarrow> bool" where
  "pair_in_bounds S p \<longleftrightarrow> as_u32 (bp_a p) < BLOCK_COUNT S \<and> as_u32 (bp_b p) < BLOCK_COUNT S"

fun gather_walk :: "tag_entry list \<Rightarrow> live_struct list \<Rightarrow> nat \<Rightarrow> (live_struct list \<times> nat) result" where
  "gather_walk [] out cnt = Inr (out, cnt)"
| "gather_walk (e # es) out cnt =
     rbind (splice_step out cnt live_NONE (te_tag e)) (\<lambda>(out1, cnt1, oc).
       case oc of
         Other \<Rightarrow>
           (let idx = unat (tag_id (te_tag e))
            in if tag_type (te_tag e) = CtzStruct \<and> idx < MAX_LIVE_ENTRIES \<and> length (te_body e) = 8
               then gather_walk es (out1[idx := \<lparr>lv_kind = 1, lv_w0 = le_u32_at (te_body e) 0, lv_w1 = le_u32_at (te_body e) 4\<rparr>]) cnt1
               else if tag_type (te_tag e) = DirStruct \<and> idx < MAX_LIVE_ENTRIES \<and> length (te_body e) = 8
               then gather_walk es (out1[idx := \<lparr>lv_kind = 2, lv_w0 = le_u32_at (te_body e) 0, lv_w1 = le_u32_at (te_body e) 4\<rparr>]) cnt1
               else gather_walk es out1 cnt1)
       | _ \<Rightarrow> gather_walk es out1 cnt1)"

definition gather_live_structs :: "reader \<Rightarrow> live_struct list \<Rightarrow> (live_struct list \<times> nat) result" where
  "gather_live_structs r out = gather_walk (iter_tags r) out 0"


section \<open>The scan\<close>

text \<open>The loop of \<open>walk_ctz_chain\<close>.\<close>

function chain_loop :: "'s storage \<Rightarrow> u32 \<Rightarrow> nat \<Rightarrow> bitmap \<Rightarrow> byte list \<Rightarrow> ('s, bitmap \<times> byte list) io" where
  "chain_loop S head index used scratch =
     io_bind (io_lift (require_in_bounds S (BlockAddress head))) (\<lambda>head_addr.
     io_bind (io_lift (bitmap_set used (as_u32 head_addr))) (\<lambda>used1.
       if index = 0 then io_return (used1, scratch)
       else
         let count = 2 - index mod 2; need = next_multiple_of (4 * count) (READ_SIZE S)
         in io_bind (dev_read S head 0 (take need scratch)) (\<lambda>w.
              let scratch1 = w @ drop need scratch; ptr0 = le_u32_at scratch1 0
              in if count = 2 then
                   let ptr1 = le_u32_at scratch1 4
                   in io_bind (io_lift (require_in_bounds S (BlockAddress ptr0))) (\<lambda>p0.
                      io_bind (io_lift (bitmap_set used1 (as_u32 p0))) (\<lambda>used2.
                        chain_loop S ptr1 (index - 2) used2 scratch1))
                 else chain_loop S ptr0 (index - 1) used1 scratch1)))"
  by pat_completeness auto

termination
  by (relation "measure (\<lambda>(_, _, index, _). index)") auto

declare chain_loop.simps [simp del]

definition walk_ctz_chain :: "'s storage \<Rightarrow> u32 \<Rightarrow> u32 \<Rightarrow> bitmap \<Rightarrow> byte list \<Rightarrow> ('s, bitmap \<times> byte list) io" where
  "walk_ctz_chain S head_blk sz used scratch =
     (if sz = 0 then io_return (used, scratch)
      else let tot = block_count sz (of_nat (BLOCK_SIZE S))
           in if tot > BLOCK_COUNT S then io_fail Corrupt
              else chain_loop S head_blk (unat (tot - 1)) used scratch)"

text \<open>The collection of one referenced pair, shared by the \<open>DirStruct\<close> arm and the tail.\<close>

definition add_child :: "'s storage \<Rightarrow> bitmap \<Rightarrow> block_pair list \<Rightarrow> block_pair \<Rightarrow> block_pair list result" where
  "add_child S used children child =
     (if \<not> pair_in_bounds S child then Inl Corrupt
      else if (\<not> bitmap_is_set used (as_u32 (bp_a child)) \<or> \<not> bitmap_is_set used (as_u32 (bp_b child))) \<and>
              \<not> contains_pair children child
      then (if length children \<ge> MAX_QUEUED_PAIRS then Inl OutOfRange else Inr (children @ [child]))
      else Inr children)"

fun visit_live ::
  "'s storage \<Rightarrow> live_struct list \<Rightarrow> bitmap \<Rightarrow> block_pair list \<Rightarrow> byte list \<Rightarrow> ('s, bitmap \<times> block_pair list \<times> byte list) io" where
  "visit_live S [] used children buf = io_return (used, children, buf)"
| "visit_live S (l # ls) used children buf =
     (if lv_kind l = 1 then
        io_bind (walk_ctz_chain S (lv_w0 l) (lv_w1 l) used buf) (\<lambda>(used1, buf1). visit_live S ls used1 children buf1)
      else if lv_kind l = 2 then
        io_bind (io_lift (add_child S used children (pair_new (BlockAddress (lv_w0 l)) (BlockAddress (lv_w1 l))))) (\<lambda>children1.
          visit_live S ls used children1 buf)
      else visit_live S ls used children buf)"

fun enqueue :: "block_pair list \<Rightarrow> nat \<Rightarrow> block_pair list \<Rightarrow> block_pair list result" where
  "enqueue queue head [] = Inr queue"
| "enqueue queue head (child # children) =
     (if contains_pair (drop head queue) child then enqueue queue head children
      else if length queue \<ge> MAX_QUEUED_PAIRS then Inl OutOfRange
      else enqueue (queue @ [child]) head children)"

lemma enqueue_length: "enqueue queue head children = Inr queue' \<Longrightarrow> length queue' \<le> max (length queue) MAX_QUEUED_PAIRS"
  by (induction queue head children rule: enqueue.induct) (auto split: if_splits)

text \<open>The loop of \<open>scan_used_blocks\<close>. It ends because \<open>head\<close> advances and the queue never exceeds its
  capacity.\<close>

function used_loop ::
  "'s storage \<Rightarrow> block_pair list \<Rightarrow> nat \<Rightarrow> live_struct list \<Rightarrow> bitmap \<Rightarrow> byte list \<Rightarrow> byte list \<Rightarrow>
   ('s, bitmap \<times> byte list \<times> byte list) io" where
  "used_loop S queue head live used buf_a buf_b =
     (if head < length queue then
        let pair = queue ! head
        in io_bind (io_lift (bitmap_set used (as_u32 (bp_a pair)))) (\<lambda>used1.
           io_bind (io_lift (bitmap_set used1 (as_u32 (bp_b pair)))) (\<lambda>used2.
           io_bind (dev_read S (as_u32 (bp_a pair)) 0 buf_a) (\<lambda>ba.
           io_bind (dev_read S (as_u32 (bp_b pair)) 0 buf_b) (\<lambda>bb.
           io_bind (io_lift (rbind (pair_parse (bp_a pair) ba (bp_b pair) bb) (\<lambda>parsed.
             rbind (gather_live_structs (mp_reader parsed) live) (\<lambda>(live1, n).
               Inr (live1, n, rd_tail (mp_reader parsed)))))) (\<lambda>(live1, cnt, next_tail).
           io_bind (visit_live S (take cnt live1) used2 [] ba) (\<lambda>(used3, children, ba1).
           io_bind (io_lift (case next_tail of None \<Rightarrow> Inr children | Some t \<Rightarrow> add_child S used3 children t)) (\<lambda>children1.
           io_bind (io_lift (enqueue queue (head + 1) children1)) (\<lambda>queue1.
             used_loop S queue1 (head + 1) live1 used3 ba1 bb))))))))
      else io_return (used, buf_a, buf_b))"
  by pat_completeness auto

termination
  by (relation "measure (\<lambda>(_, queue, head, _). max (length queue) MAX_QUEUED_PAIRS - head)")
    (auto dest!: enqueue_length)

declare used_loop.simps [simp del]

definition scan_used_blocks ::
  "'s storage \<Rightarrow> block_pair \<Rightarrow> bitmap \<Rightarrow> byte list \<Rightarrow> byte list \<Rightarrow> ('s, bitmap \<times> byte list \<times> byte list) io" where
  "scan_used_blocks S root used buf_a buf_b =
     (let bs = BLOCK_SIZE S
      in if length buf_a < bs \<or> length buf_b < bs then io_fail GeometryMismatch
         else io_bind (used_loop S [root] 0 (replicate MAX_LIVE_ENTRIES live_NONE) used (take bs buf_a) (take bs buf_b))
                (\<lambda>(used1, ba, bb). io_return (used1, ba @ drop bs buf_a, bb @ drop bs buf_b)))"


text \<open>The single buffer scan: both blocks of every pair, raw tags. \<open>raw_refs\<close> is the loop over the tags
  of one block, collecting children and chains.\<close>

fun raw_refs ::
  "'s storage \<Rightarrow> bitmap \<Rightarrow> tag_entry list \<Rightarrow> block_pair list \<Rightarrow> (u32 \<times> u32) list \<Rightarrow> (block_pair list \<times> (u32 \<times> u32) list) result" where
  "raw_refs S used [] children ctzs = Inr (children, ctzs)"
| "raw_refs S used (e # es) children ctzs =
     (let ty = tag_type (te_tag e); a = le_u32_at (te_body e) 0; b = le_u32_at (te_body e) 4
      in if (ty = DirStruct \<or> ty = HardTail \<or> ty = SoftTail) \<and> length (te_body e) = 8 then
           let child = pair_new (BlockAddress a) (BlockAddress b); is_tail = (ty = HardTail \<or> ty = SoftTail)
           in if is_tail \<and> pair_is_null child then raw_refs S used es children ctzs
              else rbind (add_child S used children child) (\<lambda>children1. raw_refs S used es children1 ctzs)
         else if ty = CtzStruct \<and> length (te_body e) = 8 then
           (if length ctzs \<ge> MAX_QUEUED_PAIRS then Inl OutOfRange
            else raw_refs S used es children (ctzs @ [(a, b)]))
         else raw_refs S used es children ctzs)"

fun raw_blocks ::
  "'s storage \<Rightarrow> bitmap \<Rightarrow> u32 list \<Rightarrow> block_pair list \<Rightarrow> (u32 \<times> u32) list \<Rightarrow> byte list \<Rightarrow>
   ('s, block_pair list \<times> (u32 \<times> u32) list \<times> byte list) io" where
  "raw_blocks S used [] children ctzs buf = io_return (children, ctzs, buf)"
| "raw_blocks S used (block # blocks) children ctzs buf =
     io_bind (dev_read S block 0 buf) (\<lambda>buf1.
       case reader_new buf1 of
         Inl _ \<Rightarrow> raw_blocks S used blocks children ctzs buf1
       | Inr r \<Rightarrow>
           if \<not> has_commits r then raw_blocks S used blocks children ctzs buf1
           else io_bind (io_lift (raw_refs S used (iter_tags r) children ctzs)) (\<lambda>(children1, ctzs1).
                  raw_blocks S used blocks children1 ctzs1 buf1))"

fun walk_chains :: "'s storage \<Rightarrow> (u32 \<times> u32) list \<Rightarrow> bitmap \<Rightarrow> byte list \<Rightarrow> ('s, bitmap \<times> byte list) io" where
  "walk_chains S [] used buf = io_return (used, buf)"
| "walk_chains S ((h, sz) # ctzs) used buf =
     io_bind (walk_ctz_chain S h sz used buf) (\<lambda>(used1, buf1). walk_chains S ctzs used1 buf1)"

function single_loop :: "'s storage \<Rightarrow> block_pair list \<Rightarrow> nat \<Rightarrow> bitmap \<Rightarrow> byte list \<Rightarrow> ('s, bitmap \<times> byte list) io" where
  "single_loop S queue head used buf =
     (if head < length queue then
        let pair = queue ! head
        in io_bind (io_lift (bitmap_set used (as_u32 (bp_a pair)))) (\<lambda>used1.
           io_bind (io_lift (bitmap_set used1 (as_u32 (bp_b pair)))) (\<lambda>used2.
           io_bind (raw_blocks S used2 [as_u32 (bp_a pair), as_u32 (bp_b pair)] [] [] buf) (\<lambda>(children, ctzs, buf1).
           io_bind (walk_chains S ctzs used2 buf1) (\<lambda>(used3, buf2).
           io_bind (io_lift (enqueue queue (head + 1) children)) (\<lambda>queue1.
             single_loop S queue1 (head + 1) used3 buf2)))))
      else io_return (used, buf))"
  by pat_completeness auto

termination
  by (relation "measure (\<lambda>(_, queue, head, _). max (length queue) MAX_QUEUED_PAIRS - head)")
    (auto dest!: enqueue_length)

declare single_loop.simps [simp del]

definition scan_used_with_single_buf :: "'s storage \<Rightarrow> block_pair \<Rightarrow> bitmap \<Rightarrow> byte list \<Rightarrow> ('s, bitmap \<times> byte list) io" where
  "scan_used_with_single_buf S root used buf =
     (let bs = BLOCK_SIZE S
      in if length buf < bs then io_fail GeometryMismatch
         else io_bind (single_loop S [root] 0 used (take bs buf)) (\<lambda>(used1, b). io_return (used1, b @ drop bs buf)))"


section \<open>Choosing free blocks\<close>

fun exclude_blocks :: "bitmap \<Rightarrow> block_address list \<Rightarrow> bitmap \<times> unit result" where
  "exclude_blocks used [] = (used, Inr ())"
| "exclude_blocks used (ex # exs) =
     (if is_none ex then exclude_blocks used exs
      else case bitmap_set used (as_u32 ex) of Inl e \<Rightarrow> (used, Inl e) | Inr used1 \<Rightarrow> exclude_blocks used1 exs)"

text \<open>The search loop: \<open>b\<close> runs over the addresses below \<open>block_count\<close>, \<open>filled\<close> counts the slots of
  \<open>out\<close> already written.\<close>

fun pick_blocks :: "bitmap \<Rightarrow> block_address list \<Rightarrow> nat \<Rightarrow> u32 list \<Rightarrow> bitmap \<times> (block_address list \<times> nat) result" where
  "pick_blocks used out filled [] = (used, Inr (out, filled))"
| "pick_blocks used out filled (b # bs) =
     (if filled \<ge> length out then (used, Inr (out, filled))
      else if \<not> bitmap_is_set used b then
        (case bitmap_set used b of Inl e \<Rightarrow> (used, Inl e)
         | Inr used1 \<Rightarrow> pick_blocks used1 (out[filled := BlockAddress b]) (filled + 1) bs)
      else pick_blocks used out filled bs)"

definition addresses :: "u32 \<Rightarrow> u32 list" where
  "addresses bcount = map of_nat [0..<unat bcount]"

definition take_free_blocks :: "bitmap \<Rightarrow> block_address list \<Rightarrow> block_address list \<Rightarrow> u32 \<Rightarrow> bitmap \<times> block_address list result" where
  "take_free_blocks used excluded out bcount =
     (case exclude_blocks used excluded of
        (used1, Inl e) \<Rightarrow> (used1, Inl e)
      | (used1, Inr _) \<Rightarrow>
          (case pick_blocks used1 out 0 (addresses bcount) of
             (used2, Inl e) \<Rightarrow> (used2, Inl e)
           | (used2, Inr (out', filled)) \<Rightarrow> (used2, if filled < length out then Inl OutOfRange else Inr out')))"

text \<open>\<open>alloc_blocks_excluding\<close> runs the same two loops on the bitmap of a fresh scan.\<close>

definition alloc_blocks_excluding ::
  "'s storage \<Rightarrow> block_pair \<Rightarrow> block_address list \<Rightarrow> block_address list \<Rightarrow> byte list \<Rightarrow> byte list \<Rightarrow>
   ('s, block_address list \<times> byte list \<times> byte list) io" where
  "alloc_blocks_excluding S root excluded out buf_a buf_b =
     io_bind (scan_used_blocks S root bitmap_EMPTY buf_a buf_b) (\<lambda>(used, ba, bb).
     io_bind (io_lift (case exclude_blocks used excluded of (u, Inl e) \<Rightarrow> Inl e | (u, Inr _) \<Rightarrow> Inr u)) (\<lambda>used1.
     io_bind (io_lift (snd (pick_blocks used1 out 0 (addresses (BLOCK_COUNT S))))) (\<lambda>(out', filled).
       if filled < length out then io_fail OutOfRange else io_return (out', ba, bb))))"

definition alloc_blocks ::
  "'s storage \<Rightarrow> block_pair \<Rightarrow> block_address list \<Rightarrow> byte list \<Rightarrow> byte list \<Rightarrow>
   ('s, block_address list \<times> byte list \<times> byte list) io" where
  "alloc_blocks S root out buf_a buf_b = alloc_blocks_excluding S root [] out buf_a buf_b"

fun exclude_all :: "bitmap \<Rightarrow> block_address list \<Rightarrow> bitmap result" where
  "exclude_all used [] = Inr used"
| "exclude_all used (ex # exs) = rbind (bitmap_set used (as_u32 ex)) (\<lambda>used1. exclude_all used1 exs)"

definition alloc_one_block_with_single_buf ::
  "'s storage \<Rightarrow> block_pair \<Rightarrow> block_address list \<Rightarrow> byte list \<Rightarrow> ('s, block_address \<times> byte list) io" where
  "alloc_one_block_with_single_buf S root excluded buf =
     io_bind (scan_used_with_single_buf S root bitmap_EMPTY buf) (\<lambda>(used, buf1).
     io_bind (io_lift (exclude_all used excluded)) (\<lambda>used1.
       case filter (\<lambda>b. \<not> bitmap_is_set used1 b) (addresses (BLOCK_COUNT S)) of
         [] \<Rightarrow> io_fail OutOfRange
       | b # _ \<Rightarrow> io_return (BlockAddress b, buf1)))"

text \<open>The cached variants: the state is the device with the cached bitmap, so that the marks a failed
  attempt leaves in the cache are part of the model.\<close>

definition on_dev :: "('s, 'a) io \<Rightarrow> ('s \<times> bitmap option, 'a) io" where
  "on_dev m = (\<lambda>(st, cache). case m st of (st', r) \<Rightarrow> ((st', cache), r))"

definition take_cached :: "block_address list \<Rightarrow> block_address list \<Rightarrow> u32 \<Rightarrow> ('s \<times> bitmap option, block_address list option) io" where
  "take_cached excluded out bcount =
     (\<lambda>(st, cache). case cache of None \<Rightarrow> ((st, None), Inr None)
        | Some bm \<Rightarrow> (case take_free_blocks bm excluded out bcount of
             (bm', Inl _) \<Rightarrow> ((st, Some bm'), Inr None)
           | (bm', Inr out') \<Rightarrow> ((st, Some bm'), Inr (Some out'))))"

definition store_cache :: "bitmap \<Rightarrow> ('s \<times> bitmap option, unit) io" where
  "store_cache bm = (\<lambda>(st, _). ((st, Some bm), Inr ()))"

definition exclude_chain_blocks :: "'s storage \<Rightarrow> (u32 \<times> u32) option \<Rightarrow> bitmap \<Rightarrow> byte list \<Rightarrow> ('s, bitmap \<times> byte list) io" where
  "exclude_chain_blocks S exclude_chain fresh buf =
     (case exclude_chain of None \<Rightarrow> io_return (fresh, buf) | Some (head, sz) \<Rightarrow> walk_ctz_chain S head sz fresh buf)"

definition alloc_blocks_cached ::
  "'s storage \<Rightarrow> block_pair \<Rightarrow> block_address list \<Rightarrow> (u32 \<times> u32) option \<Rightarrow> block_address list \<Rightarrow> byte list \<Rightarrow> byte list \<Rightarrow>
   ('s \<times> bitmap option, block_address list \<times> byte list \<times> byte list) io" where
  "alloc_blocks_cached S root excluded exclude_chain out buf_a buf_b =
     io_bind (take_cached excluded out (BLOCK_COUNT S)) (\<lambda>hit.
       case hit of Some out' \<Rightarrow> io_return (out', buf_a, buf_b)
       | None \<Rightarrow>
           io_bind (on_dev (scan_used_blocks S root bitmap_EMPTY buf_a buf_b)) (\<lambda>(fresh, ba, bb).
           io_bind (on_dev (exclude_chain_blocks S exclude_chain fresh ba)) (\<lambda>(fresh1, ba1).
             let (fresh2, r) = take_free_blocks fresh1 excluded out (BLOCK_COUNT S)
             in io_bind (io_lift r) (\<lambda>out'. io_bind (store_cache fresh2) (\<lambda>_. io_return (out', ba1, bb))))))"

definition alloc_one_block_cached_single_buf ::
  "'s storage \<Rightarrow> block_pair \<Rightarrow> block_address list \<Rightarrow> (u32 \<times> u32) option \<Rightarrow> byte list \<Rightarrow>
   ('s \<times> bitmap option, block_address \<times> byte list) io" where
  "alloc_one_block_cached_single_buf S root excluded exclude_chain buf =
     io_bind (take_cached excluded [block_NONE] (BLOCK_COUNT S)) (\<lambda>hit.
       case hit of Some out' \<Rightarrow> io_return (out' ! 0, buf)
       | None \<Rightarrow>
           io_bind (on_dev (scan_used_with_single_buf S root bitmap_EMPTY buf)) (\<lambda>(fresh, b1).
           io_bind (on_dev (exclude_chain_blocks S exclude_chain fresh b1)) (\<lambda>(fresh1, b2).
             let (fresh2, r) = take_free_blocks fresh1 excluded [block_NONE] (BLOCK_COUNT S)
             in io_bind (io_lift r) (\<lambda>out'. io_bind (store_cache fresh2) (\<lambda>_. io_return (out' ! 0, b2))))))"


section \<open>The bitmap as a set of blocks\<close>

definition bitmap_ok :: "bitmap \<Rightarrow> bool" where
  "bitmap_ok bm \<longleftrightarrow> length (bm_bits bm) = MAX_TRACKED_BLOCKS div 8"

definition marked :: "bitmap \<Rightarrow> u32 set" where
  "marked bm = {b. unat b < MAX_TRACKED_BLOCKS \<and> bit (bm_bits bm ! (unat b div 8)) (unat b mod 8)}"

lemma bitmap_is_set_marked: "bitmap_is_set bm b \<longleftrightarrow> MAX_TRACKED_BLOCKS \<le> unat b \<or> b \<in> marked bm"
  using and_exp_eq_0_iff_not_bit [of "bm_bits bm ! (unat b div 8)" "unat b mod 8"]
  by (auto simp: bitmap_is_set_def marked_def Let_def)

lemma bitmap_EMPTY_facts: "bitmap_ok bitmap_EMPTY" "marked bitmap_EMPTY = {}"
  by (auto simp: bitmap_ok_def bitmap_EMPTY_def marked_def MAX_TRACKED_BLOCKS_def)

lemma bitmap_set_Inr:
  assumes "bitmap_set bm b = Inr bm'" "bitmap_ok bm"
  shows "bitmap_ok bm'" "marked bm' = insert b (marked bm)" "unat b < MAX_TRACKED_BLOCKS"
proof -
  have b: "unat b < MAX_TRACKED_BLOCKS"
    and bm': "bm' = bm\<lparr>bm_bits := (bm_bits bm)[unat b div 8 := bm_bits bm ! (unat b div 8) OR push_bit (unat b mod 8) 1]\<rparr>"
    using assms(1) by (auto simp: bitmap_set_def Let_def split: if_splits)
  show "bitmap_ok bm'" "unat b < MAX_TRACKED_BLOCKS" using assms(2) b by (simp_all add: bm' bitmap_ok_def)
  have idx: "unat c div 8 < length (bm_bits bm)" if "unat c < MAX_TRACKED_BLOCKS" for c :: u32
    using that assms(2) by (simp add: bitmap_ok_def MAX_TRACKED_BLOCKS_def)
  have same: "unat b div 8 = unat c div 8 \<Longrightarrow> unat b mod 8 = unat c mod 8 \<Longrightarrow> b = c" for c
    using mult_div_mod_eq [of 8 "unat b"] mult_div_mod_eq [of 8 "unat c"] by (metis word_unat_eq_iff)
  have or1: "bit (x OR push_bit k 1) j \<longleftrightarrow> bit x j \<or> j = k" if "k < 8" for x :: byte and k j
    using that by (auto simp: bit_or_iff bit_exp_iff)
  have "c \<in> marked bm' \<longleftrightarrow> c = b \<or> c \<in> marked bm" for c
  proof (cases "unat b div 8 = unat c div 8 \<and> unat c < MAX_TRACKED_BLOCKS")
    case True
    then have "bm_bits bm' ! (unat c div 8) = bm_bits bm ! (unat c div 8) OR push_bit (unat b mod 8) 1"
      using idx [of c] by (simp add: bm')
    then have "c \<in> marked bm' \<longleftrightarrow> bit (bm_bits bm ! (unat c div 8)) (unat c mod 8) \<or> unat c mod 8 = unat b mod 8"
      using True or1 [of "unat b mod 8"] by (simp add: marked_def)
    moreover have "unat c mod 8 = unat b mod 8 \<longleftrightarrow> c = b" using True same [of c] by metis
    moreover have "c \<in> marked bm \<longleftrightarrow> bit (bm_bits bm ! (unat c div 8)) (unat c mod 8)" using True by (simp add: marked_def)
    ultimately show ?thesis by blast
  next
    case False
    then have "c \<in> marked bm' \<longleftrightarrow> c \<in> marked bm" by (auto simp: marked_def bm')
    then show ?thesis using False b by auto
  qed
  then show "marked bm' = insert b (marked bm)" by blast
qed

lemma bitmap_set_Inl: "bitmap_set bm b = Inl e \<longleftrightarrow> MAX_TRACKED_BLOCKS \<le> unat b \<and> e = OutOfRange"
  by (auto simp: bitmap_set_def Let_def)


lemma exclude_blocks_spec:
  assumes "exclude_blocks used exs = (used', r)" "bitmap_ok used"
  shows "bitmap_ok used' \<and> marked used \<subseteq> marked used' \<and>
    (case r of Inr _ \<Rightarrow> marked used' = marked used \<union> as_u32 ` (set exs - {block_NONE}) \<and>
         (\<forall>ex\<in>set exs. ex \<noteq> block_NONE \<longrightarrow> unat (as_u32 ex) < MAX_TRACKED_BLOCKS)
     | Inl e \<Rightarrow> e = OutOfRange \<and> (\<exists>ex\<in>set exs. ex \<noteq> block_NONE \<and> MAX_TRACKED_BLOCKS \<le> unat (as_u32 ex)))"
  using assms
proof (induction used exs rule: exclude_blocks.induct)
  case (2 used ex exs)
  show ?case
  proof (cases "ex = block_NONE")
    case True
    then show ?thesis using 2(1) 2(3,4) by (auto split: sum.splits)
  next
    case ne: False
    show ?thesis
    proof (cases "bitmap_set used (as_u32 ex)")
      case (Inl e)
      then show ?thesis using 2(3,4) ne bitmap_set_Inl [of used "as_u32 ex" e] by auto
    next
      case (Inr u)
      note s = bitmap_set_Inr [OF Inr 2(4)]
      have "exclude_blocks u exs = (used', r)" using 2(3) ne Inr by simp
      from 2(2) [OF _ Inr this s(1)] show ?thesis using ne s(2,3) by (auto split: sum.splits)
    qed
  qed
qed auto

lemma pick_blocks_spec:
  assumes "bitmap_ok used" "filled \<le> length out" "distinct bs"
    and "n = min (length out - filled) (length (filter (\<lambda>b. \<not> bitmap_is_set used b) bs))"
  shows "\<exists>used'. pick_blocks used out filled bs =
      (used', Inr (take filled out @ map BlockAddress (take n (filter (\<lambda>b. \<not> bitmap_is_set used b) bs)) @ drop (filled + n) out, filled + n)) \<and>
    bitmap_ok used' \<and> marked used' = marked used \<union> set (take n (filter (\<lambda>b. \<not> bitmap_is_set used b) bs))"
  using assms
proof (induction bs arbitrary: used out filled n)
  case (Cons b bs)
  show ?case
  proof (cases "filled < length out \<and> \<not> bitmap_is_set used b")
    case True
    then obtain u where u: "bitmap_set used b = Inr u"
      using bitmap_set_Inl [of used b] by (cases "bitmap_set used b") (auto simp: bitmap_is_set_marked)
    note s = bitmap_set_Inr [OF u Cons.prems(1)]
    have fl: "filter (\<lambda>c. \<not> bitmap_is_set u c) bs = filter (\<lambda>c. \<not> bitmap_is_set used c) bs"
      by (rule filter_cong) (use Cons.prems(3) s(2) in \<open>auto simp: bitmap_is_set_marked\<close>)
    define k where "k = min (length out - Suc filled) (length (filter (\<lambda>c. \<not> bitmap_is_set used c) bs))"
    have "length out - filled = Suc (length out - Suc filled)" using True by linarith
    then have n: "n = Suc k" using Cons.prems(4) True by (simp only: k_def) simp
    have "distinct bs" "Suc filled \<le> length (out[filled := BlockAddress b])"
      "k = min (length (out[filled := BlockAddress b]) - Suc filled) (length (filter (\<lambda>c. \<not> bitmap_is_set u c) bs))"
      using Cons.prems(3) True fl by (auto simp: k_def)
    from Cons.IH [OF s(1) this(2,1,3)] obtain used' where
      "pick_blocks u (out[filled := BlockAddress b]) (Suc filled) bs = (used', Inr (take (Suc filled) (out[filled := BlockAddress b]) @
         map BlockAddress (take k (filter (\<lambda>c. \<not> bitmap_is_set used c) bs)) @ drop (Suc filled + k) (out[filled := BlockAddress b]), Suc filled + k))"
      "bitmap_ok used'" "marked used' = marked u \<union> set (take k (filter (\<lambda>c. \<not> bitmap_is_set used c) bs))"
      unfolding fl by blast
    then show ?thesis using True u s(2) n by (simp add: take_Suc_conv_app_nth)
  next
    case False
    show ?thesis
    proof (cases "filled < length out")
      case True
      then show ?thesis using False Cons.IH [OF Cons.prems(1,2) _ refl] Cons.prems(3,4) by simp
    next
      case False
      then show ?thesis using Cons.prems by simp
    qed
  qed
qed simp

lemma addresses_facts: "distinct (addresses n)" "set (addresses n) = {b. b < n}" "sorted (map unat (addresses n))"
proof -
  have small: "k < unat n \<Longrightarrow> unat (of_nat k :: u32) = k" for k
    by (rule unat_small_of_nat) (rule order_less_trans [OF _ unat_u32_less])
  have m: "map unat (addresses n) = [0..<unat n]"
    by (rule nth_equalityI) (simp_all add: addresses_def small)
  then show "sorted (map unat (addresses n))" by simp
  show "distinct (addresses n)" using m distinct_map [of unat "addresses n"] by simp
  have "unat ` set (addresses n) = {0..<unat n}" using arg_cong [OF m, of set] by simp
  moreover have "unat ` {b. b < n} = {0..<unat n}"
  proof (intro equalityI subsetI)
    fix k assume "k \<in> {0..<unat n}"
    then have "k = unat (of_nat k :: u32)" "(of_nat k :: u32) < n" using small [of k] by (simp_all add: word_less_nat_alt)
    then show "k \<in> unat ` {b. b < n}" by blast
  qed (auto simp: word_less_nat_alt)
  ultimately show "set (addresses n) = {b. b < n}" by (metis inj_image_eq_iff injI word_unat_eq_iff)
qed

text \<open>The blocks an allocation may hand out.\<close>

definition free_blocks :: "bitmap \<Rightarrow> block_address list \<Rightarrow> u32 \<Rightarrow> u32 set" where
  "free_blocks used excluded bcount =
     {b. b < bcount \<and> unat b < MAX_TRACKED_BLOCKS \<and> b \<notin> marked used \<and> BlockAddress b \<notin> set excluded}"

lemma take_free_facts:
  assumes "bitmap_ok used" "take_free_blocks used excluded out bcount = (used', r)"
  shows "bitmap_ok used' \<and> marked used \<subseteq> marked used' \<and>
    (case r of
       Inr out' \<Rightarrow> length out' = length out \<and> distinct out' \<and> sorted (map (unat \<circ> as_u32) out') \<and>
         as_u32 ` set out' \<subseteq> free_blocks used excluded bcount \<and>
         marked used' = marked used \<union> as_u32 ` (set excluded - {block_NONE}) \<union> as_u32 ` set out'
     | Inl e \<Rightarrow> e = OutOfRange \<and>
         ((\<exists>ex\<in>set excluded. ex \<noteq> block_NONE \<and> MAX_TRACKED_BLOCKS \<le> unat (as_u32 ex)) \<or>
          card (free_blocks used excluded bcount) < length out))"
proof -
  obtain u r1 where ex: "exclude_blocks used excluded = (u, r1)" by fastforce
  note E = exclude_blocks_spec [OF ex assms(1)]
  show ?thesis
  proof (cases r1)
    case (Inl e)
    then show ?thesis using assms(2) E ex by (auto simp: take_free_blocks_def)
  next
    case (Inr x)
    have um: "marked u = marked used \<union> as_u32 ` (set excluded - {block_NONE})" and uo: "bitmap_ok u" using E Inr by simp_all
    let ?fr = "filter (\<lambda>b. \<not> bitmap_is_set u b) (addresses bcount)"
    define n where "n = min (length out) (length ?fr)"
    obtain u2 where pk: "pick_blocks u out 0 (addresses bcount) = (u2, Inr (map BlockAddress (take n ?fr) @ drop n out, n))"
        "bitmap_ok u2" "marked u2 = marked u \<union> set (take n ?fr)"
      using pick_blocks_spec [OF uo, of 0 out "addresses bcount" n] addresses_facts(1) [of bcount] by (auto simp: n_def)
    have none: "BlockAddress b \<noteq> block_NONE" if "b < bcount" for b
    proof
      assume "BlockAddress b = block_NONE"
      then have "4294967295 < unat bcount" using that by (simp add: block_NONE_def word_less_nat_alt)
      moreover have "unat bcount < 4294967296" by (rule unat_u32_less)
      ultimately show False by linarith
    qed
    have fr: "set ?fr = free_blocks used excluded bcount"
    proof -
      have "b \<in> as_u32 ` (set excluded - {block_NONE}) \<longleftrightarrow> BlockAddress b \<in> set excluded" if "b < bcount" for b
        using none [OF that] imageI [of "BlockAddress b" "set excluded - {block_NONE}" as_u32] by auto
      then show ?thesis using um by (auto simp: free_blocks_def addresses_facts bitmap_is_set_marked)
    qed
    have dfr: "distinct ?fr" using addresses_facts(1) [of bcount] by simp
    have card: "card (free_blocks used excluded bcount) = length ?fr" using fr distinct_card [OF dfr] by simp
    have r: "used' = u2" "r = (if n < length out then Inl OutOfRange else Inr (map BlockAddress (take n ?fr) @ drop n out))"
      using assms(2) ex Inr pk(1) by (auto simp: take_free_blocks_def)
    have sub: "marked used \<subseteq> marked u2" using pk(3) um by auto
    show ?thesis
    proof (cases "n < length out")
      case True
      then have "length ?fr < length out" by (simp add: n_def min_def split: if_splits)
      then show ?thesis using r True pk(2) sub card by simp
    next
      case False
      then have n: "n = length out" by (simp add: n_def)
      have "sorted (map unat (take n ?fr))"
        using sorted_filter [of unat "addresses bcount" "\<lambda>b. \<not> bitmap_is_set u b"] addresses_facts(3) [of bcount]
        by (metis sorted_wrt_take take_map)
      moreover have "set (take n ?fr) \<subseteq> free_blocks used excluded bcount" using set_take_subset [of n ?fr] fr by simp
      moreover have "length (take n ?fr) = length out" using n by (simp add: n_def)
      moreover have "distinct (take n ?fr)" using dfr by simp
      ultimately show ?thesis using r False n pk um sub
        by (auto simp: distinct_map inj_on_def comp_def image_image)
    qed
  qed
qed


section \<open>Properties\<close>

text \<open>Choosing blocks: a successful choice fills the whole request with distinct addresses in
  ascending order, each on the device, trackable, unmarked and not excluded, and marks exactly those
  and the excluded ones; it fails, with \<open>OutOfRange\<close>, only when an excluded address is out of the
  bitmap's range or fewer free blocks remain than requested, and even then no mark is lost.\<close>

theorem take_free_blocks_spec:
  assumes "bitmap_ok used" and "take_free_blocks used excluded out bcount = (used', r)"
  shows "bitmap_ok used' \<and> marked used \<subseteq> marked used' \<and>
    (case r of
       Inr out' \<Rightarrow> length out' = length out \<and> distinct out' \<and> sorted (map (unat \<circ> as_u32) out') \<and>
         as_u32 ` set out' \<subseteq> free_blocks used excluded bcount \<and>
         marked used' = marked used \<union> as_u32 ` (set excluded - {block_NONE}) \<union> as_u32 ` set out'
     | Inl e \<Rightarrow> e = OutOfRange \<and>
         ((\<exists>ex\<in>set excluded. ex \<noteq> block_NONE \<and> MAX_TRACKED_BLOCKS \<le> unat (as_u32 ex)) \<or>
          card (free_blocks used excluded bcount) < length out))"
  by (rule take_free_facts [OF assms])

theorem take_free_blocks_spec_witness:
  "\<exists>used' out'. take_free_blocks bitmap_EMPTY [BlockAddress 0] [block_NONE] 2 = (used', Inr out') \<and>
     length out' = 1 \<and> as_u32 ` set out' \<subseteq> {1} \<and> 0 \<in> marked used'"
proof -
  obtain u r where t: "take_free_blocks bitmap_EMPTY [BlockAddress 0] [block_NONE] 2 = (u, r)" by fastforce
  have f: "free_blocks bitmap_EMPTY [BlockAddress 0] 2 = {1}"
  proof -
    have "b = 0 \<or> b = 1" if "b < 2" for b :: u32
    proof -
      have "unat b < 2" using that by (simp add: word_less_nat_alt)
      then consider "unat b = unat (0 :: u32)" | "unat b = unat (1 :: u32)" by fastforce
      then show ?thesis by cases (simp_all only: flip: word_unat_eq_iff, simp_all)
    qed
    then show ?thesis by (auto simp: free_blocks_def bitmap_EMPTY_facts MAX_TRACKED_BLOCKS_def)
  qed
  show ?thesis
    using take_free_blocks_spec [OF bitmap_EMPTY_facts(1) t] t f
    by (cases r) (auto simp: MAX_TRACKED_BLOCKS_def block_NONE_def bitmap_EMPTY_facts)
qed

end
