(* ===== verification/Alloc_Scan.thy ===== *)
theory Alloc_Scan
  imports Alloc
begin

text \<open>
  What the two buffer scan of \<open>src/src/alloc.rs\<close> covers: on a device whose reachable structures do not
  share blocks, every block of every reachable metadata pair and of every live CTZ chain is marked,
  so no allocation made from the scan hands out a block in use.
\<close>

section \<open>The live structs of a block, whatever the scratch array held\<close>

definition struct_at :: "byte \<Rightarrow> tag_entry \<Rightarrow> live_struct" where
  "struct_at k e = \<lparr>lv_kind = k, lv_w0 = le_u32_at (te_body e) 0, lv_w1 = le_u32_at (te_body e) 4\<rparr>"

fun gather_upd :: "tag_entry \<Rightarrow> splice_outcome \<Rightarrow> live_struct list \<Rightarrow> live_struct list" where
  "gather_upd e Other out =
     (let idx = unat (tag_id (te_tag e))
      in if tag_type (te_tag e) = CtzStruct \<and> idx < MAX_LIVE_ENTRIES \<and> length (te_body e) = 8 then out[idx := struct_at 1 e]
         else if tag_type (te_tag e) = DirStruct \<and> idx < MAX_LIVE_ENTRIES \<and> length (te_body e) = 8 then out[idx := struct_at 2 e]
         else out)"
| "gather_upd e _ out = out"

interpretation gath: slot_walker gather_walk live_NONE gather_upd
proof unfold_locales
  fix e es slots cnt
  show "gather_walk (e # es) slots cnt =
      rbind (splice_step slots cnt live_NONE (te_tag e)) (\<lambda>(s, c, oc). gather_walk es (gather_upd e oc s) c)"
    by (cases "splice_step slots cnt live_NONE (te_tag e)") (auto simp: Let_def struct_at_def split: splice_outcome.splits)
  fix e :: tag_entry and oc slots show "length (gather_upd e oc slots) = length slots" by (cases oc) (simp_all add: Let_def)
qed simp

lemma splice_step_elems:
  assumes "splice_step slots cnt emp t = Inr (slots', cnt', oc)" "length slots = MAX_LIVE_ENTRIES" "cnt \<le> MAX_LIVE_ENTRIES"
  shows "set slots' \<subseteq> insert emp (set slots)"
proof
  fix x assume "x \<in> set slots'"
  then obtain j where j: "j < length slots'" "x = slots' ! j" by (auto simp: in_set_conv_nth)
  have l: "length slots' = length slots" using splice_step_bounds [OF assms(1,3)] by simp
  consider "slots' = slots" | i where "cnt < length slots" "slots' = (shift_up slots cnt i)[i := emp]"
    | i where "slots' = (shift_down slots i cnt)[cnt - 1 := emp]"
    using assms by (auto simp: splice_step_cases Let_def split: if_splits)
  then show "x \<in> insert emp (set slots)"
  proof cases
    case 1
    then show ?thesis using j by simp
  next
    case 2
    then show ?thesis using j l shift_up_nth [of cnt slots j i]
      by (auto simp: nth_list_update_total intro!: nth_mem)
  next
    case 3
    then show ?thesis using j l shift_down_nth [of cnt slots j i] assms(2,3)
      by (auto simp: nth_list_update_total intro!: nth_mem)
  qed
qed

text \<open>Run on a scratch array with leftovers, the gathering ends with the slots a fresh array would have,
  except that a slot left empty may show a leftover.\<close>

definition leftover :: "live_struct set \<Rightarrow> live_struct \<times> live_struct \<Rightarrow> bool" where
  "leftover L z \<longleftrightarrow> snd z = fst z \<or> fst z = live_NONE \<and> snd z \<in> L"

lemma gather_upd_zip:
  assumes "\<forall>z\<in>set zs. leftover L z"
  shows "\<exists>zs'. gather_upd e oc (map fst zs) = map fst zs' \<and> gather_upd e oc (map snd zs) = map snd zs' \<and>
    length zs' = length zs \<and> (\<forall>z\<in>set zs'. leftover L z)"
proof -
  have upd: "\<exists>zs'. (map fst zs)[i := x] = map fst zs' \<and> (map snd zs)[i := x] = map snd zs' \<and>
      length zs' = length zs \<and> (\<forall>z\<in>set zs'. leftover L z)" for i x
    by (rule exI [of _ "zs[i := (x, x)]"])
       (use assms set_update_subset_insert [of zs i "(x, x)"] in \<open>auto simp: map_update leftover_def\<close>)
  have keep: "\<exists>zs'. map fst zs = map fst zs' \<and> map snd zs = map snd zs' \<and>
      length zs' = length zs \<and> (\<forall>z\<in>set zs'. leftover L z)" using assms by blast
  show ?thesis
  proof (cases oc)
    case Other
    let ?ctz = "tag_type (te_tag e) = CtzStruct \<and> unat (tag_id (te_tag e)) < MAX_LIVE_ENTRIES \<and> length (te_body e) = 8"
    let ?dir = "tag_type (te_tag e) = DirStruct \<and> unat (tag_id (te_tag e)) < MAX_LIVE_ENTRIES \<and> length (te_body e) = 8"
    have "gather_upd e oc out = (if ?ctz then out[unat (tag_id (te_tag e)) := struct_at 1 e]
        else if ?dir then out[unat (tag_id (te_tag e)) := struct_at 2 e] else out)" for out
      by (simp add: Other Let_def)
    then show ?thesis using upd keep by presburger
  qed (use keep in simp_all)
qed

lemma gather_walk_zip:
  assumes "gather_walk es (map snd zs) cnt = Inr (s, n)" "length zs = MAX_LIVE_ENTRIES" "cnt \<le> MAX_LIVE_ENTRIES"
    and "\<forall>z\<in>set zs. leftover L z"
  shows "\<exists>zs'. gather_walk es (map fst zs) cnt = Inr (map fst zs', n) \<and> s = map snd zs' \<and>
    length zs' = MAX_LIVE_ENTRIES \<and> n \<le> MAX_LIVE_ENTRIES \<and> (\<forall>z\<in>set zs'. leftover L z)"
  using assms
proof (induction es arbitrary: zs cnt)
  case (Cons e es)
  obtain s1 c oc where st: "splice_step (map snd zs) cnt live_NONE (te_tag e) = Inr (s1, c, oc)"
    and w: "gather_walk es (gather_upd e oc s1) c = Inr (s, n)"
    using Cons.prems(1) by (auto simp: gath.walk_Cons simp del: gather_walk.simps)
  obtain zs1 where z1: "splice_step zs cnt (live_NONE, live_NONE) (te_tag e) = Inr (zs1, c, oc)" "s1 = map snd zs1"
    using splice_step_map [OF Cons.prems(2,3), of snd "(live_NONE, live_NONE)" "te_tag e"] st by (auto split: sum.splits)
  have f1: "splice_step (map fst zs) cnt live_NONE (te_tag e) = Inr (map fst zs1, c, oc)"
    using splice_step_map [OF Cons.prems(2,3), of fst "(live_NONE, live_NONE)" "te_tag e"] z1 by simp
  note b = splice_step_bounds [OF z1(1) Cons.prems(3)]
  have lo: "\<forall>z\<in>set zs1. leftover L z"
    using splice_step_elems [OF z1(1) Cons.prems(2,3)] Cons.prems(4) by (auto simp: leftover_def)
  obtain zs2 where z2: "gather_upd e oc (map fst zs1) = map fst zs2" "gather_upd e oc (map snd zs1) = map snd zs2"
    "length zs2 = MAX_LIVE_ENTRIES" "\<forall>z\<in>set zs2. leftover L z"
    using gather_upd_zip [OF lo, of e oc] b(1) Cons.prems(2) by metis
  from Cons.IH [OF _ z2(3) b(2) z2(4)] w z1(2) z2(2) f1 z2(1) show ?case
    by (simp add: gath.walk_Cons del: gather_walk.simps)
qed auto

text \<open>What a reader refers to: \<open>slot_structs\<close> over all slots, \<open>live_structs\<close> over the live ones.\<close>

definition slot_structs :: "reader \<Rightarrow> live_struct set" where
  "slot_structs r = (case gather_live_structs r (replicate MAX_LIVE_ENTRIES live_NONE) of Inl _ \<Rightarrow> {} | Inr (s, n) \<Rightarrow> set s)"

definition live_structs :: "reader \<Rightarrow> live_struct set" where
  "live_structs r = (case gather_live_structs r (replicate MAX_LIVE_ENTRIES live_NONE) of Inl _ \<Rightarrow> {} | Inr (s, n) \<Rightarrow> set (take n s))"

lemma live_structs_subset: "live_structs r \<subseteq> slot_structs r"
  by (auto simp: live_structs_def slot_structs_def split: sum.splits dest: in_set_takeD)

lemma gather_live_structs_leftover:
  assumes "gather_live_structs r live = Inr (live', n)" "length live = MAX_LIVE_ENTRIES"
  shows "length live' = MAX_LIVE_ENTRIES" "set live' \<subseteq> slot_structs r \<union> set live"
    "\<forall>l\<in>live_structs r. l \<noteq> live_NONE \<longrightarrow> l \<in> set (take n live')"
proof -
  let ?zs = "zip (replicate MAX_LIVE_ENTRIES live_NONE) live"
  have m: "map snd ?zs = live" "map fst ?zs = replicate MAX_LIVE_ENTRIES live_NONE" using assms(2) by simp_all
  have lo: "\<forall>z\<in>set ?zs. leftover (set live) z" by (auto simp: leftover_def dest: set_zip_leftD set_zip_rightD)
  obtain zs where z: "gather_walk (iter_tags r) (replicate MAX_LIVE_ENTRIES live_NONE) 0 = Inr (map fst zs, n)"
      "live' = map snd zs" "length zs = MAX_LIVE_ENTRIES" "\<forall>z\<in>set zs. leftover (set live) z"
    using gather_walk_zip [of "iter_tags r" ?zs 0 live' n "set live"] assms lo m by (auto simp: gather_live_structs_def)
  show "length live' = MAX_LIVE_ENTRIES" using z(2,3) by simp
  show "set live' \<subseteq> slot_structs r \<union> set live"
    using z by (fastforce simp: slot_structs_def gather_live_structs_def leftover_def)
  show "\<forall>l\<in>live_structs r. l \<noteq> live_NONE \<longrightarrow> l \<in> set (take n live')"
  proof (intro ballI impI)
    fix l assume l: "l \<in> live_structs r" "l \<noteq> live_NONE"
    then have "l \<in> fst ` set (take n zs)" using z(1) by (simp add: live_structs_def gather_live_structs_def take_map)
    then obtain z' where z': "z' \<in> set (take n zs)" "fst z' = l" by auto
    then have "snd z' = l" using z(4) l(2) by (auto simp: leftover_def dest: in_set_takeD)
    then show "l \<in> set (take n live')" using z' z(2) by (force simp: take_map)
  qed
qed


section \<open>Reachable pairs and chains of an image\<close>

definition dir_reader :: "(u32 \<Rightarrow> byte list) \<Rightarrow> block_pair \<Rightarrow> reader option" where
  "dir_reader im p =
     (case pair_parse (bp_a p) (im (as_u32 (bp_a p))) (bp_b p) (im (as_u32 (bp_b p))) of
        Inl _ \<Rightarrow> None | Inr parsed \<Rightarrow> Some (mp_reader parsed))"

definition dir_child :: "live_struct \<Rightarrow> block_pair" where
  "dir_child l = pair_new (BlockAddress (lv_w0 l)) (BlockAddress (lv_w1 l))"

definition refs_of :: "live_struct set \<Rightarrow> reader \<Rightarrow> block_pair set" where
  "refs_of X r = dir_child ` {l \<in> X. lv_kind l = 2} \<union> set_option (rd_tail r)"

inductive reach :: "(reader \<Rightarrow> live_struct set) \<Rightarrow> (u32 \<Rightarrow> byte list) \<Rightarrow> block_pair \<Rightarrow> block_pair \<Rightarrow> bool"
  for sel im root where
  reach_root: "reach sel im root root"
| reach_ref: "reach sel im root p \<Longrightarrow> dir_reader im p = Some r \<Longrightarrow> q \<in> refs_of (sel r) r \<Longrightarrow> reach sel im root q"

lemma reach_live_slot: "reach live_structs im root p \<Longrightarrow> reach slot_structs im root p"
proof (induction rule: reach.induct)
  case (reach_ref p r q)
  then have "q \<in> refs_of (slot_structs r) r" using live_structs_subset [of r] by (auto simp: refs_of_def)
  then show ?case using reach.reach_ref reach_ref.IH reach_ref.hyps(2) by metis
qed (rule reach_root)

text \<open>The blocks of the chain a CTZ struct names, as the read path collects them.\<close>

definition chain_set :: "(u32 \<Rightarrow> byte list) \<Rightarrow> u32 \<Rightarrow> nat \<Rightarrow> u32 \<Rightarrow> u32 \<Rightarrow> u32 set" where
  "chain_set im cnt bs hb sz =
     (let tot = block_count sz (of_nat bs)
      in if sz = 0 then {}
         else case collect_spec im cnt (BlockAddress hb) (unat (tot - 1)) (replicate (Suc (unat (tot - 1))) block_NONE) of
                Inl _ \<Rightarrow> {} | Inr bl \<Rightarrow> as_u32 ` set bl)"

definition chain_blocks :: "live_struct set \<Rightarrow> (u32 \<Rightarrow> byte list) \<Rightarrow> u32 \<Rightarrow> nat \<Rightarrow> u32 set" where
  "chain_blocks X im cnt bs = (\<Union>l\<in>{l \<in> X. lv_kind l = 1}. chain_set im cnt bs (lv_w0 l) (lv_w1 l))"

definition pair_u32 :: "block_pair \<Rightarrow> u32 set" where
  "pair_u32 p = {as_u32 (bp_a p), as_u32 (bp_b p)}"

lemma pair_u32_blocks: "pair_u32 p = as_u32 ` pair_blocks p"
  by (simp add: pair_u32_def pair_blocks_def)

text \<open>The blocks in use, and the assumption that structures do not share blocks: two reachable
  references that meet name the same pair, and no chain runs through a reachable pair.\<close>

definition in_use :: "(u32 \<Rightarrow> byte list) \<Rightarrow> u32 \<Rightarrow> nat \<Rightarrow> block_pair \<Rightarrow> u32 set" where
  "in_use im cnt bs root =
     {b. \<exists>p. reach live_structs im root p \<and>
        (b \<in> pair_u32 p \<or> (\<exists>r. dir_reader im p = Some r \<and> b \<in> chain_blocks (live_structs r) im cnt bs))}"

definition exclusive :: "(u32 \<Rightarrow> byte list) \<Rightarrow> u32 \<Rightarrow> nat \<Rightarrow> block_pair \<Rightarrow> bool" where
  "exclusive im cnt bs root \<longleftrightarrow>
     (\<forall>p q. reach slot_structs im root p \<longrightarrow> reach slot_structs im root q \<longrightarrow>
        (pair_u32 p \<inter> pair_u32 q \<noteq> {} \<longrightarrow> pair_u32 p = pair_u32 q \<and> dir_reader im p = dir_reader im q) \<and>
        (\<forall>r. dir_reader im q = Some r \<longrightarrow> pair_u32 p \<inter> chain_blocks (slot_structs r) im cnt bs = {}))"


section \<open>The chain walk marks the chain\<close>

lemma collect_spec_head:
  assumes "as_u32 head < cnt" "index \<noteq> 0"
  shows "collect_spec im cnt head index out =
    (if odd index then collect_spec im cnt (ptr_at im head 0) (index - 1) (out[index := head])
     else if as_u32 (ptr_at im head 0) < cnt
     then collect_spec im cnt (ptr_at im head 1) (index - 2) (out[index := head, index - 1 := ptr_at im head 0])
     else Inl Corrupt)"
  using assms by (subst collect_spec.simps) simp

lemma collect_spec_top:
  assumes "collect_spec im cnt head k out = Inr bl" "k < i" "i < length out"
  shows "bl ! i = out ! i" "length bl = length out"
proof -
  have d: "length bl = length out" "drop (Suc k) bl = drop (Suc k) out"
    using collect_spec_safe [OF assms(1)] assms(2,3) by auto
  then have "drop (Suc k) bl ! (i - Suc k) = drop (Suc k) out ! (i - Suc k)" by simp
  then show "bl ! i = out ! i" using assms(2,3) d(1) by simp
  show "length bl = length out" by (rule d)
qed

lemma require_in_bounds_ok: "as_u32 b < BLOCK_COUNT S \<Longrightarrow> require_in_bounds S b = Inr b"
  by (simp add: require_in_bounds_def)

context readable_flash
begin

lemma chain_loop_marks:
  assumes "8 \<le> BLOCK_SIZE S" "Inv st" "bitmap_ok used" "BLOCK_SIZE S \<le> length scratch" "index < length out"
    and "chain_loop S hb index used scratch st = (st', Inr (used', scratch'))"
  shows "Inv st' \<and> img st' = img st \<and> length scratch' = length scratch \<and> bitmap_ok used' \<and>
    (\<exists>bl. collect_spec (img st) (BLOCK_COUNT S) (BlockAddress hb) index out = Inr bl \<and>
       marked used' = marked used \<union> as_u32 ` set (take (Suc index) bl))"
  using assms(2-)
proof (induction index arbitrary: hb used scratch out st rule: less_induct)
  case (less index)
  note I = less.prems(1) and ok = less.prems(2) and sl = less.prems(3) and il = less.prems(4)
  from less.prems(5) have hlt: "hb < BLOCK_COUNT S"
    by (subst (asm) chain_loop.simps) (auto simp: require_in_bounds_def io_bind_eq split: if_splits)
  with less.prems(5) obtain u1 where u1: "bitmap_set used hb = Inr u1"
    by (subst (asm) chain_loop.simps) (cases "bitmap_set used hb", auto simp: require_in_bounds_def io_bind_eq)
  note m1 = bitmap_set_Inr [OF u1 ok]
  show ?case
  proof (cases "index = 0")
    case True
    have "chain_loop S hb index used scratch st = (st, Inr (u1, scratch))"
      using hlt u1 True by (subst chain_loop.simps) (simp add: require_in_bounds_def io_bind_eq)
    moreover have "collect_spec (img st) (BLOCK_COUNT S) (BlockAddress hb) index out = Inr (out[0 := BlockAddress hb])"
      using hlt True by (subst collect_spec.simps) simp
    ultimately show ?thesis using less.prems m1 True by (cases out) auto
  next
    case False
    define count where "count = 2 - index mod 2"
    define need where "need = next_multiple_of (4 * count) (READ_SIZE S)"
    have c: "count = (if odd index then 1 else 2)" by (auto simp: count_def odd_iff_mod_2_eq_one even_iff_mod_2_eq_zero)
    have n4: "4 * count \<le> need" "need \<le> BLOCK_SIZE S" "READ_SIZE S dvd need"
      using read_unit assms(1) c by (auto simp: need_def next_multiple_of_ge next_multiple_of_le) (simp_all add: next_multiple_of_def)
    have nl: "length (take need scratch) = need" using n4(2) sl by simp
    obtain st1 where r: "dev_read S hb 0 (take need scratch) st = (st1, Inr (slice (img st hb) 0 need))" "Inv st1" "img st1 = img st"
    proof (rule dev_read_grid [OF I hlt, of 0 "take need scratch"])
      show "0 + length (take need scratch) \<le> BLOCK_SIZE S" using nl n4(2) by simp
      show "READ_SIZE S dvd length (take need scratch)" using nl n4(3) by simp
    next
      fix st1 assume "Inv st1" "img st1 = img st" "dev_read S hb (of_nat 0) (take need scratch) st = (st1, Inr (slice (img st hb) 0 (length (take need scratch))))"
      then show thesis using that nl by simp
    next
      fix st1 assume "dev_read S hb (of_nat 0) (take need scratch) st = (st1, Inl Io)"
      then have "chain_loop S hb index used scratch st = (st1, Inl Io)"
        using hlt u1 False by (subst chain_loop.simps) (simp add: require_in_bounds_def io_bind_eq Let_def flip: count_def need_def)
      then show thesis using less.prems(5) by simp
    qed simp_all
    let ?s1 = "slice (img st hb) 0 need @ drop need scratch"
    have il2: "length (img st hb) = BLOCK_SIZE S" using img_length [OF I hlt] .
    have s1: "BLOCK_SIZE S \<le> length ?s1" "length ?s1 = length scratch" using il2 n4(2) sl by simp_all
    have p0: "le_u32_at ?s1 0 = le_u32_at (img st hb) 0" using le_u32_at_header [of 0 need "img st hb"] n4(1,2) il2 c by (simp split: if_splits)
    have p1: "le_u32_at ?s1 4 = le_u32_at (img st hb) 4" if "even index"
      using le_u32_at_header [of 1 need "img st hb"] n4(1,2) il2 c that by simp
    have step: "chain_loop S hb index used scratch st =
        (if odd index then chain_loop S (le_u32_at (img st hb) 0) (index - 1) u1 ?s1 st1
         else io_bind (io_lift (require_in_bounds S (BlockAddress (le_u32_at (img st hb) 0)))) (\<lambda>p0.
              io_bind (io_lift (bitmap_set u1 (as_u32 p0))) (\<lambda>u2. chain_loop S (le_u32_at (img st hb) 4) (index - 2) u2 ?s1)) st1)"
    proof (cases "odd index")
      case True
      then have m: "index mod 2 = 1" and nd: "next_multiple_of 4 (READ_SIZE S) = need" using c by (presburger, simp add: need_def)
      show ?thesis using True False p0 u1 hlt r(1)
        by (subst chain_loop.simps)
          (simp add: m nd require_in_bounds_ok io_bind_lift io_bind_Inr [where m = "dev_read S hb 0 (take need scratch)", OF r(1)])
    next
      case ev: False
      then have m: "index mod 2 = 0" and nd: "next_multiple_of 8 (READ_SIZE S) = need" using c by (presburger, simp add: need_def)
      show ?thesis using ev False p0 p1 u1 hlt r(1)
        by (subst chain_loop.simps)
          (simp add: m nd require_in_bounds_ok io_bind_lift io_bind_Inr [where m = "dev_read S hb 0 (take need scratch)", OF r(1)] Let_def)
    qed
    show ?thesis
    proof (cases "odd index")
      case True
      have "chain_loop S (le_u32_at (img st hb) 0) (index - 1) u1 ?s1 st1 = (st', Inr (used', scratch'))"
        using step True less.prems(5) by simp
      from less.IH [OF _ r(2) m1(1) s1(1) _ this, unfolded s1(2), of "out[index := BlockAddress hb]"] obtain bl where
        b: "Inv st'" "img st' = img st" "length scratch' = length scratch" "bitmap_ok used'"
          "collect_spec (img st) (BLOCK_COUNT S) (ptr_at (img st) (BlockAddress hb) 0) (index - 1) (out[index := BlockAddress hb]) = Inr bl"
          "marked used' = marked u1 \<union> as_u32 ` set (take index bl)"
        using False il r(3) by (auto simp: less_imp_diff_less)
      have "bl ! index = BlockAddress hb" "length bl = length out"
        using collect_spec_top [OF b(5), of index] il False by simp_all
      moreover have "collect_spec (img st) (BLOCK_COUNT S) (BlockAddress hb) index out = Inr bl"
        using collect_spec_head [of "BlockAddress hb" "BLOCK_COUNT S" index "img st" out] hlt False True b(5) by simp
      ultimately show ?thesis using b m1(2) il by (auto simp: take_Suc_conv_app_nth)
    next
      case ev: False
      let ?p0 = "le_u32_at (img st hb) 0"
      have pb: "?p0 < BLOCK_COUNT S" using step ev less.prems(5) by (auto simp: require_in_bounds_def io_bind_eq split: if_splits)
      with step ev less.prems(5) obtain u2 where u2: "bitmap_set u1 ?p0 = Inr u2"
        "chain_loop S (le_u32_at (img st hb) 4) (index - 2) u2 ?s1 st1 = (st', Inr (used', scratch'))"
        by (cases "bitmap_set u1 ?p0") (auto simp: require_in_bounds_def io_bind_eq)
      note m2 = bitmap_set_Inr [OF u2(1) m1(1)]
      have i2: "2 \<le> index" using ev False by (cases index) (auto elim: oddE evenE)
      have sd: "Suc (index - 2) = index - 1" using i2 by simp
      let ?o = "out[index := BlockAddress hb, index - 1 := BlockAddress ?p0]"
      from less.IH [OF _ r(2) m2(1) s1(1) _ u2(2), unfolded s1(2), of ?o] obtain bl where
        b: "Inv st'" "img st' = img st" "length scratch' = length scratch" "bitmap_ok used'"
          "collect_spec (img st) (BLOCK_COUNT S) (ptr_at (img st) (BlockAddress hb) 1) (index - 2) ?o = Inr bl"
          "marked used' = marked u2 \<union> as_u32 ` set (take (index - 1) bl)"
        using i2 il r(3) sd by (auto simp: less_imp_diff_less)
      have t: "bl ! index = BlockAddress hb" "bl ! (index - 1) = BlockAddress ?p0" "length bl = length out"
        using collect_spec_top [OF b(5), of index] collect_spec_top [OF b(5), of "index - 1"] il i2 by (simp_all add: nth_list_update)
      have "take (Suc index) bl = take (index - 1) bl @ [BlockAddress ?p0, BlockAddress hb]"
      proof -
        have "take (Suc index) bl = take index bl @ [bl ! index]" using t(3) il by (simp add: take_Suc_conv_app_nth)
        moreover have "take index bl = take (index - 1) bl @ [bl ! (index - 1)]"
          using take_Suc_conv_app_nth [of "index - 1" bl] t(3) il i2 by simp
        ultimately show ?thesis using t by simp
      qed
      moreover have "collect_spec (img st) (BLOCK_COUNT S) (BlockAddress hb) index out = Inr bl"
        using collect_spec_head [of "BlockAddress hb" "BLOCK_COUNT S" index "img st" out] hlt False ev pb b(5) by simp
      ultimately show ?thesis using b m1(2) m2(2) by auto
    qed
  qed
qed

lemma walk_chain_marks:
  assumes "8 \<le> BLOCK_SIZE S" "Inv st" "bitmap_ok used" "BLOCK_SIZE S \<le> length scratch"
    and "walk_ctz_chain S hb sz used scratch st = (st', Inr (used', scratch'))"
  shows "Inv st'" "img st' = img st" "length scratch' = length scratch" "bitmap_ok used'"
    "marked used' = marked used \<union> chain_set (img st) (BLOCK_COUNT S) (BLOCK_SIZE S) hb sz"
proof -
  let ?k = "unat (block_count sz (of_nat (BLOCK_SIZE S)) - 1)"
  have "Inv st' \<and> img st' = img st \<and> length scratch' = length scratch \<and> bitmap_ok used' \<and>
      marked used' = marked used \<union> chain_set (img st) (BLOCK_COUNT S) (BLOCK_SIZE S) hb sz"
  proof (cases "sz = 0")
    case True
    then show ?thesis using assms by (simp add: walk_ctz_chain_def chain_set_def)
  next
    case False
    then have "chain_loop S hb ?k used scratch st = (st', Inr (used', scratch'))"
      using assms(5) by (simp add: walk_ctz_chain_def Let_def split: if_splits)
    from chain_loop_marks [OF assms(1-4) _ this, of "replicate (Suc ?k) block_NONE"] obtain bl where
      b: "Inv st'" "img st' = img st" "length scratch' = length scratch" "bitmap_ok used'"
        "collect_spec (img st) (BLOCK_COUNT S) (BlockAddress hb) ?k (replicate (Suc ?k) block_NONE) = Inr bl"
        "marked used' = marked used \<union> as_u32 ` set (take (Suc ?k) bl)" by auto
    have "length bl = Suc ?k" using collect_spec_safe [OF b(5)] by simp
    then show ?thesis using b False by (simp add: chain_set_def Let_def del: replicate_Suc)
  qed
  then show "Inv st'" "img st' = img st" "length scratch' = length scratch" "bitmap_ok used'"
    "marked used' = marked used \<union> chain_set (img st) (BLOCK_COUNT S) (BLOCK_SIZE S) hb sz" by simp_all
qed

end

lemma add_child_Inr:
  assumes "add_child S used children child = Inr children'"
  shows "pair_in_bounds S child" "set children \<subseteq> set children'" "set children' \<subseteq> insert child (set children)"
    "bitmap_is_set used (as_u32 (bp_a child)) \<and> bitmap_is_set used (as_u32 (bp_b child)) \<or> contains_pair children' child"
  using assms by (auto simp: add_child_def contains_pair_iff split: if_splits)

lemma contains_pair_mono: "contains_pair ps p \<Longrightarrow> set ps \<subseteq> set qs \<Longrightarrow> contains_pair qs p"
  by (auto simp: contains_pair_iff)

lemma enqueue_Inr:
  assumes "enqueue queue head children = Inr queue'"
  obtains ext where "queue' = queue @ ext" "set ext \<subseteq> set children" "\<forall>c\<in>set children. contains_pair queue' c"
proof -
  have "\<exists>ext. queue' = queue @ ext \<and> set ext \<subseteq> set children \<and> (\<forall>c\<in>set children. contains_pair queue' c)"
    using assms
  proof (induction queue head children rule: enqueue.induct)
    case (2 queue head child children)
    show ?case
    proof (cases "contains_pair (drop head queue) child")
      case True
      obtain ext where "queue' = queue @ ext" "set ext \<subseteq> set children" "\<forall>c\<in>set children. contains_pair queue' c"
        using 2(1) [OF True] 2(3) True by auto
      moreover have "contains_pair queue' child"
        by (rule contains_pair_mono [OF True]) (use calculation in \<open>auto dest: in_set_dropD\<close>)
      ultimately show ?thesis by auto
    next
      case False
      obtain ext where "queue' = (queue @ [child]) @ ext" "set ext \<subseteq> set children" "\<forall>c\<in>set children. contains_pair queue' c"
        using 2(2) [OF False] 2(3) False by (auto split: if_splits)
      then show ?thesis by (intro exI [of _ "child # ext"]) (auto simp: contains_pair_iff)
    qed
  qed simp
  then show thesis using that by blast
qed

text \<open>One live struct after the other: chains are marked, children collected unless marked.\<close>

definition settled :: "bitmap \<Rightarrow> block_pair list \<Rightarrow> block_pair \<Rightarrow> bool" where
  "settled used children q \<longleftrightarrow>
     bitmap_is_set used (as_u32 (bp_a q)) \<and> bitmap_is_set used (as_u32 (bp_b q)) \<or> contains_pair children q"

lemma settled_mono:
  "settled used children q \<Longrightarrow> marked used \<subseteq> marked used' \<Longrightarrow> set children \<subseteq> set children' \<Longrightarrow> settled used' children' q"
  unfolding settled_def bitmap_is_set_marked using contains_pair_mono by blast

context readable_flash
begin

lemma visit_live_marks:
  assumes "8 \<le> BLOCK_SIZE S" "Inv st" "bitmap_ok used" "length buf = BLOCK_SIZE S"
    and "visit_live S ls used children buf st = (st', Inr (used', children', buf'))"
  shows "Inv st' \<and> img st' = img st \<and> length buf' = BLOCK_SIZE S \<and> bitmap_ok used' \<and>
    marked used' = marked used \<union> chain_blocks (set ls) (img st) (BLOCK_COUNT S) (BLOCK_SIZE S) \<and>
    set children \<subseteq> set children' \<and> set children' \<subseteq> set children \<union> dir_child ` {l \<in> set ls. lv_kind l = 2} \<and>
    (\<forall>l\<in>set ls. lv_kind l = 2 \<longrightarrow> pair_in_bounds S (dir_child l) \<and> settled used' children' (dir_child l))"
  using assms(2-)
proof (induction ls arbitrary: used children buf st)
  case Nil
  then show ?case by (simp add: chain_blocks_def)
next
  case (Cons l ls)
  consider (ctz) "lv_kind l = 1" | (dir) "lv_kind l = 2" | (none) "lv_kind l \<noteq> 1" "lv_kind l \<noteq> 2" by blast
  then show ?case
  proof cases
    case ctz
    with Cons.prems(4) obtain st1 u b where w: "walk_ctz_chain S (lv_w0 l) (lv_w1 l) used buf st = (st1, Inr (u, b))"
        "visit_live S ls u children b st1 = (st', Inr (used', children', buf'))"
      by (auto elim!: io_bind_InrE)
    note m = walk_chain_marks [OF assms(1) Cons.prems(1,2) eq_refl [OF Cons.prems(3) [symmetric]] w(1), unfolded Cons.prems(3)]
    have cb: "chain_blocks (set (l # ls)) im cnt bs = chain_set im cnt bs (lv_w0 l) (lv_w1 l) \<union> chain_blocks (set ls) im cnt bs" for im cnt bs
      using ctz by (auto simp: chain_blocks_def)
    show ?thesis using Cons.IH [OF m(1,4,3) w(2)] m ctz unfolding cb by auto
  next
    case dir
    with Cons.prems(4) obtain ch where w: "add_child S used children (dir_child l) = Inr ch"
        "visit_live S ls used ch buf st = (st', Inr (used', children', buf'))"
      by (auto elim!: io_bind_InrE simp: dir_child_def)
    note a = add_child_Inr [OF w(1)]
    note IH = Cons.IH [OF Cons.prems(1-3) w(2)]
    have cb: "chain_blocks (set (l # ls)) im cnt bs = chain_blocks (set ls) im cnt bs" for im cnt bs
      using dir by (auto simp: chain_blocks_def)
    have "settled used' children' (dir_child l)"
      by (rule settled_mono [of used ch]) (use a(4) IH in \<open>auto simp: settled_def\<close>)
    moreover have "{k \<in> set (l # ls). lv_kind k = 2} = insert l {k \<in> set ls. lv_kind k = 2}" using dir by auto
    ultimately show ?thesis using IH a(1-3) unfolding cb by (simp del: insert_iff) blast
  next
    case none
    have cb: "chain_blocks (set (l # ls)) im cnt bs = chain_blocks (set ls) im cnt bs" for im cnt bs
      using none by (auto simp: chain_blocks_def)
    show ?thesis using Cons.IH [OF Cons.prems(1-3)] Cons.prems(4) none unfolding cb by auto
  qed
qed

end

section \<open>The breadth first scan\<close>

text \<open>The invariant at the head of the loop; \<open>V\<close> are the pairs already visited.\<close>

definition scan_inv ::
  "'s storage \<Rightarrow> (u32 \<Rightarrow> byte list) \<Rightarrow> block_pair \<Rightarrow> block_pair list \<Rightarrow> nat \<Rightarrow> live_struct list \<Rightarrow> bitmap \<Rightarrow> bool" where
  "scan_inv S im root queue head live used \<longleftrightarrow>
     (let V = set (take head queue) in
      bitmap_ok used \<and> length live = MAX_LIVE_ENTRIES \<and> head \<le> length queue \<and> root \<in> set queue \<and>
      (\<forall>p\<in>set queue. reach slot_structs im root p \<and> pair_in_bounds S p) \<and>
      (\<forall>l\<in>set live. l \<noteq> live_NONE \<longrightarrow> (\<exists>p\<in>V. \<exists>r. dir_reader im p = Some r \<and> l \<in> slot_structs r)) \<and>
      (\<forall>b\<in>marked used. \<exists>p\<in>V. b \<in> pair_u32 p \<or>
         (\<exists>r. dir_reader im p = Some r \<and> b \<in> chain_blocks (slot_structs r) im (BLOCK_COUNT S) (BLOCK_SIZE S))) \<and>
      (\<forall>p\<in>V. pair_u32 p \<subseteq> marked used \<and>
         (\<exists>r. dir_reader im p = Some r \<and> chain_blocks (live_structs r) im (BLOCK_COUNT S) (BLOCK_SIZE S) \<subseteq> marked used \<and>
            (\<forall>q\<in>refs_of (live_structs r) r. \<exists>q'\<in>set queue. pair_u32 q' = pair_u32 q))))"

text \<open>Under exclusivity a marked reference was visited.\<close>

lemma marked_ref_visited:
  assumes ex: "exclusive im cnt bs root" and q: "reach slot_structs im root q"
    and V: "\<forall>p\<in>V. reach slot_structs im root p"
    and M: "\<forall>b\<in>M. \<exists>p\<in>V. b \<in> pair_u32 p \<or> (\<exists>r. dir_reader im p = Some r \<and> b \<in> chain_blocks (slot_structs r) im cnt bs)"
    and b: "b \<in> M" "b \<in> pair_u32 q"
  shows "\<exists>p\<in>V. pair_u32 p = pair_u32 q"
proof -
  obtain p where p: "p \<in> V" "b \<in> pair_u32 p \<or> (\<exists>r. dir_reader im p = Some r \<and> b \<in> chain_blocks (slot_structs r) im cnt bs)"
    using M b(1) by blast
  have rp: "reach slot_structs im root p" using V p(1) by blast
  have "b \<in> pair_u32 p"
  proof (rule ccontr)
    assume "b \<notin> pair_u32 p"
    then obtain r where "dir_reader im p = Some r" "b \<in> chain_blocks (slot_structs r) im cnt bs" using p(2) by blast
    then show False using ex q rp b(2) unfolding exclusive_def by blast
  qed
  then have "pair_u32 p \<inter> pair_u32 q \<noteq> {}" using b(2) by blast
  then have "pair_u32 p = pair_u32 q" using ex rp q unfolding exclusive_def by blast
  then show ?thesis using p(1) by blast
qed

lemma scan_inv_covers:
  assumes inv: "scan_inv S im root queue (length queue) live used" and ex: "exclusive im (BLOCK_COUNT S) (BLOCK_SIZE S) root"
  shows "in_use im (BLOCK_COUNT S) (BLOCK_SIZE S) root \<subseteq> marked used"
proof -
  have root: "root \<in> set queue" and R: "\<forall>p\<in>set queue. reach slot_structs im root p"
    and C: "\<forall>p\<in>set queue. pair_u32 p \<subseteq> marked used \<and>
         (\<exists>r. dir_reader im p = Some r \<and> chain_blocks (live_structs r) im (BLOCK_COUNT S) (BLOCK_SIZE S) \<subseteq> marked used \<and>
            (\<forall>q\<in>refs_of (live_structs r) r. \<exists>q'\<in>set queue. pair_u32 q' = pair_u32 q))"
    using inv by (auto simp: scan_inv_def Let_def)
  have same: "dir_reader im p = dir_reader im q" if "p \<in> set queue" "reach live_structs im root q" "pair_u32 p = pair_u32 q" for p q
    using ex R that reach_live_slot [OF that(2)] unfolding exclusive_def pair_u32_def by blast
  have cov: "\<exists>p'\<in>set queue. pair_u32 p' = pair_u32 p" if "reach live_structs im root p" for p
    using that
  proof (induction rule: reach.induct)
    case (reach_ref p r q)
    then obtain p' where p': "p' \<in> set queue" "pair_u32 p' = pair_u32 p" by blast
    then have "dir_reader im p' = Some r" using same [OF p'(1) reach_ref.hyps(1)] reach_ref.hyps(2) by simp
    then show ?case using C p'(1) reach_ref.hyps(3) by force
  qed (use root in blast)
  show ?thesis
  proof
    fix b assume "b \<in> in_use im (BLOCK_COUNT S) (BLOCK_SIZE S) root"
    then obtain p where p: "reach live_structs im root p"
      "b \<in> pair_u32 p \<or> (\<exists>r. dir_reader im p = Some r \<and> b \<in> chain_blocks (live_structs r) im (BLOCK_COUNT S) (BLOCK_SIZE S))"
      unfolding in_use_def by blast
    obtain p' where p': "p' \<in> set queue" "pair_u32 p' = pair_u32 p" using cov [OF p(1)] by blast
    show "b \<in> marked used" using C p' p(2) same [OF p'(1) p(1) p'(2)] by force
  qed
qed

context readable_flash
begin

lemma dev_read_block:
  assumes "Inv st" "b < BLOCK_COUNT S" "length buf = BLOCK_SIZE S" "dev_read S b 0 buf st = (st1, Inr d)"
  shows "d = img st b" "Inv st1" "img st1 = img st" "length d = BLOCK_SIZE S"
proof -
  have l: "length (img st b) = BLOCK_SIZE S" using img_length [OF assms(1,2)] .
  have "d = img st b \<and> Inv st1 \<and> img st1 = img st"
    by (rule dev_read_grid [OF assms(1,2), of 0 buf]) (use assms(3,4) read_unit(2) l in \<open>auto simp: slice_def\<close>)
  then show "d = img st b" "Inv st1" "img st1 = img st" "length d = BLOCK_SIZE S" using l by simp_all
qed

lemma used_loop_step:
  assumes bs: "8 \<le> BLOCK_SIZE S" and cap: "unat (BLOCK_COUNT S) \<le> MAX_TRACKED_BLOCKS" and ex: "exclusive (img st) (BLOCK_COUNT S) (BLOCK_SIZE S) root"
    and I: "Inv st" and bl: "length ba = BLOCK_SIZE S" "length bb = BLOCK_SIZE S"
    and inv: "scan_inv S (img st) root queue head lv used" and hd: "head < length queue"
    and run: "used_loop S queue head lv used ba bb st = (st', Inr R)"
  obtains st1 queue1 live1 used1 ba1 bb1 where
    "used_loop S queue1 (head + 1) live1 used1 ba1 bb1 st1 = (st', Inr R)" "Inv st1" "img st1 = img st"
    "length ba1 = BLOCK_SIZE S" "length bb1 = BLOCK_SIZE S" "scan_inv S (img st) root queue1 (head + 1) live1 used1"
    "length queue1 \<le> max (length queue) MAX_QUEUED_PAIRS"
proof -
  let ?p = "queue ! head" let ?im = "img st" let ?C = "\<lambda>X. chain_blocks X (img st) (BLOCK_COUNT S) (BLOCK_SIZE S)"
  define V where "V = set (take head queue)"
  have ok: "bitmap_ok used" and ll: "length lv = MAX_LIVE_ENTRIES" and root: "root \<in> set queue"
    and Q: "\<forall>p\<in>set queue. reach slot_structs ?im root p \<and> pair_in_bounds S p"
    and L: "\<forall>l\<in>set lv. l \<noteq> live_NONE \<longrightarrow> (\<exists>p\<in>V. \<exists>r. dir_reader ?im p = Some r \<and> l \<in> slot_structs r)"
    and M: "\<forall>b\<in>marked used. \<exists>p\<in>V. b \<in> pair_u32 p \<or> (\<exists>r. dir_reader ?im p = Some r \<and> b \<in> ?C (slot_structs r))"
    and C: "\<forall>p\<in>V. pair_u32 p \<subseteq> marked used \<and> (\<exists>r. dir_reader ?im p = Some r \<and> ?C (live_structs r) \<subseteq> marked used \<and>
            (\<forall>q\<in>refs_of (live_structs r) r. \<exists>q'\<in>set queue. pair_u32 q' = pair_u32 q))"
    using inv by (auto simp: scan_inv_def Let_def V_def)
  have pq: "?p \<in> set queue" using hd by simp
  have pr: "reach slot_structs ?im root ?p" and pb: "as_u32 (bp_a ?p) < BLOCK_COUNT S" "as_u32 (bp_b ?p) < BLOCK_COUNT S"
    using Q pq by (auto simp: pair_in_bounds_def)
  from run hd obtain u1 u2 s1 da s2 db live1 n tl u3 ch ba1 s3 ch1 queue1 where
    u1: "bitmap_set used (as_u32 (bp_a ?p)) = Inr u1" and u2: "bitmap_set u1 (as_u32 (bp_b ?p)) = Inr u2"
    and ra: "dev_read S (as_u32 (bp_a ?p)) 0 ba st = (s1, Inr da)" and rb: "dev_read S (as_u32 (bp_b ?p)) 0 bb s1 = (s2, Inr db)"
    and pa: "rbind (pair_parse (bp_a ?p) da (bp_b ?p) db) (\<lambda>parsed. rbind (gather_live_structs (mp_reader parsed) lv) (\<lambda>(l1, n).
               Inr (l1, n, rd_tail (mp_reader parsed)))) = Inr (live1, n, tl)"
    and vl: "visit_live S (take n live1) u2 [] da s2 = (s3, Inr (u3, ch, ba1))"
    and tc: "(case tl of None \<Rightarrow> Inr ch | Some t \<Rightarrow> add_child S u3 ch t) = Inr ch1"
    and eq: "enqueue queue (head + 1) ch1 = Inr queue1"
    and rest: "used_loop S queue1 (head + 1) live1 u3 ba1 db s3 = (st', Inr R)"
    by (subst (asm) used_loop.simps) (auto simp: Let_def elim!: io_bind_InrE split: prod.splits)
  note A = dev_read_block [OF I pb(1) bl(1) ra]
  note B = dev_read_block [OF A(2) pb(2) bl(2) rb]
  note m1 = bitmap_set_Inr [OF u1 ok] note m2 = bitmap_set_Inr [OF u2 m1(1)]
  have im2: "img s2 = ?im" using A(3) B(3) by simp
  obtain r where r: "dir_reader ?im ?p = Some r" "gather_live_structs r lv = Inr (live1, n)" "tl = rd_tail r"
    using pa A(1,3) B(1) by (auto simp: dir_reader_def split: prod.splits)
  note G = gather_live_structs_leftover [OF r(2) ll]
  note W = visit_live_marks [OF bs B(2) m2(1) A(4) vl, unfolded im2]
  let ?V = "insert ?p V"
  have V1: "set (take (head + 1) queue1) = ?V" if "queue1 = queue @ ext" for ext
    using hd that by (auto simp: V_def take_Suc_conv_app_nth)
  obtain ext where E: "queue1 = queue @ ext" "set ext \<subseteq> set ch1" "\<forall>c\<in>set ch1. contains_pair queue1 c"
    using enqueue_Inr [OF eq] by blast
  have live1: "\<exists>p\<in>?V. \<exists>r. dir_reader ?im p = Some r \<and> l \<in> slot_structs r" if "l \<in> set live1" "l \<noteq> live_NONE" for l
    using that G(2) L r(1) by (cases "l \<in> slot_structs r") auto
  have Vr: "\<forall>p\<in>?V. reach slot_structs ?im root p" using Q pr by (auto simp: V_def dest: in_set_takeD)
  have kid: "reach slot_structs ?im root (dir_child l)" if "l \<in> set live1" "lv_kind l = 2" for l
  proof -
    have "l \<noteq> live_NONE" using that(2) by (auto simp: live_NONE_def)
    from live1 [OF that(1) this] obtain p r' where "p \<in> ?V" "dir_reader ?im p = Some r'" "l \<in> slot_structs r'" by blast
    then show ?thesis using reach_ref [of slot_structs ?im root p r' "dir_child l"] Vr that(2) by (auto simp: refs_of_def)
  qed
  have tail: "reach slot_structs ?im root t" if "rd_tail r = Some t" for t
    using reach_ref [OF pr r(1)] that by (simp add: refs_of_def)
  have T: "set ch \<subseteq> set ch1" "set ch1 \<subseteq> set ch \<union> set_option (rd_tail r)"
    "\<forall>t. rd_tail r = Some t \<longrightarrow> pair_in_bounds S t \<and> settled u3 ch1 t"
    using tc add_child_Inr [of S u3 ch _ ch1] unfolding settled_def r(3) by (auto split: option.splits)
  have kids: "\<forall>c\<in>set ch1. reach slot_structs ?im root c \<and> pair_in_bounds S c"
  proof
    fix c assume "c \<in> set ch1"
    then consider "rd_tail r = Some c" | l where "l \<in> set (take n live1)" "lv_kind l = 2" "c = dir_child l"
      using T(2) W by fastforce
    then show "reach slot_structs ?im root c \<and> pair_in_bounds S c"
    proof cases
      case 1
      then show ?thesis using tail T(3) by blast
    next
      case 2
      then show ?thesis using kid [of l] W by (auto dest: in_set_takeD)
    qed
  qed
  have M3: "\<forall>b\<in>marked u3. \<exists>p\<in>?V. b \<in> pair_u32 p \<or> (\<exists>r. dir_reader ?im p = Some r \<and> b \<in> ?C (slot_structs r))"
  proof
    fix b assume "b \<in> marked u3"
    then consider "b \<in> marked used" | "b \<in> pair_u32 ?p" | l where "l \<in> set live1" "lv_kind l = 1" "b \<in> chain_set ?im (BLOCK_COUNT S) (BLOCK_SIZE S) (lv_w0 l) (lv_w1 l)"
      using W m1(2) m2(2) by (auto simp: pair_u32_def chain_blocks_def dest: in_set_takeD)
    then show "\<exists>p\<in>?V. b \<in> pair_u32 p \<or> (\<exists>r. dir_reader ?im p = Some r \<and> b \<in> ?C (slot_structs r))"
    proof cases
      case 3
      have "l \<noteq> live_NONE" using 3(2) by (auto simp: live_NONE_def)
      from live1 [OF 3(1) this] obtain p r' where "p \<in> ?V" "dir_reader ?im p = Some r'" "l \<in> slot_structs r'" by blast
      then show ?thesis using 3(2,3) by (force simp: chain_blocks_def)
    qed (use M in auto)
  qed
  have fin: "\<exists>q'\<in>set queue1. pair_u32 q' = pair_u32 q"
    if q: "reach slot_structs ?im root q" "pair_in_bounds S q" "settled u3 ch1 q" for q
  proof (cases "contains_pair ch1 q")
    case True
    then obtain c where "c \<in> set ch1" "pair_blocks c = pair_blocks q" by (auto simp: contains_pair_iff)
    then obtain q' where "q' \<in> set queue1" "pair_blocks q' = pair_blocks q" using E(3) by (force simp: contains_pair_iff)
    then show ?thesis by (auto simp: pair_u32_blocks)
  next
    case False
    then have set3: "bitmap_is_set u3 (as_u32 (bp_a q))" using q(3) by (simp add: settled_def)
    have "unat (as_u32 (bp_a q)) < MAX_TRACKED_BLOCKS" using q(2) cap by (auto simp: pair_in_bounds_def word_less_nat_alt)
    then have "as_u32 (bp_a q) \<in> marked u3" using set3 by (auto simp: bitmap_is_set_marked)
    from marked_ref_visited [OF ex q(1) Vr M3 this] obtain p where "p \<in> ?V" "pair_u32 p = pair_u32 q"
      by (auto simp: pair_u32_def)
    then show ?thesis using pq E(1) by (auto simp: V_def dest: in_set_takeD)
  qed
  have new: "\<exists>q'\<in>set queue1. pair_u32 q' = pair_u32 q" if q: "q \<in> refs_of (live_structs r) r" for q
  proof (cases "rd_tail r = Some q")
    case True
    then show ?thesis using T(3) tail fin by blast
  next
    case False
    then obtain l where l: "l \<in> live_structs r" "lv_kind l = 2" "q = dir_child l" using q by (auto simp: refs_of_def)
    then have "l \<in> set (take n live1)" using G(3) by (auto simp: live_NONE_def)
    moreover have "settled u3 ch1 q" using W calculation l settled_mono [of u3 ch q u3 ch1] T(1) by auto
    moreover have "reach slot_structs ?im root q" "pair_in_bounds S q" using calculation(1) l kid [of l] W by (auto dest: in_set_takeD)
    ultimately show ?thesis using fin [of q] by blast
  qed
  have chain: "?C (live_structs r) \<subseteq> marked u3"
  proof
    fix b assume "b \<in> ?C (live_structs r)"
    then obtain l where l: "l \<in> live_structs r" "lv_kind l = 1" "b \<in> chain_set ?im (BLOCK_COUNT S) (BLOCK_SIZE S) (lv_w0 l) (lv_w1 l)"
      by (auto simp: chain_blocks_def)
    then have "l \<in> set (take n live1)" using G(3) by (auto simp: live_NONE_def)
    then have "b \<in> ?C (set (take n live1))" using l(2,3) by (auto simp: chain_blocks_def)
    then show "b \<in> marked u3" using W by blast
  qed
  have grow: "marked used \<subseteq> marked u3" "pair_u32 ?p \<subseteq> marked u3" using W m1(2) m2(2) by (auto simp: pair_u32_def)
  have "\<forall>p\<in>?V. pair_u32 p \<subseteq> marked u3 \<and> (\<exists>r. dir_reader ?im p = Some r \<and> ?C (live_structs r) \<subseteq> marked u3 \<and>
            (\<forall>q\<in>refs_of (live_structs r) r. \<exists>q'\<in>set queue1. pair_u32 q' = pair_u32 q))"
  proof
    fix p assume "p \<in> ?V"
    then show "pair_u32 p \<subseteq> marked u3 \<and> (\<exists>r. dir_reader ?im p = Some r \<and> ?C (live_structs r) \<subseteq> marked u3 \<and>
            (\<forall>q\<in>refs_of (live_structs r) r. \<exists>q'\<in>set queue1. pair_u32 q' = pair_u32 q))"
    proof
      assume "p = ?p"
      then show ?thesis using grow(2) r(1) chain new by blast
    next
      assume "p \<in> V"
      then obtain r' where r': "pair_u32 p \<subseteq> marked used" "dir_reader ?im p = Some r'" "?C (live_structs r') \<subseteq> marked used"
          "\<forall>q\<in>refs_of (live_structs r') r'. \<exists>q'\<in>set queue. pair_u32 q' = pair_u32 q" using C by blast
      have "\<exists>q'\<in>set queue1. pair_u32 q' = pair_u32 q" if "q \<in> refs_of (live_structs r') r'" for q
        using bspec [OF r'(4) that] E(1) by auto
      moreover have "pair_u32 p \<subseteq> marked u3" "?C (live_structs r') \<subseteq> marked u3"
        using r'(1,3) grow(1) by (blast intro: subset_trans)+
      ultimately show ?thesis using r'(2) by simp
    qed
  qed
  moreover have "\<forall>p\<in>set queue1. reach slot_structs ?im root p \<and> pair_in_bounds S p" using Q E(1,2) kids by auto
  moreover have "\<forall>l\<in>set live1. l \<noteq> live_NONE \<longrightarrow> (\<exists>p\<in>?V. \<exists>r. dir_reader ?im p = Some r \<and> l \<in> slot_structs r)" using live1 by blast
  moreover have "head + 1 \<le> length queue1" "root \<in> set queue1" using hd root E(1) by auto
  moreover have "bitmap_ok u3" using W by blast
  ultimately have "scan_inv S ?im root queue1 (head + 1) live1 u3"
    using M3 G(1) unfolding scan_inv_def Let_def V1 [OF E(1)] by (intro conjI) assumption+
  moreover have "Inv s3" "img s3 = ?im" "length ba1 = BLOCK_SIZE S" using W by auto
  ultimately show thesis using that rest B(4) enqueue_length [OF eq] by blast
qed

lemma used_loop_covers:
  assumes "8 \<le> BLOCK_SIZE S" "unat (BLOCK_COUNT S) \<le> MAX_TRACKED_BLOCKS" "exclusive (img st) (BLOCK_COUNT S) (BLOCK_SIZE S) root"
    and "Inv st" "length ba = BLOCK_SIZE S" "length bb = BLOCK_SIZE S" "scan_inv S (img st) root queue head lv used"
    and "used_loop S queue head lv used ba bb st = (st', Inr (used', ba', bb'))"
  shows "Inv st' \<and> img st' = img st \<and> length ba' = BLOCK_SIZE S \<and> length bb' = BLOCK_SIZE S \<and> bitmap_ok used' \<and>
    in_use (img st) (BLOCK_COUNT S) (BLOCK_SIZE S) root \<subseteq> marked used'"
  using assms(3-)
proof (induction "max (length queue) MAX_QUEUED_PAIRS - head" arbitrary: queue head lv used ba bb st rule: less_induct)
  case less
  show ?case
  proof (cases "head < length queue")
    case True
    obtain st1 queue1 live1 used1 ba1 bb1 where n:
      "used_loop S queue1 (head + 1) live1 used1 ba1 bb1 st1 = (st', Inr (used', ba', bb'))" "Inv st1" "img st1 = img st"
      "length ba1 = BLOCK_SIZE S" "length bb1 = BLOCK_SIZE S" "scan_inv S (img st) root queue1 (head + 1) live1 used1"
      "length queue1 \<le> max (length queue) MAX_QUEUED_PAIRS"
      by (rule used_loop_step [OF assms(1,2) less.prems(1-5) True less.prems(6)])
    have "max (length queue1) MAX_QUEUED_PAIRS - (head + 1) < max (length queue) MAX_QUEUED_PAIRS - head"
      using n(7) True by linarith
    from less.hyps [OF this _ n(2,4,5) _ n(1)] show ?thesis using n(3,6) less.prems(1) by simp
  next
    case False
    have h: "head = length queue" using False less.prems(5) by (simp add: scan_inv_def Let_def)
    have "used_loop S queue head lv used ba bb st = (st, Inr (used, ba, bb))" using False by (subst used_loop.simps) simp
    then have "used' = used" "ba' = ba" "bb' = bb" "st' = st" using less.prems(6) by simp_all
    then show ?thesis
      using scan_inv_covers [of S "img st" root queue lv used] less.prems h by (simp add: scan_inv_def Let_def)
  qed
qed

lemma scan_used_blocks_covers:
  assumes "8 \<le> BLOCK_SIZE S" "unat (BLOCK_COUNT S) \<le> MAX_TRACKED_BLOCKS" "exclusive (img st) (BLOCK_COUNT S) (BLOCK_SIZE S) root"
    and "Inv st" "pair_in_bounds S root"
    and "scan_used_blocks S root bitmap_EMPTY buf_a buf_b st = (st', Inr (used', ba', bb'))"
  shows "Inv st'" "img st' = img st" "bitmap_ok used'" "in_use (img st) (BLOCK_COUNT S) (BLOCK_SIZE S) root \<subseteq> marked used'"
    "length ba' = length buf_a" "length bb' = length buf_b"
proof -
  let ?bs = "BLOCK_SIZE S"
  have l: "?bs \<le> length buf_a" "?bs \<le> length buf_b" using assms(6) by (auto simp: scan_used_blocks_def Let_def split: if_splits)
  then obtain ba bb where u: "used_loop S [root] 0 (replicate MAX_LIVE_ENTRIES live_NONE) bitmap_EMPTY (take ?bs buf_a) (take ?bs buf_b) st =
      (st', Inr (used', ba, bb))" "ba' = ba @ drop ?bs buf_a" "bb' = bb @ drop ?bs buf_b"
    using assms(6) by (auto simp: scan_used_blocks_def Let_def not_less elim!: io_bind_InrE)
  have inv: "scan_inv S (img st) root [root] 0 (replicate MAX_LIVE_ENTRIES live_NONE) bitmap_EMPTY"
    using assms(5) by (auto simp: scan_inv_def bitmap_EMPTY_facts intro: reach_root)
  note U = used_loop_covers [OF assms(1-4) _ _ inv u(1)]
  show "Inv st'" "img st' = img st" "bitmap_ok used'" "in_use (img st) (BLOCK_COUNT S) (BLOCK_SIZE S) root \<subseteq> marked used'"
    "length ba' = length buf_a" "length bb' = length buf_b" using U l u(2,3) by simp_all
qed

end

end
