(* ===== verification/Alloc_Safety.thy ===== *)
theory Alloc_Safety
  imports Alloc_Scan
begin

text \<open>
  The allocators of \<open>src/src/alloc.rs\<close> end to end: what they hand out is on the device, distinct,
  not excluded, and not in use by anything reachable; and the cached bitmap stays an over
  approximation of the blocks in use, on every path.
\<close>

section \<open>The two loops of an allocation are one\<close>

lemma alloc_blocks_excluding_take:
  "alloc_blocks_excluding S root excluded out buf_a buf_b =
     io_bind (scan_used_blocks S root bitmap_EMPTY buf_a buf_b) (\<lambda>(used, ba, bb).
       io_bind (io_lift (snd (take_free_blocks used excluded out (BLOCK_COUNT S)))) (\<lambda>out'. io_return (out', ba, bb)))"
proof -
  have "io_bind (io_lift (case exclude_blocks used excluded of (u, Inl e) \<Rightarrow> Inl e | (u, Inr _) \<Rightarrow> Inr u)) (\<lambda>used1.
      io_bind (io_lift (snd (pick_blocks used1 out 0 (addresses (BLOCK_COUNT S))))) (\<lambda>(out', filled).
        if filled < length out then io_fail OutOfRange else io_return (out', ba, bb))) =
    io_bind (io_lift (snd (take_free_blocks used excluded out (BLOCK_COUNT S)))) (\<lambda>out'. io_return (out', ba, bb))"
    for used :: bitmap and ba bb :: "byte list"
    by (rule ext) (auto simp: take_free_blocks_def io_bind_eq split: prod.split sum.split)
  note eq = this
  show ?thesis unfolding alloc_blocks_excluding_def eq ..
qed

text \<open>The blocks of an in-flight chain, and the cache invariant.\<close>

definition inflight :: "(u32 \<Rightarrow> byte list) \<Rightarrow> u32 \<Rightarrow> nat \<Rightarrow> (u32 \<times> u32) option \<Rightarrow> u32 set" where
  "inflight im cnt bs ec = (case ec of None \<Rightarrow> {} | Some (hb, sz) \<Rightarrow> chain_set im cnt bs hb sz)"

definition cache_ok :: "u32 set \<Rightarrow> bitmap option \<Rightarrow> bool" where
  "cache_ok X cache \<longleftrightarrow> (case cache of None \<Rightarrow> True | Some bm \<Rightarrow> bitmap_ok bm \<and> X \<subseteq> marked bm)"

lemma take_cached_cases:
  assumes "cache_ok X cache"
  shows "\<exists>cache'. cache_ok X cache' \<and>
    (take_cached excluded out bcount (st, cache) = ((st, cache'), Inr None) \<or>
     (\<exists>out' bm. take_cached excluded out bcount (st, cache) = ((st, cache'), Inr (Some out')) \<and> cache' = Some bm \<and>
        length out' = length out \<and> distinct out' \<and> as_u32 ` set out' \<subseteq> marked bm - X \<and>
        (\<forall>b\<in>set out'. as_u32 b < bcount \<and> b \<notin> set excluded)))"
proof (cases cache)
  case None
  then show ?thesis using assms by (auto simp: take_cached_def)
next
  case (Some bm)
  obtain bm' r where t: "take_free_blocks bm excluded out bcount = (bm', r)" by fastforce
  have ok: "bitmap_ok bm" "X \<subseteq> marked bm" using assms Some by (simp_all add: cache_ok_def)
  note F = take_free_facts [OF ok(1) t]
  show ?thesis
  proof (cases r)
    case (Inl e)
    then show ?thesis using F ok(2) Some t by (intro exI [of _ "Some bm'"]) (auto simp: take_cached_def cache_ok_def)
  next
    case (Inr out')
    have fb: "as_u32 ` set out' \<subseteq> free_blocks bm excluded bcount" using F Inr by simp
    have "as_u32 b < bcount \<and> b \<notin> set excluded" "as_u32 b \<notin> X" if "b \<in> set out'" for b
      using fb that ok(2) by (auto simp: free_blocks_def image_subset_iff)
    then show ?thesis using F ok(2) Some t Inr
      by (intro exI [of _ "Some bm'"]) (auto simp: take_cached_def cache_ok_def)
  qed
qed

context readable_flash
begin

text \<open>The rescan of a cache miss: scan, in-flight chain, choice.\<close>

lemma rescan_facts:
  assumes "8 \<le> BLOCK_SIZE S" "unat (BLOCK_COUNT S) \<le> MAX_TRACKED_BLOCKS" "exclusive (img st) (BLOCK_COUNT S) (BLOCK_SIZE S) root"
    and "Inv st" "pair_in_bounds S root"
    and "scan_used_blocks S root bitmap_EMPTY buf_a buf_b st = (st1, Inr (u, ba, bb))"
    and "exclude_chain_blocks S ec u ba st1 = (st2, Inr (u1, ba1))"
    and "take_free_blocks u1 excluded out (BLOCK_COUNT S) = (u2, Inr out')"
  shows "Inv st2" "img st2 = img st" "bitmap_ok u2"
    "in_use (img st) (BLOCK_COUNT S) (BLOCK_SIZE S) root \<union> inflight (img st) (BLOCK_COUNT S) (BLOCK_SIZE S) ec \<subseteq> marked u1"
    "marked u1 \<subseteq> marked u2" "as_u32 ` set out' \<subseteq> marked u2"
    "length out' = length out" "distinct out'" "as_u32 ` set out' \<subseteq> free_blocks u1 excluded (BLOCK_COUNT S)"
proof -
  note C = scan_used_blocks_covers [OF assms(1-6)]
  have bl: "BLOCK_SIZE S \<le> length ba" using C(5) assms(6) by (auto simp: scan_used_blocks_def Let_def split: if_splits)
  have E: "Inv st2 \<and> img st2 = img st \<and> bitmap_ok u1 \<and> marked u1 = marked u \<union> inflight (img st) (BLOCK_COUNT S) (BLOCK_SIZE S) ec"
  proof (cases ec)
    case None
    then show ?thesis using assms(7) C by (simp add: exclude_chain_blocks_def inflight_def)
  next
    case (Some x)
    then obtain hb sz where x: "ec = Some (hb, sz)" by (cases x) auto
    then have w: "walk_ctz_chain S hb sz u ba st1 = (st2, Inr (u1, ba1))" using assms(7) by (simp add: exclude_chain_blocks_def)
    show ?thesis using walk_chain_marks [OF assms(1) C(1) C(3) bl w] C(2) x by (simp add: inflight_def)
  qed
  note F = take_free_facts [OF conjunct1 [OF conjunct2 [OF conjunct2 [OF E]]] assms(8)]
  show "Inv st2" "img st2 = img st" "bitmap_ok u2"
    "in_use (img st) (BLOCK_COUNT S) (BLOCK_SIZE S) root \<union> inflight (img st) (BLOCK_COUNT S) (BLOCK_SIZE S) ec \<subseteq> marked u1"
    "marked u1 \<subseteq> marked u2" "as_u32 ` set out' \<subseteq> marked u2"
    "length out' = length out" "distinct out'" "as_u32 ` set out' \<subseteq> free_blocks u1 excluded (BLOCK_COUNT S)"
    using E F C(4) by auto
qed

lemma rescan_buffers:
  assumes "8 \<le> BLOCK_SIZE S" "unat (BLOCK_COUNT S) \<le> MAX_TRACKED_BLOCKS" "exclusive (img st) (BLOCK_COUNT S) (BLOCK_SIZE S) root"
    and "Inv st" "pair_in_bounds S root"
    and "scan_used_blocks S root bitmap_EMPTY buf_a buf_b st = (st1, Inr (u, ba, bb))"
    and "exclude_chain_blocks S ec u ba st1 = (st2, Inr (u1, ba1))"
  shows "length ba1 = length buf_a" "length bb = length buf_b"
proof -
  note C = scan_used_blocks_covers [OF assms(1-6)]
  show "length bb = length buf_b" by (rule C(6))
  have bl: "BLOCK_SIZE S \<le> length ba" using C(5) assms(6) by (auto simp: scan_used_blocks_def Let_def split: if_splits)
  show "length ba1 = length buf_a"
  proof (cases ec)
    case None
    then show ?thesis using assms(7) C(5) by (simp add: exclude_chain_blocks_def)
  next
    case (Some x)
    then obtain hb sz where x: "ec = Some (hb, sz)" by (cases x) auto
    then have "walk_ctz_chain S hb sz u ba st1 = (st2, Inr (u1, ba1))" using assms(7) by (simp add: exclude_chain_blocks_def)
    from walk_chain_marks(3) [OF assms(1) C(1) C(3) bl this] show ?thesis using C(5) by simp
  qed
qed

end

section \<open>A device with an empty root directory\<close>

definition root_block :: "byte list" where
  "root_block = tiny_block @ replicate 232 0xFF"

definition root_dev :: "byte list" where
  "root_dev = root_block @ root_block @ replicate 1536 0xFF"

lemma root_block_reader: "\<exists>r. reader_new root_block = Inr r \<and> has_commits r \<and> crc_entries (iter_tags r)"
proof -
  have "case reader_new root_block of Inl _ \<Rightarrow> False | Inr r \<Rightarrow> has_commits r \<and> crc_entries (iter_tags r)" by code_simp
  then show ?thesis by (auto split: sum.splits)
qed

lemma root_dev_facts: "mem_inv 256 8 root_dev" "mem_img 256 root_dev 0 = root_block" "mem_img 256 root_dev 1 = root_block"
proof -
  have l: "length root_block = 256" by (simp add: root_block_def tiny_block_def Let_def)
  then show "mem_inv 256 8 root_dev" by (simp add: mem_inv_def root_dev_def)
  show "mem_img 256 root_dev 0 = root_block" "mem_img 256 root_dev 1 = root_block"
    using l by (simp_all add: mem_img_def root_dev_def slice_def)
qed

lemma gather_walk_crc: "crc_entries es \<Longrightarrow> gather_walk es out cnt = Inr (out, cnt)"
proof (induction es)
  case (Cons e es)
  then have "tag_type (te_tag e) = ForwardCrc \<or> (\<exists>c. tag_type (te_tag e) = CommitCrc c)"
    by (auto simp: is_ccrc_iff_chunk ccrc_chunk_Some)
  then show ?case using Cons by (auto simp: splice_step_cases is_name_tag_def Let_def)
qed simp

lemma tail_of_crc: "crc_entries es \<Longrightarrow> tail_of es = (None, False)"
proof -
  assume c: "crc_entries es"
  have "filter is_tail_entry es = []"
    using c by (auto simp: list_all_iff filter_empty_conv is_ccrc_iff_chunk ccrc_chunk_Some is_tail_entry_def)
  then show ?thesis by (simp add: tail_of_def)
qed

lemma crc_reader_empty:
  assumes "reader_new b = Inr r" "crc_entries (iter_tags r)"
  shows "gather_live_structs r out = Inr (out, 0)" "rd_tail r = None" "slot_structs r \<subseteq> {live_NONE}" "live_structs r = {}"
proof -
  show g: "gather_live_structs r out = Inr (out, 0)" for out using gather_walk_crc [OF assms(2)] by (simp add: gather_live_structs_def)
  have "(rd_tail r, is_hard_tail r) = tail_of (iter_tags r)" by (rule reader_new_path [OF assms(1)]) simp
  then show "rd_tail r = None" using tail_of_crc [OF assms(2)] by simp
  show "slot_structs r \<subseteq> {live_NONE}" "live_structs r = {}" using g by (auto simp: slot_structs_def live_structs_def)
qed

lemma root_dev_parse:
  obtains r where "pair_parse x root_block y root_block = Inr \<lparr>active_block = x, alternate_block = y, mp_reader = r, alternate_valid = True\<rparr>"
    "reader_new root_block = Inr r" "crc_entries (iter_tags r)"
proof -
  obtain r where r: "reader_new root_block = Inr r" "has_commits r" "crc_entries (iter_tags r)" using root_block_reader by blast
  show thesis by (rule that [OF _ r(1,3)]) (simp add: pair_parse_def Let_def rev_scmp_def r(1,2))
qed

lemma root_dev_reader: "\<exists>r. dir_reader (mem_img 256 root_dev) ROOT_BLOCK_PAIR = Some r \<and> reader_new root_block = Inr r \<and> crc_entries (iter_tags r)"
  by (rule root_dev_parse [of "BlockAddress 0" "BlockAddress 1"]) (simp add: dir_reader_def ROOT_BLOCK_PAIR_def root_dev_facts)

lemma root_dev_exclusive: "exclusive (mem_img 256 root_dev) 8 256 ROOT_BLOCK_PAIR"
proof -
  obtain r where r: "dir_reader (mem_img 256 root_dev) ROOT_BLOCK_PAIR = Some r" "reader_new root_block = Inr r" "crc_entries (iter_tags r)"
    using root_dev_reader by blast
  note E = crc_reader_empty [OF r(2,3)]
  have only: "p = ROOT_BLOCK_PAIR" if "reach slot_structs (mem_img 256 root_dev) ROOT_BLOCK_PAIR p" for p
    using that
  proof (induction rule: reach.induct)
    case (reach_ref p r' q)
    then have "r' = r" using r(1) by simp
    then have "refs_of (slot_structs r') r' = {}" using E(2,3) by (auto simp: refs_of_def live_NONE_def)
    then show ?case using reach_ref.hyps(3) by simp
  qed simp
  have "chain_blocks (slot_structs r) im cnt bs = {}" for im cnt bs using E(3) by (auto simp: chain_blocks_def live_NONE_def)
  then show ?thesis using only r(1) unfolding exclusive_def by (metis inf_bot_right option.inject)
qed

lemma root_dev_in_bounds: "pair_in_bounds (mem_storage 256 16 8) ROOT_BLOCK_PAIR"
  by (simp add: pair_in_bounds_def ROOT_BLOCK_PAIR_def)

lemma root_dev_scan:
  obtains u ba bb where
    "scan_used_blocks (mem_storage 256 16 8) ROOT_BLOCK_PAIR bitmap_EMPTY (replicate 256 0) (replicate 256 0) root_dev = (root_dev, Inr (u, ba, bb))"
    "bitmap_ok u" "marked u = {0, 1}"
proof -
  let ?S = "mem_storage 256 16 8"
  obtain u0 u where u0: "bitmap_set bitmap_EMPTY 0 = Inr u0" and u: "bitmap_set u0 1 = Inr u"
    by (simp add: bitmap_set_def MAX_TRACKED_BLOCKS_def)
  note m0 = bitmap_set_Inr [OF u0 bitmap_EMPTY_facts(1)] note m1 = bitmap_set_Inr [OF u m0(1)]
  obtain r where r: "pair_parse (BlockAddress 0) root_block (BlockAddress 1) root_block =
      Inr \<lparr>active_block = BlockAddress 0, alternate_block = BlockAddress 1, mp_reader = r, alternate_valid = True\<rparr>"
    "reader_new root_block = Inr r" "crc_entries (iter_tags r)" using root_dev_parse by blast
  note E = crc_reader_empty [OF r(2,3)]
  have le8: "\<not> (8 :: u32) \<le> 1" by (simp add: word_le_nat_alt)
  have rd: "dev_read ?S 0 0 (replicate 256 0) root_dev = (root_dev, Inr root_block)"
    "dev_read ?S 1 0 (replicate 256 0) root_dev = (root_dev, Inr root_block)"
    using root_dev_facts le8 by (simp_all add: dev_read_def mem_read_def mem_inv_def mem_img_def)
  have "used_loop ?S [ROOT_BLOCK_PAIR] 0 (replicate MAX_LIVE_ENTRIES live_NONE) bitmap_EMPTY (replicate 256 0) (replicate 256 0) root_dev =
      (root_dev, Inr (u, root_block, root_block))"
    using u0 u r(1) E(1,2) rd
    by (subst used_loop.simps, subst used_loop.simps)
      (simp add: ROOT_BLOCK_PAIR_def io_bind_lift io_bind_Inr [where m = "dev_read ?S 0 0 (replicate 256 0)", OF rd(1)]
        io_bind_Inr [where m = "dev_read ?S 1 0 (replicate 256 0)", OF rd(2)] io_bind_eq)
  then show thesis using that m0 m1 bitmap_EMPTY_facts(2) by (auto simp: scan_used_blocks_def io_bind_eq insert_commute)
qed

lemma root_dev_take:
  assumes "bitmap_ok u" "marked u = {0, 1}"
  obtains out' where "snd (take_free_blocks u [BlockAddress 2] [block_NONE, block_NONE] 8) = Inr out'"
proof -
  obtain u2 r where t: "take_free_blocks u [BlockAddress 2] [block_NONE, block_NONE] 8 = (u2, r)" by fastforce
  have "{3, 4} \<subseteq> free_blocks u [BlockAddress 2] 8" using assms(2) by (auto simp: free_blocks_def MAX_TRACKED_BLOCKS_def)
  then have "card {3 :: u32, 4} \<le> card (free_blocks u [BlockAddress 2] 8)" by (rule card_mono [rotated]) simp
  then show thesis using that take_free_facts [OF assms(1) t] t by (cases r) (auto simp: MAX_TRACKED_BLOCKS_def)
qed

text \<open>The two ends of a cache miss.\<close>

lemma alloc_cached_fail_keeps:
  assumes "r = Inl e" "alloc_blocks_cached S root excluded ec out buf_a buf_b (st, cache) = ((st', cache'), r)"
    and "take_cached excluded out (BLOCK_COUNT S) (st, cache) = ((st, c1), Inr None)"
  shows "cache' = c1"
  using assms
  by (auto simp: alloc_blocks_cached_def io_bind_eq on_dev_def store_cache_def split: prod.splits sum.splits)

lemma alloc_cached_miss:
  assumes "alloc_blocks_cached S root excluded ec out buf_a buf_b (st, cache) = ((st', cache'), Inr x)"
    and "take_cached excluded out (BLOCK_COUNT S) (st, cache) = ((st, c1), Inr None)"
  obtains u b1 b2 st1 u1 ba1 st2 u2 out' where
    "scan_used_blocks S root bitmap_EMPTY buf_a buf_b st = (st1, Inr (u, b1, b2))"
    "exclude_chain_blocks S ec u b1 st1 = (st2, Inr (u1, ba1))"
    "take_free_blocks u1 excluded out (BLOCK_COUNT S) = (u2, Inr out')"
    "st' = st2" "cache' = Some u2" "x = (out', ba1, b2)"
  using assms
  by (auto simp: alloc_blocks_cached_def io_bind_eq on_dev_def store_cache_def split: prod.splits sum.splits)


lemma root_dev_alloc:
  obtains u out' ba bb where "alloc_blocks_cached (mem_storage 256 16 8) ROOT_BLOCK_PAIR [BlockAddress 2] None [block_NONE, block_NONE]
     (replicate 256 0) (replicate 256 0) (root_dev, None) = ((root_dev, Some u), Inr (out', ba, bb))"
proof -
  let ?S = "mem_storage 256 16 8"
  obtain u ba bb where s: "scan_used_blocks ?S ROOT_BLOCK_PAIR bitmap_EMPTY (replicate 256 0) (replicate 256 0) root_dev = (root_dev, Inr (u, ba, bb))"
    "bitmap_ok u" "marked u = {0, 1}" by (rule root_dev_scan)
  obtain out' where o: "snd (take_free_blocks u [BlockAddress 2] [block_NONE, block_NONE] 8) = Inr out'"
    by (rule root_dev_take [OF s(2,3)])
  then obtain u2 where o2: "take_free_blocks u [BlockAddress 2] [block_NONE, block_NONE] 8 = (u2, Inr out')" by (metis prod.collapse)
  show thesis
    using that s(1) o2
    by (simp add: alloc_blocks_cached_def take_cached_def io_bind_eq on_dev_def exclude_chain_blocks_def store_cache_def)
qed

text \<open>The cached allocation, with everything the callers rely on.\<close>

lemma cached_allocation:
  assumes "readable_flash S Inv img live" and "8 \<le> BLOCK_SIZE S" and "unat (BLOCK_COUNT S) \<le> MAX_TRACKED_BLOCKS"
    and "exclusive (img st) (BLOCK_COUNT S) (BLOCK_SIZE S) root" and "Inv st" and "pair_in_bounds S root"
    and "X = in_use (img st) (BLOCK_COUNT S) (BLOCK_SIZE S) root \<union> inflight (img st) (BLOCK_COUNT S) (BLOCK_SIZE S) ec"
    and "cache_ok X cache"
    and "alloc_blocks_cached S root excluded ec out buf_a buf_b (st, cache) = ((st', cache'), r)"
  shows "cache_ok X cache' \<and>
    (case r of Inl e \<Rightarrow> True
     | Inr (out', ba, bb) \<Rightarrow> Inv st' \<and> img st' = img st \<and> length ba = length buf_a \<and> length bb = length buf_b \<and>
         length out' = length out \<and> distinct out' \<and>
         (\<forall>b\<in>set out'. as_u32 b < BLOCK_COUNT S \<and> b \<notin> set excluded \<and> as_u32 b \<notin> X) \<and>
         (\<exists>bm. cache' = Some bm \<and> as_u32 ` set out' \<subseteq> marked bm))"
proof -
  obtain c1 where c1: "cache_ok X c1" and t: "take_cached excluded out (BLOCK_COUNT S) (st, cache) = ((st, c1), Inr None) \<or>
     (\<exists>out' bm. take_cached excluded out (BLOCK_COUNT S) (st, cache) = ((st, c1), Inr (Some out')) \<and> c1 = Some bm \<and>
        length out' = length out \<and> distinct out' \<and> as_u32 ` set out' \<subseteq> marked bm - X \<and>
        (\<forall>b\<in>set out'. as_u32 b < BLOCK_COUNT S \<and> b \<notin> set excluded))"
    using take_cached_cases [OF assms(8), of excluded out "BLOCK_COUNT S" st] by blast
  from t show ?thesis
  proof (elim disjE exE conjE)
    fix out' bm
    assume h: "take_cached excluded out (BLOCK_COUNT S) (st, cache) = ((st, c1), Inr (Some out'))" "c1 = Some bm"
      "length out' = length out" "distinct out'" "as_u32 ` set out' \<subseteq> marked bm - X"
      "\<forall>b\<in>set out'. as_u32 b < BLOCK_COUNT S \<and> b \<notin> set excluded"
    have "r = Inr (out', buf_a, buf_b)" "st' = st" "cache' = c1"
      using assms(9) h(1) by (simp_all add: alloc_blocks_cached_def io_bind_eq)
    then show ?thesis using c1 h assms(5) by auto
  next
    assume miss: "take_cached excluded out (BLOCK_COUNT S) (st, cache) = ((st, c1), Inr None)"
    show ?thesis
    proof (cases r)
      case (Inl e)
      then have "cache' = c1" using assms(9) miss by (rule alloc_cached_fail_keeps)
      then show ?thesis using c1 Inl by simp
    next
      case (Inr x)
      obtain u b1 b2 st1 u1 ba1 st2 u2 out' where s:
        "scan_used_blocks S root bitmap_EMPTY buf_a buf_b st = (st1, Inr (u, b1, b2))"
        "exclude_chain_blocks S ec u b1 st1 = (st2, Inr (u1, ba1))"
        "take_free_blocks u1 excluded out (BLOCK_COUNT S) = (u2, Inr out')"
        "st' = st2" "cache' = Some u2" "x = (out', ba1, b2)"
        by (rule alloc_cached_miss [OF assms(9) [unfolded Inr] miss])
      note R = readable_flash.rescan_facts [OF assms(1-6) s(1-3)]
      note B = readable_flash.rescan_buffers [OF assms(1-6) s(1,2)]
      have "as_u32 b < BLOCK_COUNT S \<and> b \<notin> set excluded \<and> as_u32 b \<notin> X" if "b \<in> set out'" for b
        using R(4,9) that assms(7) by (auto simp: free_blocks_def image_subset_iff)
      then show ?thesis using R B s(4-6) Inr assms(7) by (auto simp: cache_ok_def)
    qed
  qed
qed


section \<open>Properties\<close>

text \<open>C13. The scan misses nothing in use: on a device of at most 4096 blocks whose reachable structures do
  not share blocks, a scan that returns has marked every block of every reachable metadata pair and
  of every live CTZ chain, leaves the device as it was and hands its buffers back. The scratch array
  of structs, which the source reuses from pair to pair without clearing, does no harm there.\<close>

theorem scan_marks_in_use:
  assumes "readable_flash S Inv img live" and "8 \<le> BLOCK_SIZE S" and "unat (BLOCK_COUNT S) \<le> MAX_TRACKED_BLOCKS"
    and "exclusive (img st) (BLOCK_COUNT S) (BLOCK_SIZE S) root" and "Inv st" and "pair_in_bounds S root"
    and "scan_used_blocks S root bitmap_EMPTY buf_a buf_b st = (st', Inr (used, ba, bb))"
  shows "img st' = img st \<and> length ba = length buf_a \<and> length bb = length buf_b \<and>
    (\<forall>b\<in>in_use (img st) (BLOCK_COUNT S) (BLOCK_SIZE S) root. bitmap_is_set used b)"
  using readable_flash.scan_used_blocks_covers [OF assms] by (auto simp: bitmap_is_set_marked)

theorem scan_marks_in_use_witness:
  "\<exists>used ba bb. scan_used_blocks (mem_storage 256 16 8) ROOT_BLOCK_PAIR bitmap_EMPTY (replicate 256 0) (replicate 256 0) root_dev =
       (root_dev, Inr (used, ba, bb)) \<and> bitmap_is_set used 0 \<and> bitmap_is_set used 1 \<and> \<not> bitmap_is_set used 2"
proof -
  obtain u ba bb where s: "scan_used_blocks (mem_storage 256 16 8) ROOT_BLOCK_PAIR bitmap_EMPTY (replicate 256 0) (replicate 256 0) root_dev = (root_dev, Inr (u, ba, bb))"
    "bitmap_ok u" "marked u = {0, 1}" by (rule root_dev_scan)
  have "reach live_structs (mem_img 256 root_dev) ROOT_BLOCK_PAIR ROOT_BLOCK_PAIR" by (rule reach_root)
  then have "0 \<in> in_use (mem_img 256 root_dev) 8 256 ROOT_BLOCK_PAIR" "1 \<in> in_use (mem_img 256 root_dev) 8 256 ROOT_BLOCK_PAIR"
    by (auto simp: in_use_def pair_u32_def ROOT_BLOCK_PAIR_def)
  moreover have "\<not> bitmap_is_set u 2" using s(3) by (simp add: bitmap_is_set_marked MAX_TRACKED_BLOCKS_def)
  ultimately show ?thesis
    using scan_marks_in_use [OF mem256.readable_flash_axioms _ _ _ _ root_dev_in_bounds s(1)] root_dev_exclusive root_dev_facts(1) s(1)
    by (auto simp: MAX_TRACKED_BLOCKS_def)
qed

text \<open>C11. An allocation is fresh: the blocks handed out are distinct, on the device, not excluded, and
  not in use by any reachable pair or live chain; the device is only read.\<close>

theorem alloc_blocks_fresh:
  assumes "readable_flash S Inv img live" and "8 \<le> BLOCK_SIZE S" and "unat (BLOCK_COUNT S) \<le> MAX_TRACKED_BLOCKS"
    and "exclusive (img st) (BLOCK_COUNT S) (BLOCK_SIZE S) root" and "Inv st" and "pair_in_bounds S root"
    and "alloc_blocks_excluding S root excluded out buf_a buf_b st = (st', Inr (out', ba, bb))"
  shows "img st' = img st \<and> length out' = length out \<and> distinct out' \<and>
    (\<forall>b\<in>set out'. as_u32 b < BLOCK_COUNT S \<and> b \<notin> set excluded \<and>
       as_u32 b \<notin> in_use (img st) (BLOCK_COUNT S) (BLOCK_SIZE S) root)"
proof -
  obtain st1 u b1 b2 u2 where s: "scan_used_blocks S root bitmap_EMPTY buf_a buf_b st = (st1, Inr (u, b1, b2))"
    "take_free_blocks u excluded out (BLOCK_COUNT S) = (u2, Inr out')" "st' = st1"
    using assms(7) unfolding alloc_blocks_excluding_take
    by (auto elim!: io_bind_InrE) (metis prod.collapse)
  have e: "exclude_chain_blocks S None u b1 st1 = (st1, Inr (u, b1))" by (simp add: exclude_chain_blocks_def)
  note R = readable_flash.rescan_facts [OF assms(1-6) s(1) e s(2)]
  have "as_u32 b < BLOCK_COUNT S \<and> b \<notin> set excluded \<and> as_u32 b \<notin> in_use (img st) (BLOCK_COUNT S) (BLOCK_SIZE S) root"
    if "b \<in> set out'" for b
    using R(4,9) that by (auto simp: free_blocks_def image_subset_iff)
  then show ?thesis using R s(3) by blast
qed

theorem alloc_blocks_fresh_witness:
  "\<exists>st' out' ba bb. alloc_blocks_excluding (mem_storage 256 16 8) ROOT_BLOCK_PAIR [BlockAddress 2] [block_NONE, block_NONE]
       (replicate 256 0) (replicate 256 0) root_dev = (st', Inr (out', ba, bb)) \<and> length out' = 2 \<and> distinct out' \<and>
     BlockAddress 2 \<notin> set out'"
proof -
  obtain u ba bb where s: "scan_used_blocks (mem_storage 256 16 8) ROOT_BLOCK_PAIR bitmap_EMPTY (replicate 256 0) (replicate 256 0) root_dev = (root_dev, Inr (u, ba, bb))"
    "bitmap_ok u" "marked u = {0, 1}" by (rule root_dev_scan)
  obtain out' where o: "snd (take_free_blocks u [BlockAddress 2] [block_NONE, block_NONE] 8) = Inr out'"
    by (rule root_dev_take [OF s(2,3)])
  have run: "alloc_blocks_excluding (mem_storage 256 16 8) ROOT_BLOCK_PAIR [BlockAddress 2] [block_NONE, block_NONE]
      (replicate 256 0) (replicate 256 0) root_dev = (root_dev, Inr (out', ba, bb))"
    using s(1) o by (simp add: alloc_blocks_excluding_take io_bind_eq)
  have "unat (BLOCK_COUNT (mem_storage 256 16 8)) \<le> MAX_TRACKED_BLOCKS" by (simp add: MAX_TRACKED_BLOCKS_def)
  from alloc_blocks_fresh [OF mem256.readable_flash_axioms _ this _ _ root_dev_in_bounds run] show ?thesis
    using run root_dev_exclusive root_dev_facts(1) by auto
qed

text \<open>C12. The cached allocator keeps its invariant: with a cache that marks every block in use and every
  block of the in-flight chain, each call, successful or not, leaves such a cache; a successful one
  hands out distinct, non excluded blocks outside both, and the new cache marks them too, so the next
  call cannot hand them out again.\<close>

theorem alloc_cached_invariant:
  assumes "readable_flash S Inv img live" and "8 \<le> BLOCK_SIZE S" and "unat (BLOCK_COUNT S) \<le> MAX_TRACKED_BLOCKS"
    and "exclusive (img st) (BLOCK_COUNT S) (BLOCK_SIZE S) root" and "Inv st" and "pair_in_bounds S root"
    and "X = in_use (img st) (BLOCK_COUNT S) (BLOCK_SIZE S) root \<union> inflight (img st) (BLOCK_COUNT S) (BLOCK_SIZE S) ec"
    and "cache_ok X cache"
    and "alloc_blocks_cached S root excluded ec out buf_a buf_b (st, cache) = ((st', cache'), r)"
  shows "cache_ok X cache' \<and>
    (case r of Inl e \<Rightarrow> True
     | Inr (out', _, _) \<Rightarrow> img st' = img st \<and> length out' = length out \<and> distinct out' \<and>
         (\<forall>b\<in>set out'. as_u32 b < BLOCK_COUNT S \<and> b \<notin> set excluded \<and> as_u32 b \<notin> X) \<and>
         (\<exists>bm. cache' = Some bm \<and> as_u32 ` set out' \<subseteq> marked bm))"
  using cached_allocation [OF assms] by (cases r) auto

theorem alloc_cached_invariant_witness:
  "\<exists>out' ba bb bm. alloc_blocks_cached (mem_storage 256 16 8) ROOT_BLOCK_PAIR [BlockAddress 2] None [block_NONE, block_NONE]
       (replicate 256 0) (replicate 256 0) (root_dev, None) = ((root_dev, Some bm), Inr (out', ba, bb)) \<and>
     distinct out' \<and> as_u32 ` set out' \<subseteq> marked bm"
proof -
  obtain u out' ba bb where run: "alloc_blocks_cached (mem_storage 256 16 8) ROOT_BLOCK_PAIR [BlockAddress 2] None [block_NONE, block_NONE]
      (replicate 256 0) (replicate 256 0) (root_dev, None) = ((root_dev, Some u), Inr (out', ba, bb))"
    by (rule root_dev_alloc)
  have "unat (BLOCK_COUNT (mem_storage 256 16 8)) \<le> MAX_TRACKED_BLOCKS" by (simp add: MAX_TRACKED_BLOCKS_def)
  from alloc_cached_invariant [OF mem256.readable_flash_axioms _ this _ _ root_dev_in_bounds refl _ run] show ?thesis
    using run root_dev_exclusive root_dev_facts(1) by (auto simp: cache_ok_def)
qed

text \<open>Two limits of the scan. On a device of more than 4096 blocks a child pair that lies entirely
  behind the bitmap counts as already marked, so it is skipped without an error. And a file cut down
  to an inline one keeps its old chain marked as long as the chain's struct stays in the log.\<close>

lemma far_pair_skipped:
  "pair_in_bounds S p \<Longrightarrow> MAX_TRACKED_BLOCKS \<le> unat (as_u32 (bp_a p)) \<Longrightarrow> MAX_TRACKED_BLOCKS \<le> unat (as_u32 (bp_b p)) \<Longrightarrow>
   add_child S used children p = Inr children"
  by (simp add: add_child_def bitmap_is_set_def Let_def)

lemma inline_update_keeps_chain:
  "tag_type (te_tag e) = InlineStruct \<Longrightarrow> gather_walk (es @ [e]) out cnt = gather_walk es out cnt"
  by (cases "gather_walk es out cnt") (auto simp: gath.walk_append splice_step_cases is_name_tag_def Let_def)

end
