(* ===== verification/Ops.thy ===== *)
theory Ops
  imports Dirs Gstates
begin

text \<open>
  Write operations on one metadata pair (\<open>src/src/fs.rs\<close>): the \<open>WriteOp\<close> values, their tags
  (\<open>emit_op\<close>), their wire size, the staged attributes of a moved entry and the in place append of
  \<open>apply_op_to_pair_inner\<close>.

  The abstract directory is the list of live entries with their latest name, kind, struct and
  attributes (\<open>log_dir\<close>); \<open>apply_op\<close> says what an operation does to it. An appended commit is shown
  to implement \<open>apply_op\<close>; the theory \<open>Compact\<close> shows the same of the compaction path.
\<close>

section \<open>Staged attributes\<close>

text \<open>\<open>StagedAttrs\<close> is its record buffer; \<open>StagedAttrIter\<close> parses it.\<close>

definition u16_from_le :: "byte \<Rightarrow> byte \<Rightarrow> u16" where
  "u16_from_le lo hi = ucast lo OR push_bit 8 (ucast hi)"

function staged_iter :: "byte list \<Rightarrow> (byte \<times> byte list) list" where
  "staged_iter rest =
     (if length rest < 3 then []
      else
        let attr_id = rest ! 0; len = unat (u16_from_le (rest ! 1) (rest ! 2))
        in if length rest < 3 + len then []
           else (attr_id, slice rest 3 len) # staged_iter (drop (3 + len) rest))"
  by pat_completeness auto

termination
  by (relation "measure length") auto

declare staged_iter.simps [simp del]

definition staged_dsize :: "byte list \<Rightarrow> nat" where
  "staged_dsize records = sum_list (map (\<lambda>(_, v). 4 + length v) (staged_iter records))"

definition RENAME_ATTR_STAGE :: nat where "RENAME_ATTR_STAGE = 1024"

definition u16_to_le :: "u16 \<Rightarrow> byte list" where
  "u16_to_le x = [ucast x, ucast (drop_bit 8 x)]"

text \<open>The callback of \<open>stage_live_attrs\<close> over its captured variables, the stage and \<open>used\<close>.\<close>

definition stage_attr :: "byte \<Rightarrow> byte list \<Rightarrow> (byte list \<times> nat, unit) io" where
  "stage_attr attr_id body = (\<lambda>(stage, used).
     let need = 3 + length body
     in if length stage - used < need then ((stage, used), Inl OutOfRange)
        else
          let s1 = stage[used := attr_id];
              s2 = splice s1 (used + 1) (u16_to_le (of_nat (length body)));
              s3 = splice s2 (used + 3) body
          in ((s3, used + need), Inr ()))"

definition stage_live_attrs :: "reader \<Rightarrow> u16 \<Rightarrow> byte list \<Rightarrow> byte list result" where
  "stage_live_attrs r live_id stage =
     (case for_each_live_attr r live_id stage_attr (stage, 0) of
        ((stage', used), Inl e) \<Rightarrow> Inl e
      | ((stage', used), Inr _) \<Rightarrow> Inr (take used stage'))"


section \<open>Operations and their tags\<close>

datatype write_op =
    OpCreate u16 "byte list" "byte list" "byte list"
  | OpCreateCtz u16 "byte list" u32 u32 "byte list"
  | OpUpdate u16 "byte list"
  | OpUpdateCtz u16 u32 u32
  | OpRemove u16
  | OpCreateDir u16 "byte list" block_pair "byte list"
  | OpRenameInPlace u16 tag_type "byte list"
  | OpSetAttr u16 byte "byte list"
  | OpRemoveAttr u16 byte
  | OpUpdateDirStruct u16 block_pair
  | OpNoop

text \<open>The two word bodies \<open>[0u8; 8]\<close> with two \<open>copy_from_slice\<close>.\<close>

definition words_body :: "u32 \<Rightarrow> u32 \<Rightarrow> byte list" where
  "words_body w0 w1 = splice (splice (replicate 8 0) 0 (to_le_bytes w0)) 4 (to_le_bytes w1)"

definition pair_body :: "block_pair \<Rightarrow> byte list" where
  "pair_body p = words_body (as_u32 (bp_a p)) (as_u32 (bp_b p))"

text \<open>\<open>len as u16\<close>.\<close>

abbreviation sized_tag :: "tag_type \<Rightarrow> u16 \<Rightarrow> byte list \<Rightarrow> tag" where
  "sized_tag ty i body \<equiv> Tag_new True ty i (of_nat (length body))"

fun emit_attrs :: "commit \<Rightarrow> u16 \<Rightarrow> (byte \<times> byte list) list \<Rightarrow> commit result" where
  "emit_attrs c i [] = Inr c"
| "emit_attrs c i ((a, v) # avs) =
     rbind (commit_tag c (sized_tag (UserAttr a) i v) v) (\<lambda>c'. emit_attrs c' i avs)"

fun emit_op :: "commit \<Rightarrow> write_op \<Rightarrow> commit result" where
  "emit_op c (OpCreate i nm content moved) =
     rbind (commit_tag c (Tag_new True Create i 0) []) (\<lambda>c.
     rbind (commit_tag c (sized_tag RegularFile i nm) nm) (\<lambda>c.
     rbind (commit_tag c (sized_tag InlineStruct i content) content) (\<lambda>c.
     emit_attrs c i (staged_iter moved))))"
| "emit_op c (OpCreateCtz i nm head_block total_size moved) =
     rbind (commit_tag c (Tag_new True Create i 0) []) (\<lambda>c.
     rbind (commit_tag c (sized_tag RegularFile i nm) nm) (\<lambda>c.
     rbind (commit_tag c (Tag_new True CtzStruct i 8) (words_body head_block total_size)) (\<lambda>c.
     emit_attrs c i (staged_iter moved))))"
| "emit_op c (OpUpdate i content) = commit_tag c (sized_tag InlineStruct i content) content"
| "emit_op c (OpUpdateCtz i head_block total_size) =
     commit_tag c (Tag_new True CtzStruct i 8) (words_body head_block total_size)"
| "emit_op c (OpRemove i) = commit_tag c (Tag_new True Delete i 0) []"
| "emit_op c (OpCreateDir i nm dir_pair moved) =
     rbind (commit_tag c (Tag_new True Create i 0) []) (\<lambda>c.
     rbind (commit_tag c (sized_tag Directory i nm) nm) (\<lambda>c.
     rbind (commit_tag c (Tag_new True DirStruct i 8) (pair_body dir_pair)) (\<lambda>c.
     emit_attrs c i (staged_iter moved))))"
| "emit_op c (OpRenameInPlace i name_type new_name) = commit_tag c (sized_tag name_type i new_name) new_name"
| "emit_op c (OpSetAttr i attr_id val) = commit_tag c (sized_tag (UserAttr attr_id) i val) val"
| "emit_op c (OpRemoveAttr i attr_id) = commit_tag c (Tag_new True (UserAttr attr_id) i 0x3FF) []"
| "emit_op c (OpUpdateDirStruct i new_pair) = commit_tag c (Tag_new True DirStruct i 8) (pair_body new_pair)"
| "emit_op c OpNoop = Inr c"

fun op_dsize_of :: "write_op \<Rightarrow> nat" where
  "op_dsize_of (OpUpdate i content) = (4 + length content) + 8"
| "op_dsize_of (OpUpdateCtz i h t) = (4 + 8) + 8"
| "op_dsize_of (OpUpdateDirStruct i p) = (4 + 8) + 8"
| "op_dsize_of (OpCreate i nm content moved) =
     4 + (4 + length nm) + (4 + length content) + staged_dsize moved + 8"
| "op_dsize_of (OpCreateCtz i nm h t moved) = 4 + (4 + length nm) + (4 + 8) + staged_dsize moved + 8"
| "op_dsize_of (OpCreateDir i nm p moved) = 4 + (4 + length nm) + (4 + 8) + staged_dsize moved + 8"
| "op_dsize_of (OpRemove i) = 4 + 8"
| "op_dsize_of (OpRemoveAttr i a) = 4 + 8"
| "op_dsize_of (OpRenameInPlace i ty new_name) = (4 + length new_name) + 8"
| "op_dsize_of (OpSetAttr i a val) = (4 + length val) + 8"
| "op_dsize_of OpNoop = 8"

fun op_adds_entry :: "write_op \<Rightarrow> bool" where
  "op_adds_entry (OpCreate _ _ _ _) = True"
| "op_adds_entry (OpCreateCtz _ _ _ _ _) = True"
| "op_adds_entry (OpCreateDir _ _ _ _) = True"
| "op_adds_entry _ = False"

text \<open>The commit of the append path: the operation, the pair's new gstate totals when the caller
  changes them, the tail when it changes, the padded CCRC.\<close>

definition emit_body :: "tag_type \<Rightarrow> nat \<Rightarrow> byte list option \<Rightarrow> commit \<Rightarrow> commit result" where
  "emit_body ty n body c =
     (case body of None \<Rightarrow> Inr c | Some b \<Rightarrow> commit_tag c (Tag_new True ty ID_NONE (of_nat n)) b)"

definition emit_tail :: "(block_pair \<times> bool) option \<Rightarrow> commit \<Rightarrow> commit result" where
  "emit_tail link c =
     (case link of None \<Rightarrow> Inr c
      | Some (p, is_hard) \<Rightarrow>
          commit_tag c (Tag_new True (if is_hard then HardTail else SoftTail) ID_NONE 8) (pair_body p))"

definition append_commit ::
  "byte list \<Rightarrow> nat \<Rightarrow> u32 \<Rightarrow> write_op \<Rightarrow> byte list option \<Rightarrow> byte list option \<Rightarrow>
   (block_pair \<times> bool) option \<Rightarrow> nat \<Rightarrow> nat \<Rightarrow> commit result" where
  "append_commit active_buf fin ptag op move_total relocate_total new_tail prog_size block_size =
     rbind (commit_new_appending active_buf fin ptag) (\<lambda>c.
     rbind (emit_op c op) (\<lambda>c.
     rbind (emit_body MoveState MOVE_STATE_BODY_SIZE move_total c) (\<lambda>c.
     rbind (emit_body RelocateState RELOCATE_STATE_BODY_SIZE relocate_total c) (\<lambda>c.
     rbind (emit_tail new_tail c) (\<lambda>c.
     commit_finish_padded c 0 prog_size block_size)))))"


section \<open>The abstract directory\<close>

record abs_entry =
  ae_slot :: lookup_slot
  ae_attrs :: "byte \<Rightarrow> byte list option"

definition entry_EMPTY :: abs_entry where
  "entry_EMPTY = \<lparr>ae_slot = lookup_EMPTY, ae_attrs = (\<lambda>_. None)\<rparr>"

text \<open>The live entries of a log: what \<open>lookup\<close> gathers for each id, and the attributes its forward
  replay leaves there.\<close>

definition log_dir :: "tag_entry list \<Rightarrow> abs_entry list result" where
  "log_dir es =
     rbind (lookup_walk es (replicate MAX_LIVE_ENTRIES lookup_EMPTY) 0) (\<lambda>(ks, cnt).
       Inr (map (\<lambda>i. \<lparr>ae_slot = ks ! i, ae_attrs = attr_replay es i\<rparr>) [0..<cnt]))"

text \<open>One tag on the list of live entries, where it addresses one of them (or the next id, for a
  create).\<close>

definition name_entry :: "tag_entry \<Rightarrow> abs_entry \<Rightarrow> abs_entry" where
  "name_entry e x = x\<lparr>ae_slot := (ae_slot x)\<lparr>ls_name := Some (te_body e), ls_kind := kind_of (te_tag e)\<rparr>\<rparr>"

definition struct_entry :: "tag_entry \<Rightarrow> abs_entry \<Rightarrow> abs_entry" where
  "struct_entry e x = x\<lparr>ae_slot := (ae_slot x)\<lparr>ls_struct := Some (tag_type (te_tag e), te_body e)\<rparr>\<rparr>"

definition attr_entry :: "byte \<Rightarrow> tag_entry \<Rightarrow> abs_entry \<Rightarrow> abs_entry" where
  "attr_entry a e x =
     x\<lparr>ae_attrs := (ae_attrs x)(a := if is_special_length (te_tag e) then None else Some (te_body e))\<rparr>"

definition at_id :: "tag_entry \<Rightarrow> (abs_entry \<Rightarrow> abs_entry) \<Rightarrow> abs_entry list \<Rightarrow> abs_entry list option" where
  "at_id e f xs =
     (let idx = unat (tag_id (te_tag e)) in if idx < length xs then Some (xs[idx := f (xs ! idx)]) else None)"

definition dir_step :: "tag_entry \<Rightarrow> abs_entry list \<Rightarrow> abs_entry list option" where
  "dir_step e xs =
     (let idx = unat (tag_id (te_tag e)); ty = tag_type (te_tag e)
      in if ty = Create then
           (if idx \<le> length xs \<and> length xs < MAX_LIVE_ENTRIES then Some (insert_at xs idx entry_EMPTY) else None)
         else if ty = Delete then (if idx < length xs then Some (remove_at xs idx) else None)
         else if is_name_tag (te_tag e) then at_id e (name_entry e) xs
         else if is_struct_type ty then at_id e (struct_entry e) xs
         else case ty of UserAttr a \<Rightarrow> at_id e (attr_entry a e) xs | _ \<Rightarrow> Some xs)"

fun dir_steps :: "tag_entry list \<Rightarrow> abs_entry list \<Rightarrow> abs_entry list option" where
  "dir_steps [] xs = Some xs"
| "dir_steps (e # es) xs = Option.bind (dir_step e xs) (dir_steps es)"

lemma dir_steps_append: "dir_steps (es @ fs) xs = Option.bind (dir_steps es xs) (dir_steps fs)"
  by (induction es arbitrary: xs) (auto split: bind_splits)

lemma length_insert_at [simp]: "i \<le> length xs \<Longrightarrow> length (insert_at xs i x) = Suc (length xs)"
  by (simp add: insert_at_def)

lemma length_remove_at [simp]: "i < length xs \<Longrightarrow> length (remove_at xs i) = length xs - 1"
  by (simp add: remove_at_def)

lemma nth_insert_at:
  "i \<le> length xs \<Longrightarrow> j \<le> length xs \<Longrightarrow>
   insert_at xs i x ! j = (if j < i then xs ! j else if j = i then x else xs ! (j - 1))"
  by (auto simp: insert_at_def nth_append nth_Cons')

lemma insert_at_update [simp]: "i \<le> length xs \<Longrightarrow> (insert_at xs i x)[i := y] = insert_at xs i y"
  by (rule nth_equalityI) (auto simp: nth_list_update nth_insert_at)

lemma insert_at_end: "insert_at xs (length xs) x = xs @ [x]"
  by (simp add: insert_at_def)

text \<open>The concrete walk follows the abstract step.\<close>

lemma log_dir_snoc:
  assumes "log_dir es = Inr xs" "dir_step e xs = Some xs'"
  shows "log_dir (es @ [e]) = Inr xs'"
proof -
  define idx where "idx = unat (tag_id (te_tag e))"
  let ?ty = "tag_type (te_tag e)"
  obtain ks cnt where w: "lookup_walk es (replicate MAX_LIVE_ENTRIES lookup_EMPTY) 0 = Inr (ks, cnt)"
    and xs: "xs = map (\<lambda>i. \<lparr>ae_slot = ks ! i, ae_attrs = attr_replay es i\<rparr>) [0..<cnt]"
    using assms(1) by (auto simp: log_dir_def)
  have b: "length ks = MAX_LIVE_ENTRIES" "cnt \<le> MAX_LIVE_ENTRIES" using look.walk_bounds [OF w] by simp_all
  have lx: "length xs = cnt" by (simp add: xs)
  have nx: "xs ! i = \<lparr>ae_slot = ks ! i, ae_attrs = attr_replay es i\<rparr>" if "i < cnt" for i using that by (simp add: xs)
  have upd: "f (xs ! idx) = y \<Longrightarrow> at_id e f xs = Some xs' \<Longrightarrow> idx < cnt \<and> xs' = xs[idx := y]" for f y
    by (auto simp: at_id_def Let_def lx idx_def split: if_splits)
  have fin: "log_dir (es @ [e]) = Inr xs'"
    if s: "splice_step ks cnt lookup_EMPTY (te_tag e) = Inr (kk, cnt', oc)" and l: "length xs' = cnt'"
      and n: "\<And>i. i < cnt' \<Longrightarrow>
        xs' ! i = \<lparr>ae_slot = lookup_upd e oc kk ! i, ae_attrs = attr_apply (attr_replay es) e i\<rparr>" for kk cnt' oc
  proof -
    have "lookup_walk (es @ [e]) (replicate MAX_LIVE_ENTRIES lookup_EMPTY) 0 = Inr (lookup_upd e oc kk, cnt')"
      by (simp only: look.walk_append w rbind.simps prod.case look.walk_Cons s look.walk_Nil)
    moreover have "map (\<lambda>i. \<lparr>ae_slot = lookup_upd e oc kk ! i, ae_attrs = attr_replay (es @ [e]) i\<rparr>) [0..<cnt'] = xs'"
      by (rule nth_equalityI) (simp_all add: l n attr_replay_snoc)
    ultimately show ?thesis by (simp add: log_dir_def)
  qed
  consider (create) "?ty = Create" | (delete) "?ty = Delete" | (name) "is_name_tag (te_tag e)" "?ty \<noteq> Create" "?ty \<noteq> Delete"
    | (struct) "is_struct_type ?ty" "\<not> is_name_tag (te_tag e)" "?ty \<noteq> Create" "?ty \<noteq> Delete"
    | (rest) "\<not> is_struct_type ?ty" "\<not> is_name_tag (te_tag e)" "?ty \<noteq> Create" "?ty \<noteq> Delete" by blast
  then show ?thesis
  proof cases
    case create
    then have c: "idx \<le> cnt" "cnt < MAX_LIVE_ENTRIES" "xs' = insert_at xs idx entry_EMPTY"
      using assms(2) by (auto simp: dir_step_def Let_def lx idx_def split: if_splits)
    show ?thesis
      by (rule fin [where kk = "(shift_up ks cnt idx)[idx := lookup_EMPTY]" and oc = Consumed and cnt' = "cnt + 1"])
        (use create c b in \<open>auto simp: splice_step_cases Let_def idx_def [symmetric] lx nth_insert_at nx shift_up_nth
          nth_list_update attr_apply_def entry_EMPTY_def\<close>)
  next
    case delete
    then have c: "idx < cnt" "xs' = remove_at xs idx"
      using assms(2) by (auto simp: dir_step_def Let_def lx idx_def split: if_splits)
    show ?thesis
      by (rule fin [where kk = "(shift_down ks idx cnt)[cnt - 1 := lookup_EMPTY]" and oc = Consumed and cnt' = "cnt - 1"])
        (use delete c b in \<open>auto simp: splice_step_cases Let_def idx_def [symmetric] lx nth_remove_at nx shift_down_nth
          nth_list_update attr_apply_def\<close>)
  next
    case name
    have c: "idx < cnt" "xs' = xs[idx := name_entry e (xs ! idx)]"
      using assms(2) name upd [OF refl] by (auto simp: dir_step_def Let_def)
    have a: "attr_apply (attr_replay es) e = attr_replay es"
      using name by (auto simp: attr_apply_def is_name_tag_def Let_def)
    show ?thesis
      by (rule fin [where kk = ks and oc = "Name idx" and cnt' = cnt])
        (use name c b a in \<open>auto simp: splice_step_cases Let_def idx_def [symmetric] lx nx name_entry_def nth_list_update\<close>)
  next
    case struct
    have c: "idx < cnt" "xs' = xs[idx := struct_entry e (xs ! idx)]"
      using assms(2) struct upd [OF refl] by (auto simp: dir_step_def Let_def)
    have a: "attr_apply (attr_replay es) e = attr_replay es"
      using struct by (auto simp: attr_apply_def is_struct_type_def Let_def)
    show ?thesis
      by (rule fin [where kk = ks and oc = Other and cnt' = cnt])
        (use struct c b a in \<open>auto simp: splice_step_cases Let_def idx_def [symmetric] lx nx struct_entry_def nth_list_update\<close>)
  next
    case rest
    show ?thesis
    proof (cases "\<exists>a. ?ty = UserAttr a")
      case True
      then obtain a where a: "?ty = UserAttr a" by blast
      have c: "idx < cnt" "xs' = xs[idx := attr_entry a e (xs ! idx)]"
        using assms(2) rest a upd [OF refl] by (auto simp: dir_step_def Let_def)
      show ?thesis
        by (rule fin [where kk = ks and oc = Other and cnt' = cnt])
          (use rest a c b in \<open>auto simp: splice_step_cases Let_def idx_def [symmetric] lx nx attr_entry_def nth_list_update
            attr_apply_def fun_eq_iff\<close>)
    next
      case False
      then have c: "xs' = xs" and a: "attr_apply (attr_replay es) e = attr_replay es"
        using assms(2) rest by (auto simp: dir_step_def attr_apply_def Let_def split: tag_type.splits)
      show ?thesis
        by (rule fin [where kk = ks and oc = Other and cnt' = cnt])
          (use rest c a in \<open>simp_all add: splice_step_cases Let_def lx nx\<close>)
    qed
  qed
qed

lemma log_dir_append:
  "log_dir es = Inr xs \<Longrightarrow> dir_steps fs xs = Some xs' \<Longrightarrow> log_dir (es @ fs) = Inr xs'"
proof (induction fs arbitrary: es xs)
  case (Cons e fs)
  then obtain ys where "dir_step e xs = Some ys" "dir_steps fs ys = Some xs'" by (auto split: bind_splits)
  with Cons.IH [of "es @ [e]" ys] log_dir_snoc [OF Cons.prems(1)] show ?case by simp
qed simp

lemma log_dir_Nil: "log_dir [] = Inr []"
  by (simp add: log_dir_def)


section \<open>What an operation does to the directory\<close>

definition put_attrs :: "(byte \<times> byte list) list \<Rightarrow> (byte \<Rightarrow> byte list option) \<Rightarrow> byte \<Rightarrow> byte list option" where
  "put_attrs avs m = foldl (\<lambda>m (a, v). m(a := Some v)) m avs"

definition new_entry :: "byte list \<Rightarrow> entry_kind \<Rightarrow> tag_type \<Rightarrow> byte list \<Rightarrow> byte list \<Rightarrow> abs_entry" where
  "new_entry nm k ty body moved =
     \<lparr>ae_slot = \<lparr>ls_name = Some nm, ls_kind = Some k, ls_struct = Some (ty, body)\<rparr>,
      ae_attrs = put_attrs (staged_iter moved) (\<lambda>_. None)\<rparr>"

definition with_struct :: "tag_type \<Rightarrow> byte list \<Rightarrow> abs_entry \<Rightarrow> abs_entry" where
  "with_struct ty body x = x\<lparr>ae_slot := (ae_slot x)\<lparr>ls_struct := Some (ty, body)\<rparr>\<rparr>"

definition type_kind :: "tag_type \<Rightarrow> entry_kind option" where
  "type_kind ty = (case ty of RegularFile \<Rightarrow> Some KindFile | Directory \<Rightarrow> Some KindDirectory | _ \<Rightarrow> None)"

definition with_name :: "tag_type \<Rightarrow> byte list \<Rightarrow> abs_entry \<Rightarrow> abs_entry" where
  "with_name ty nm x = x\<lparr>ae_slot := (ae_slot x)\<lparr>ls_name := Some nm, ls_kind := type_kind ty\<rparr>\<rparr>"

definition with_attr :: "byte \<Rightarrow> byte list option \<Rightarrow> abs_entry \<Rightarrow> abs_entry" where
  "with_attr a v x = x\<lparr>ae_attrs := (ae_attrs x)(a := v)\<rparr>"

definition modify :: "u16 \<Rightarrow> (abs_entry \<Rightarrow> abs_entry) \<Rightarrow> abs_entry list \<Rightarrow> abs_entry list" where
  "modify i f xs = xs[unat i := f (xs ! unat i)]"

fun apply_op :: "write_op \<Rightarrow> abs_entry list \<Rightarrow> abs_entry list" where
  "apply_op (OpCreate i nm content moved) xs = insert_at xs (unat i) (new_entry nm KindFile InlineStruct content moved)"
| "apply_op (OpCreateCtz i nm h t moved) xs = insert_at xs (unat i) (new_entry nm KindFile CtzStruct (words_body h t) moved)"
| "apply_op (OpUpdate i content) xs = modify i (with_struct InlineStruct content) xs"
| "apply_op (OpUpdateCtz i h t) xs = modify i (with_struct CtzStruct (words_body h t)) xs"
| "apply_op (OpRemove i) xs = remove_at xs (unat i)"
| "apply_op (OpCreateDir i nm p moved) xs = insert_at xs (unat i) (new_entry nm KindDirectory DirStruct (pair_body p) moved)"
| "apply_op (OpRenameInPlace i ty nm) xs = modify i (with_name ty nm) xs"
| "apply_op (OpSetAttr i a v) xs = modify i (with_attr a (Some v)) xs"
| "apply_op (OpRemoveAttr i a) xs = modify i (with_attr a None) xs"
| "apply_op (OpUpdateDirStruct i p) xs = modify i (with_struct DirStruct (pair_body p)) xs"
| "apply_op OpNoop xs = xs"

definition name_type_ok :: "tag_type \<Rightarrow> bool" where
  "name_type_ok ty \<longleftrightarrow> ty = RegularFile \<or> ty = Directory \<or> ty = Superblock"

fun op_target :: "write_op \<Rightarrow> u16 option" where
  "op_target (OpCreate i nm content moved) = Some i"
| "op_target (OpCreateCtz i nm h t moved) = Some i"
| "op_target (OpUpdate i content) = Some i"
| "op_target (OpUpdateCtz i h t) = Some i"
| "op_target (OpRemove i) = Some i"
| "op_target (OpCreateDir i nm p moved) = Some i"
| "op_target (OpRenameInPlace i ty nm) = Some i"
| "op_target (OpSetAttr i a v) = Some i"
| "op_target (OpRemoveAttr i a) = Some i"
| "op_target (OpUpdateDirStruct i p) = Some i"
| "op_target OpNoop = None"

text \<open>An operation in range of \<open>n\<close> live entries: it addresses one of them, or a free position when it
  creates; a rename carries a NAME type.\<close>

definition op_in_range :: "write_op \<Rightarrow> nat \<Rightarrow> bool" where
  "op_in_range op n \<longleftrightarrow>
     n \<le> MAX_LIVE_ENTRIES \<and>
     (case op_target op of None \<Rightarrow> True
      | Some i \<Rightarrow> if op_adds_entry op then unat i \<le> n \<and> n < MAX_LIVE_ENTRIES else unat i < n) \<and>
     (case op of OpRenameInPlace _ ty _ \<Rightarrow> name_type_ok ty | _ \<Rightarrow> True)"

text \<open>The tags of an operation.\<close>

abbreviation tent :: "tag \<Rightarrow> byte list \<Rightarrow> tag_entry" where
  "tent t b \<equiv> \<lparr>te_tag = t, te_body = b\<rparr>"

definition attr_tags :: "u16 \<Rightarrow> (byte \<times> byte list) list \<Rightarrow> tag_entry list" where
  "attr_tags i avs = map (\<lambda>(a, v). tent (sized_tag (UserAttr a) i v) v) avs"

fun op_tags :: "write_op \<Rightarrow> tag_entry list" where
  "op_tags (OpCreate i nm content moved) =
     [tent (Tag_new True Create i 0) [], tent (sized_tag RegularFile i nm) nm, tent (sized_tag InlineStruct i content) content]
     @ attr_tags i (staged_iter moved)"
| "op_tags (OpCreateCtz i nm h t moved) =
     [tent (Tag_new True Create i 0) [], tent (sized_tag RegularFile i nm) nm, tent (Tag_new True CtzStruct i 8) (words_body h t)]
     @ attr_tags i (staged_iter moved)"
| "op_tags (OpUpdate i content) = [tent (sized_tag InlineStruct i content) content]"
| "op_tags (OpUpdateCtz i h t) = [tent (Tag_new True CtzStruct i 8) (words_body h t)]"
| "op_tags (OpRemove i) = [tent (Tag_new True Delete i 0) []]"
| "op_tags (OpCreateDir i nm p moved) =
     [tent (Tag_new True Create i 0) [], tent (sized_tag Directory i nm) nm, tent (Tag_new True DirStruct i 8) (pair_body p)]
     @ attr_tags i (staged_iter moved)"
| "op_tags (OpRenameInPlace i ty nm) = [tent (sized_tag ty i nm) nm]"
| "op_tags (OpSetAttr i a v) = [tent (sized_tag (UserAttr a) i v) v]"
| "op_tags (OpRemoveAttr i a) = [tent (Tag_new True (UserAttr a) i 0x3FF) []]"
| "op_tags (OpUpdateDirStruct i p) = [tent (Tag_new True DirStruct i 8) (pair_body p)]"
| "op_tags OpNoop = []"

lemma rbind_assoc: "rbind (rbind m f) g = rbind m (\<lambda>x. rbind (f x) g)"
  by (cases m) simp_all

lemma rbind_Inr_right [simp]: "rbind m Inr = m"
  by (cases m) simp_all

lemma commit_tags_append: "commit_tags c (es @ fs) = rbind (commit_tags c es) (\<lambda>c'. commit_tags c' fs)"
  by (induction es arbitrary: c) (simp_all add: rbind_assoc)

lemma emit_attrs_tags: "emit_attrs c i avs = commit_tags c (attr_tags i avs)"
  by (induction avs arbitrary: c) (auto simp: attr_tags_def)

lemma emit_op_tags: "emit_op c op = commit_tags c (op_tags op)"
  by (cases op) (simp_all add: commit_tags_append emit_attrs_tags rbind_assoc)

text \<open>Staged tags have bodies of their declared length, so none is mistaken for a delete marker.\<close>

lemma commit_tags_sized: "commit_tags c es = Inr c' \<Longrightarrow> e \<in> set es \<Longrightarrow> length (te_body e) = body_len (te_tag e)"
proof (induction es arbitrary: c)
  case (Cons x xs)
  then obtain d where d: "commit_tag c (te_tag x) (te_body x) = Inr d" "commit_tags d xs = Inr c'" by auto
  then show ?case using Cons commit_tag_Inr(2) [OF d(1)] by auto
qed simp

lemma sized_not_special:
  assumes "length b = body_len (sized_tag ty i b)"
  shows "\<not> is_special_length (sized_tag ty i b)"
proof
  assume s: "is_special_length (sized_tag ty i b)"
  then have "b = []" using assms by (simp add: body_len_def)
  then show False using s by (simp add: is_special_length_def LEN_SPECIAL_def)
qed

lemma words_body_length [simp]: "length (words_body a b) = 8" "length (pair_body p) = 8"
  by (simp_all add: words_body_def pair_body_def)

lemma id_unat [simp]: "unat i < MAX_LIVE_ENTRIES \<Longrightarrow> unat (take_bit 10 i) = unat i" for i :: u16
  using take_bit_id [of i] by (simp add: MAX_LIVE_ENTRIES_def)

lemma dir_step_create:
  "unat i \<le> length xs \<Longrightarrow> length xs < MAX_LIVE_ENTRIES \<Longrightarrow>
   dir_step (tent (Tag_new True Create i n) b) xs = Some (insert_at xs (unat i) entry_EMPTY)"
  by (simp add: dir_step_def)

lemma dir_step_delete:
  "unat i < length xs \<Longrightarrow> length xs \<le> MAX_LIVE_ENTRIES \<Longrightarrow>
   dir_step (tent (Tag_new True Delete i n) b) xs = Some (remove_at xs (unat i))"
  by (simp add: dir_step_def)

lemma dir_step_name:
  assumes "unat i < length xs" "length xs \<le> MAX_LIVE_ENTRIES" "name_type_ok ty"
  shows "dir_step (tent (Tag_new True ty i n) b) xs = Some (modify i (with_name ty b) xs)"
proof -
  have "natural_type ty" using assms(3) by (auto simp: name_type_ok_def)
  then show ?thesis using assms
    by (auto simp: dir_step_def is_name_tag_def name_type_ok_def at_id_def modify_def name_entry_def with_name_def
      kind_of_def type_kind_def Let_def)
qed

lemma dir_step_struct:
  assumes "unat i < length xs" "length xs \<le> MAX_LIVE_ENTRIES" "is_struct_type ty"
  shows "dir_step (tent (Tag_new True ty i n) b) xs = Some (modify i (with_struct ty b) xs)"
  using assms natural_struct(1) [OF assms(3)]
  by (auto simp: dir_step_def is_name_tag_def is_struct_type_def at_id_def modify_def struct_entry_def with_struct_def Let_def)

lemma dir_step_attr:
  assumes "unat i < length xs" "length xs \<le> MAX_LIVE_ENTRIES"
  shows "dir_step (tent (Tag_new True (UserAttr a) i n) b) xs =
    Some (modify i (with_attr a (if is_special_length (Tag_new True (UserAttr a) i n) then None else Some b)) xs)"
  using assms
  by (simp add: dir_step_def is_name_tag_def is_struct_type_def at_id_def modify_def attr_entry_def with_attr_def Let_def)

lemma modify_insert: "unat i \<le> length xs \<Longrightarrow> modify i f (insert_at xs (unat i) x) = insert_at xs (unat i) (f x)"
  by (simp add: modify_def nth_insert_at)

lemma modify_modify: "unat i < length xs \<Longrightarrow> modify i f (modify i g xs) = modify i (f \<circ> g) xs"
  by (simp add: modify_def)

lemma length_modify [simp]: "length (modify i f xs) = length xs"
  by (simp add: modify_def)

lemma dir_steps_attrs:
  assumes "unat i < length xs" "length xs \<le> MAX_LIVE_ENTRIES"
    and "\<And>a v. (a, v) \<in> set avs \<Longrightarrow> \<not> is_special_length (sized_tag (UserAttr a) i v)"
  shows "dir_steps (attr_tags i avs) xs = Some (modify i (\<lambda>x. x\<lparr>ae_attrs := put_attrs avs (ae_attrs x)\<rparr>) xs)"
  using assms
proof (induction avs arbitrary: xs)
  case Nil
  then show ?case by (simp add: attr_tags_def put_attrs_def modify_def)
next
  case (Cons av avs)
  obtain a v where av: "av = (a, v)" by (cases av)
  have "dir_step (tent (sized_tag (UserAttr a) i v) v) xs = Some (modify i (with_attr a (Some v)) xs)"
    using dir_step_attr [OF Cons.prems(1,2)] Cons.prems(3) [of a v] by (simp add: av)
  then show ?case using Cons.IH [of "modify i (with_attr a (Some v)) xs"] Cons.prems
    by (simp add: attr_tags_def av modify_modify put_attrs_def with_attr_def comp_def)
qed

lemma dir_steps_create:
  assumes "unat i \<le> length xs" "length xs < MAX_LIVE_ENTRIES" "name_type_ok ty" "is_struct_type sty"
    and "\<And>a v. (a, v) \<in> set avs \<Longrightarrow> \<not> is_special_length (sized_tag (UserAttr a) i v)"
  shows "dir_steps ([tent (Tag_new True Create i n0) [], tent (Tag_new True ty i n1) nm, tent (Tag_new True sty i n2) body]
      @ attr_tags i avs) xs =
    Some (insert_at xs (unat i) \<lparr>ae_slot = \<lparr>ls_name = Some nm, ls_kind = type_kind ty, ls_struct = Some (sty, body)\<rparr>,
      ae_attrs = put_attrs avs (\<lambda>_. None)\<rparr>)"
proof -
  let ?ins = "\<lambda>x. insert_at xs (unat i) x"
  have l: "unat i < length (?ins x)" "length (?ins x) \<le> MAX_LIVE_ENTRIES" for x using assms(1,2) by simp_all
  show ?thesis using assms(1,2)
    by (simp add: dir_step_create dir_step_name [OF l assms(3)] dir_step_struct [OF l assms(4)] modify_insert
      dir_steps_attrs [OF l assms(5)] with_name_def with_struct_def entry_EMPTY_def lookup_EMPTY_def)
qed

lemma attrs_sized:
  assumes "\<And>e. e \<in> set (attr_tags i avs) \<Longrightarrow> length (te_body e) = body_len (te_tag e)" "(a, v) \<in> set avs"
  shows "\<not> is_special_length (sized_tag (UserAttr a) i v)"
proof -
  have "tent (sized_tag (UserAttr a) i v) v \<in> set (attr_tags i avs)" using assms(2) by (force simp: attr_tags_def)
  from assms(1) [OF this] show ?thesis by (intro sized_not_special) simp
qed

lemma struct_types [simp]: "is_struct_type InlineStruct" "is_struct_type CtzStruct" "is_struct_type DirStruct"
  by (simp_all add: is_struct_type_def)

lemma name_types [simp]: "name_type_ok RegularFile" "name_type_ok Directory" "name_type_ok Superblock"
  by (simp_all add: name_type_ok_def)

text \<open>The tags of an operation do what the operation means.\<close>

lemma op_steps:
  assumes "op_in_range op (length xs)" "\<And>e. e \<in> set (op_tags op) \<Longrightarrow> length (te_body e) = body_len (te_tag e)"
  shows "dir_steps (op_tags op) xs = Some (apply_op op xs)"
proof (cases op)
  case (OpCreate i nm content moved)
  have "\<not> is_special_length (sized_tag (UserAttr a) i v)" if "(a, v) \<in> set (staged_iter moved)" for a v
    by (rule attrs_sized [OF _ that]) (use assms(2) OpCreate in simp)
  from dir_steps_create [OF _ _ _ _ this, of xs RegularFile InlineStruct] show ?thesis using assms(1) OpCreate
    by (simp add: op_in_range_def new_entry_def type_kind_def)
next
  case (OpCreateCtz i nm h t moved)
  have "\<not> is_special_length (sized_tag (UserAttr a) i v)" if "(a, v) \<in> set (staged_iter moved)" for a v
    by (rule attrs_sized [OF _ that]) (use assms(2) OpCreateCtz in simp)
  from dir_steps_create [OF _ _ _ _ this, of xs RegularFile CtzStruct] show ?thesis using assms(1) OpCreateCtz
    by (simp add: op_in_range_def new_entry_def type_kind_def)
next
  case (OpCreateDir i nm p moved)
  have "\<not> is_special_length (sized_tag (UserAttr a) i v)" if "(a, v) \<in> set (staged_iter moved)" for a v
    by (rule attrs_sized [OF _ that]) (use assms(2) OpCreateDir in simp)
  from dir_steps_create [OF _ _ _ _ this, of xs Directory DirStruct] show ?thesis using assms(1) OpCreateDir
    by (simp add: op_in_range_def new_entry_def type_kind_def)
next
  case (OpSetAttr i a v)
  have "\<not> is_special_length (sized_tag (UserAttr a) i v)"
    using assms(2) OpSetAttr by (intro sized_not_special) simp
  then show ?thesis using assms(1) OpSetAttr by (simp add: op_in_range_def dir_step_attr)
next
  case (OpRemoveAttr i a)
  have "is_special_length (Tag_new True (UserAttr a) i 0x3FF)"
    by (simp add: is_special_length_def LEN_SPECIAL_def take_bit_eq_mod)
  then show ?thesis using assms(1) OpRemoveAttr by (simp add: op_in_range_def dir_step_attr)
qed (use assms(1) in \<open>simp_all add: op_in_range_def dir_step_struct dir_step_delete dir_step_name\<close>)

text \<open>Tags that say nothing about an entry.\<close>

definition inert :: "tag_entry \<Rightarrow> bool" where
  "inert e \<longleftrightarrow> tag_type (te_tag e) \<in> {MoveState, RelocateState, SoftTail, HardTail, ForwardCrc} \<or> is_ccrc (te_tag e)"

lemma dir_steps_inert: "list_all inert es \<Longrightarrow> dir_steps es xs = Some xs"
proof (induction es)
  case (Cons e es)
  then have "dir_step e xs = Some xs"
    by (auto simp: inert_def dir_step_def is_name_tag_def is_struct_type_def is_ccrc_iff_chunk ccrc_chunk_Some Let_def)
  then show ?case using Cons by simp
qed simp

lemma crc_entries_inert: "crc_entries es \<Longrightarrow> list_all inert es"
  by (auto simp: inert_def list_all_iff)

definition body_tags :: "tag_type \<Rightarrow> nat \<Rightarrow> byte list option \<Rightarrow> tag_entry list" where
  "body_tags ty n body = (case body of None \<Rightarrow> [] | Some b \<Rightarrow> [tent (Tag_new True ty ID_NONE (of_nat n)) b])"

definition tail_tags :: "(block_pair \<times> bool) option \<Rightarrow> tag_entry list" where
  "tail_tags link = (case link of None \<Rightarrow> []
     | Some (p, is_hard) \<Rightarrow> [tent (Tag_new True (if is_hard then HardTail else SoftTail) ID_NONE 8) (pair_body p)])"

lemma emit_body_tags: "emit_body ty n body c = commit_tags c (body_tags ty n body)"
  by (simp add: emit_body_def body_tags_def split: option.split)

lemma emit_tail_tags: "emit_tail link c = commit_tags c (tail_tags link)"
  by (simp add: emit_tail_def tail_tags_def split: option.split prod.split)

lemma link_tags_inert:
  "list_all inert (body_tags MoveState n ms @ body_tags RelocateState m rs @ tail_tags link)"
  "valid_entries (body_tags MoveState n ms @ body_tags RelocateState m rs @ tail_tags link)"
  by (auto simp: body_tags_def tail_tags_def inert_def split: option.splits)

lemma op_tags_valid: "op_in_range op n \<Longrightarrow> valid_entries (op_tags op)"
  by (cases op) (auto simp: attr_tags_def list_all_iff op_in_range_def name_type_ok_def)

lemma append_commit_tags:
  "append_commit buf fin ptag op ms rs link p bs =
     rbind (commit_new_appending buf fin ptag) (\<lambda>c.
     rbind (commit_tags c (op_tags op @ body_tags MoveState MOVE_STATE_BODY_SIZE ms @
       body_tags RelocateState RELOCATE_STATE_BODY_SIZE rs @ tail_tags link)) (\<lambda>c.
     commit_finish_padded c 0 p bs))"
  by (simp add: append_commit_def emit_op_tags emit_body_tags emit_tail_tags commit_tags_append rbind_assoc)


section \<open>What the directory answers\<close>

text \<open>A reader whose queries see exactly the entries \<open>xs\<close>.\<close>

definition answers :: "reader \<Rightarrow> abs_entry list \<Rightarrow> bool" where
  "answers r xs \<longleftrightarrow>
     (\<forall>pair nm. mp_reader pair = r \<longrightarrow> lookup_checked pair nm = Inr (find_slot nm 0 (map ae_slot xs))) \<and>
     (\<forall>i a. unat i < length xs \<longrightarrow> attr_get r i a = ae_attrs (xs ! unat i) a)"

lemma attr_get_replay:
  assumes "reader_new b = Inr r"
  shows "attr_get r i a = attr_replay (iter_tags r) (unat i) a"
proof -
  have "iter_tags_rev r = rev (iter_tags r)" by (rule reader_new_path [OF assms]) simp
  then show ?thesis using attr_walk_replay [of "int (unat i)" 0 a "iter_tags r"] by (simp add: attr_get_def)
qed

lemma log_dir_answers:
  assumes "reader_new b = Inr r" "log_dir (iter_tags r) = Inr xs"
  shows "answers r xs"
proof -
  obtain ks cnt where w: "lookup_walk (iter_tags r) (replicate MAX_LIVE_ENTRIES lookup_EMPTY) 0 = Inr (ks, cnt)"
    and xs: "xs = map (\<lambda>i. \<lparr>ae_slot = ks ! i, ae_attrs = attr_replay (iter_tags r) i\<rparr>) [0..<cnt]"
    using assms(2) by (auto simp: log_dir_def)
  have "length ks = MAX_LIVE_ENTRIES" "cnt \<le> MAX_LIVE_ENTRIES" using look.walk_bounds [OF w] by simp_all
  then have "map ae_slot xs = take cnt ks" by (intro nth_equalityI) (simp_all add: xs)
  then show ?thesis using w by (simp add: answers_def lookup_checked_def attr_get_replay [OF assms(1)] xs)
qed


text \<open>A directory of one file, for the witnesses.\<close>

abbreviation sample_entry1 :: abs_entry where
  "sample_entry1 \<equiv> new_entry [97] KindFile InlineStruct [120] []"

lemma sample_log_dir:
  assumes "crc_entries fs"
  shows "log_dir (sample_create @ fs) = Inr [sample_entry1]"
proof -
  have i: "staged_iter [] = []" by (simp add: staged_iter.simps)
  have "dir_steps sample_create [] = Some [sample_entry1]"
    using dir_steps_create [of 0 "[]" RegularFile InlineStruct "[]" 0 1 "[97]" 1 "[120]"]
    by (simp add: create_tags_def attr_tags_def new_entry_def i type_kind_def insert_at_def MAX_LIVE_ENTRIES_def
      del: dir_steps.simps)
  then have "dir_steps (sample_create @ fs) [] = Some [sample_entry1]"
    by (simp only: dir_steps_append bind.bind_lunit dir_steps_inert [OF crc_entries_inert [OF assms]])
  then show ?thesis using log_dir_append [OF log_dir_Nil] by (simp del: dir_steps.simps)
qed

text \<open>The wire size the append decision uses is exact, so an operation that fits its guard fits the
  block.\<close>

lemma commit_tags_offset:
  "commit_tags c es = Inr c' \<Longrightarrow>
   cm_offset c' = cm_offset c + sum_list (map (\<lambda>e. dsize (te_tag e)) es) \<and> length (cm_buf c') = length (cm_buf c)"
proof (induction es arbitrary: c)
  case (Cons e es)
  then obtain d where d: "commit_tag c (te_tag e) (te_body e) = Inr d" "commit_tags d es = Inr c'" by auto
  have "length (cm_buf d) = length (cm_buf c)"
    using commit_tag_Inr(2-4) [OF d(1)] slice_splice_two(5) [of "cm_offset c" "te_body e" "cm_buf c" "to_be_bytes (te_tag e XOR cm_ptag c)"]
    by (simp add: dsize_def)
  then show ?case using Cons.IH [OF d(2)] commit_tag_Inr(4) [OF d(1)] by simp
qed simp

lemma sum_sized:
  "(\<And>e. e \<in> set es \<Longrightarrow> length (te_body e) = body_len (te_tag e)) \<Longrightarrow>
   sum_list (map (\<lambda>e. dsize (te_tag e)) es) = sum_list (map (\<lambda>e. 4 + length (te_body e)) es)"
  by (induction es) (simp_all add: dsize_def)

lemma sum_attr_tags: "sum_list (map (\<lambda>e. 4 + length (te_body e)) (attr_tags i avs)) = sum_list (map (\<lambda>(_, v). 4 + length v) avs)"
  by (induction avs) (auto simp: attr_tags_def)

lemma op_dsize_exact:
  assumes "emit_op c op = Inr c'"
  shows "cm_offset c' + 8 = cm_offset c + op_dsize_of op"
proof -
  have t: "commit_tags c (op_tags op) = Inr c'" using assms by (simp add: emit_op_tags)
  have "sum_list (map (\<lambda>e. 4 + length (te_body e)) (op_tags op)) + 8 = op_dsize_of op"
    by (cases op) (simp_all add: sum_attr_tags staged_dsize_def)
  then show ?thesis using commit_tags_offset [OF t] sum_sized [of "op_tags op"] commit_tags_sized [OF t] by simp
qed


text \<open>What an append leaves: the block reads back as the old log with the operation's tags, the gstate
  totals and the link behind it, and means the operation.\<close>

abbreviation gstate_tags :: "byte list option \<Rightarrow> byte list option \<Rightarrow> (block_pair \<times> bool) option \<Rightarrow> tag_entry list" where
  "gstate_tags ms rs link \<equiv> body_tags MoveState MOVE_STATE_BODY_SIZE ms @
    body_tags RelocateState RELOCATE_STATE_BODY_SIZE rs @ tail_tags link"

lemma append_commit_dir:
  assumes "reader_new buf = Inr r0" and "has_commits r0" and "erased_from buf (committed_end r0)"
    and "append_commit buf (committed_end r0) (next_ptag r0) op ms rs link p bs = Inr c"
    and "log_dir (iter_tags r0) = Inr xs" and "op_in_range op (length xs)"
  obtains r fs where "reader_new (cm_buf c) = Inr r" "revision r = revision r0" "committed_end r = cm_offset c"
    "iter_tags r = iter_tags r0 @ op_tags op @ gstate_tags ms rs link @ fs" "crc_entries fs"
    "log_dir (iter_tags r) = Inr (apply_op op xs)" "answers r (apply_op op xs)"
proof -
  let ?gs = "gstate_tags ms rs link"
  obtain c0 c1 where c: "commit_new_appending buf (committed_end r0) (next_ptag r0) = Inr c0"
      "commit_tags c0 (op_tags op @ ?gs) = Inr c1" "commit_finish_padded c1 0 p bs = Inr c"
    using assms(4) unfolding append_commit_tags by auto
  have ve: "valid_entries (op_tags op @ ?gs)" using op_tags_valid [OF assms(6)] link_tags_inert(2) by simp
  obtain r fs where r: "reader_new (cm_buf c) = Inr r" "revision r = revision r0"
      "iter_tags r = iter_tags r0 @ (op_tags op @ ?gs) @ fs" "crc_entries fs" "committed_end r = cm_offset c"
    using append_commit_reader [OF assms(1-3) c(1-3) ve] by auto
  have "dir_steps (op_tags op) xs = Some (apply_op op xs)"
    by (rule op_steps [OF assms(6)]) (use commit_tags_sized [OF c(2)] in simp)
  moreover have "list_all inert (?gs @ fs)" using link_tags_inert(1) crc_entries_inert [OF r(4)] by simp
  ultimately have "dir_steps ((op_tags op @ ?gs) @ fs) xs = Some (apply_op op xs)"
    using dir_steps_inert by (simp add: dir_steps_append)
  from log_dir_append [OF assms(5) this] have "log_dir (iter_tags r) = Inr (apply_op op xs)" using r(3) by simp
  then show thesis using that r log_dir_answers [OF r(1)] by simp
qed

text \<open>An append changes only the bytes between the old committed end and the new one.\<close>

lemma append_commit_staged:
  assumes "reader_new buf = Inr r0" and "has_commits r0"
    and "append_commit buf (committed_end r0) (next_ptag r0) op ms rs link p bs = Inr c" and "op_in_range op n"
  shows "length (cm_buf c) = length buf" "take (committed_end r0) (cm_buf c) = take (committed_end r0) buf"
    "drop (cm_offset c) (cm_buf c) = drop (cm_offset c) buf" "committed_end r0 \<le> cm_offset c"
    "cm_offset c \<le> length buf" "0 < p \<Longrightarrow> p dvd cm_offset c"
proof -
  obtain c0 c1 where c: "commit_new_appending buf (committed_end r0) (next_ptag r0) = Inr c0"
      "commit_tags c0 (op_tags op @ gstate_tags ms rs link) = Inr c1" "commit_finish_padded c1 0 p bs = Inr c"
    using assms(3) unfolding append_commit_tags by auto
  have ve: "valid_entries (op_tags op @ gstate_tags ms rs link)" using op_tags_valid [OF assms(4)] link_tags_inert(2) by simp
  obtain s0 where s0: "tracks c0 s0 (iter_tags r0)" "cm_buf c0 = buf" "cm_offset c0 = committed_end r0"
    using tracks_appending [OF assms(1,2) c(1)] by blast
  obtain s1 where s1: "tracks c1 s1 (iter_tags r0 @ op_tags op @ gstate_tags ms rs link)" "staged c0 c1"
    using tracks_tags [OF s0(1) ve c(2)] by blast
  obtain s2 fs where s2: "tracks c s2 ((iter_tags r0 @ op_tags op @ gstate_tags ms rs link) @ fs)" "staged c1 c"
      "p dvd (if p = 0 then 0 else cm_offset c)"
    using tracks_finish_padded [OF s1(1) _ c(3)] by auto
  have st: "staged c0 c" using staged_trans [OF s1(2) s2(2)] .
  show "length (cm_buf c) = length buf" "take (committed_end r0) (cm_buf c) = take (committed_end r0) buf"
    "drop (cm_offset c) (cm_buf c) = drop (cm_offset c) buf" "committed_end r0 \<le> cm_offset c"
    "cm_offset c \<le> length buf" "0 < p \<Longrightarrow> p dvd cm_offset c"
    using st s0 s2 by (auto simp: staged_def tracks_def)
qed

section \<open>Properties\<close>

text \<open>C7. An appended commit implements its operation: when the append path commits an operation in
  range behind a readable directory (erased from the committed end on), the block reads back under
  the same revision, and lookups and attribute reads see exactly the directory the operation means,
  whatever gstate totals and tail link the commit also carries.\<close>

theorem append_implements_op:
  assumes "reader_new buf = Inr r0" and "has_commits r0" and "erased_from buf (committed_end r0)"
    and "append_commit buf (committed_end r0) (next_ptag r0) op ms rs link p bs = Inr c"
    and "log_dir (iter_tags r0) = Inr xs" and "op_in_range op (length xs)"
  shows "\<exists>r. reader_new (cm_buf c) = Inr r \<and> revision r = revision r0 \<and>
    log_dir (iter_tags r) = Inr (apply_op op xs) \<and> answers r (apply_op op xs)"
  by (rule append_commit_dir [OF assms]) blast

theorem append_implements_op_witness:
  "\<exists>buf r0 c r. reader_new buf = Inr r0 \<and>
     append_commit buf (committed_end r0) (next_ptag r0) (OpSetAttr 0 7 [1, 2]) None None None 16 128 = Inr c \<and>
     reader_new (cm_buf c) = Inr r \<and> attr_get r 0 7 = Some [1, 2]"
proof -
  obtain buf r0 fs where d: "reader_new buf = Inr r0" "has_commits r0" "erased_from buf (committed_end r0)"
    "committed_end r0 = 48" "length buf = 128" "iter_tags r0 = sample_create @ fs" "crc_entries fs"
    by (rule sample_dir, elim exE conjE)
  obtain c0 where c0: "commit_new_appending buf (committed_end r0) (next_ptag r0) = Inr c0" "cm_offset c0 = 48" "length (cm_buf c0) = 128"
    using d(4,5) by (simp add: commit_new_appending_def)
  obtain c1 where c1: "commit_tag c0 (Tag_new True (UserAttr 7) 0 2) [1, 2] = Inr c1" "cm_offset c1 = 54" "length (cm_buf c1) = 128"
    using commit_tag_ok [of "Tag_new True (UserAttr 7) 0 2" "[1, 2]" c0] body_len_Tag_new [of 2] c0 by (auto simp: dsize_def is_ccrc_def)
  obtain c2 where c2: "commit_finish_padded c1 0 16 128 = Inr c2"
    using commit_finish_padded_ok [of 80 c1 128 16] c1 by (auto simp: div_ceil_def)
  have c: "append_commit buf (committed_end r0) (next_ptag r0) (OpSetAttr 0 7 [1, 2]) None None None 16 128 = Inr c2"
    using c0(1) c1(1) c2 by (simp add: append_commit_def emit_body_def emit_tail_def)
  have "log_dir (iter_tags r0) = Inr [sample_entry1]" using sample_log_dir [OF d(7)] d(6) by simp
  from append_implements_op [OF d(1-3) c this] obtain r where
    "reader_new (cm_buf c2) = Inr r" "answers r (apply_op (OpSetAttr 0 7 [1, 2]) [sample_entry1])"
    by (auto simp: op_in_range_def MAX_LIVE_ENTRIES_def)
  moreover have "ae_attrs (apply_op (OpSetAttr 0 7 [1, 2]) [sample_entry1] ! 0) 7 = Some [1, 2]"
    by (simp add: modify_def with_attr_def)
  ultimately show ?thesis using d(1) c by (auto simp: answers_def intro!: exI [of _ buf])
qed

end
