(* ===== verification/Compact.thy ===== *)
theory Compact
  imports Ops
begin

text \<open>
  The compaction path (\<open>src/src/fs.rs\<close>): the offset slots gathered from the source block, the
  effect of an operation on a slot (\<open>slot_plan\<close>), the emission shared by the writer and the size
  estimate (\<open>emit_compact_range\<close> over a \<open>TagSink\<close>), the compacted commit, and the split point.

  The rebuilt block is shown to hold exactly the directory \<open>apply_op\<close> means, the same one an append
  produces; the size estimate is shown to be what the writer writes.
\<close>

section \<open>Offset slots\<close>

record slot_offsets =
  name_off :: u16
  name_len :: u16
  name_kind :: byte
  struct_off :: u16
  struct_len :: u16
  struct_kind :: byte

definition slot_EMPTY :: slot_offsets where
  "slot_EMPTY = \<lparr>name_off = 0, name_len = 0, name_kind = 0xff, struct_off = 0, struct_len = 0, struct_kind = 0xff\<rparr>"

text \<open>The iterated entries with the offset of each body in its block. The source takes the offset from
  the addresses of the two slices; the iterator's own offset is the same number.\<close>

function tags_at :: "tag_iter \<Rightarrow> (tag_entry \<times> nat) list" where
  "tags_at it = (case tag_iter_next it of None \<Rightarrow> [] | Some (e, it') \<Rightarrow> (e, ti_offset it' + 4) # tags_at it')"
  by pat_completeness auto

termination
  by (relation "measure (\<lambda>it. ti_end it - ti_offset it)") (auto dest: tag_iter_next_less)

declare tags_at.simps [simp del]

text \<open>\<open>u16::try_from(n).map_err(|_| Error::OutOfRange)\<close>.\<close>

definition u16_try :: "nat \<Rightarrow> u16 result" where
  "u16_try n = (if n < 65536 then Inr (of_nat n) else Inl OutOfRange)"

definition name_kind_of :: "tag \<Rightarrow> byte" where
  "name_kind_of t = (if tag_type t = RegularFile then 0 else if tag_type t = Directory then 1 else 2)"

definition struct_kind_of :: "tag \<Rightarrow> byte" where
  "struct_kind_of t = (if tag_type t = InlineStruct then 0 else if tag_type t = CtzStruct then 1 else 2)"

fun gather_slots :: "(tag_entry \<times> nat) list \<Rightarrow> slot_offsets list \<Rightarrow> nat \<Rightarrow> (slot_offsets list \<times> nat) result" where
  "gather_slots [] slots cnt = Inr (slots, cnt)"
| "gather_slots ((e, body_off) # es) slots cnt =
     rbind (splice_step slots cnt slot_EMPTY (te_tag e)) (\<lambda>(slots, cnt, oc).
       case oc of
         Consumed \<Rightarrow> gather_slots es slots cnt
       | Name i \<Rightarrow>
           rbind (u16_try body_off) (\<lambda>o16.
           rbind (u16_try (length (te_body e))) (\<lambda>l16.
             gather_slots es
               (slots[i := (slots ! i)\<lparr>name_off := o16, name_len := l16, name_kind := name_kind_of (te_tag e)\<rparr>]) cnt))
       | Other \<Rightarrow>
           (let i = unat (tag_id (te_tag e))
            in if is_struct_type (tag_type (te_tag e)) \<and> i < MAX_LIVE_ENTRIES then
                 rbind (u16_try body_off) (\<lambda>o16.
                 rbind (u16_try (length (te_body e))) (\<lambda>l16.
                   gather_slots es
                     (slots[i := (slots ! i)\<lparr>struct_off := o16, struct_len := l16, struct_kind := struct_kind_of (te_tag e)\<rparr>]) cnt))
               else gather_slots es slots cnt))"

definition gather_live_slots :: "metadata_pair \<Rightarrow> (slot_offsets list \<times> nat) result" where
  "gather_live_slots pair =
     gather_slots (tags_at (reader_iter (mp_reader pair))) (replicate MAX_LIVE_ENTRIES slot_EMPTY) 0"


section \<open>The plan of a slot\<close>

datatype override_body = OvSlice "byte list" | OvWords u32 u32

record slot_plan =
  drop_entry :: bool
  extra_name :: "(tag_type \<times> byte list) option"
  struct_override :: "(tag_type \<times> override_body) option"
  attr_suppress :: "byte option"
  attr_append :: "(byte \<times> byte list) option"

definition plan_NONE :: slot_plan where
  "plan_NONE = \<lparr>drop_entry = False, extra_name = None, struct_override = None, attr_suppress = None, attr_append = None\<rparr>"

fun slot_plan_of :: "write_op \<Rightarrow> u16 \<Rightarrow> slot_plan" where
  "slot_plan_of (OpUpdate i content) k =
     (if i = k then plan_NONE\<lparr>struct_override := Some (InlineStruct, OvSlice content)\<rparr> else plan_NONE)"
| "slot_plan_of (OpUpdateCtz i head_block total_size) k =
     (if i = k then plan_NONE\<lparr>struct_override := Some (CtzStruct, OvWords head_block total_size)\<rparr> else plan_NONE)"
| "slot_plan_of (OpUpdateDirStruct i p) k =
     (if i = k then plan_NONE\<lparr>struct_override := Some (DirStruct, OvWords (as_u32 (bp_a p)) (as_u32 (bp_b p)))\<rparr> else plan_NONE)"
| "slot_plan_of (OpRemove i) k = (if i = k then plan_NONE\<lparr>drop_entry := True\<rparr> else plan_NONE)"
| "slot_plan_of (OpRenameInPlace i name_type new_name) k =
     (if i = k then plan_NONE\<lparr>extra_name := Some (name_type, new_name)\<rparr> else plan_NONE)"
| "slot_plan_of (OpSetAttr i a v) k =
     (if i = k then plan_NONE\<lparr>attr_suppress := Some a, attr_append := Some (a, v)\<rparr> else plan_NONE)"
| "slot_plan_of (OpRemoveAttr i a) k = (if i = k then plan_NONE\<lparr>attr_suppress := Some a\<rparr> else plan_NONE)"
| "slot_plan_of (OpCreate _ _ _ _) k = plan_NONE"
| "slot_plan_of (OpCreateCtz _ _ _ _ _) k = plan_NONE"
| "slot_plan_of (OpCreateDir _ _ _ _) k = plan_NONE"
| "slot_plan_of OpNoop k = plan_NONE"


section \<open>Emission\<close>

datatype tag_sink = SinkCommit commit | SinkCount nat

fun sink_tag :: "tag_sink \<Rightarrow> tag \<Rightarrow> byte list \<Rightarrow> tag_sink result" where
  "sink_tag (SinkCommit c) t body = rbind (commit_tag c t body) (\<lambda>c'. Inr (SinkCommit c'))"
| "sink_tag (SinkCount n) t body = Inr (SinkCount (n + dsize t))"

definition name_type_of :: "byte \<Rightarrow> tag_type result" where
  "name_type_of k = (if k = 0 then Inr RegularFile else if k = 1 then Inr Directory
     else if k = 2 then Inr Superblock else Inl Corrupt)"

definition struct_type_of :: "byte \<Rightarrow> tag_type result" where
  "struct_type_of k = (if k = 0 then Inr InlineStruct else if k = 1 then Inr CtzStruct
     else if k = 2 then Inr DirStruct else Inl Corrupt)"

text \<open>The attribute callback: the sink is its captured state.\<close>

definition replay_attr :: "byte option \<Rightarrow> u16 \<Rightarrow> byte \<Rightarrow> byte list \<Rightarrow> (tag_sink, unit) io" where
  "replay_attr suppress emit_id a body = (\<lambda>sink.
     if suppress = Some a then (sink, Inr ())
     else case sink_tag sink (sized_tag (UserAttr a) emit_id body) body of
            Inl e \<Rightarrow> (sink, Inl e) | Inr sink' \<Rightarrow> (sink', Inr ()))"

definition emit_slot ::
  "tag_sink \<Rightarrow> byte list \<Rightarrow> reader \<Rightarrow> slot_offsets \<Rightarrow> slot_plan \<Rightarrow> u16 \<Rightarrow> u16 \<Rightarrow> tag_sink result" where
  "emit_slot sink source_buf r s plan i emit_id =
     (if name_kind s = 0xff \<or> struct_kind s = 0xff then Inl Corrupt
      else
        rbind (name_type_of (name_kind s)) (\<lambda>name_type.
        rbind (struct_type_of (struct_kind s)) (\<lambda>struct_type.
        rbind (sink_tag sink (Tag_new True Create emit_id 0) []) (\<lambda>sink.
        rbind (sink_tag sink (Tag_new True name_type emit_id (name_len s))
                 (slice source_buf (unat (name_off s)) (unat (name_len s)))) (\<lambda>sink.
        rbind (case extra_name plan of None \<Rightarrow> Inr sink
               | Some (nt, new_name) \<Rightarrow> sink_tag sink (sized_tag nt emit_id new_name) new_name) (\<lambda>sink.
        rbind (case struct_override plan of
                 Some (st, OvSlice body) \<Rightarrow> sink_tag sink (sized_tag st emit_id body) body
               | Some (st, OvWords w0 w1) \<Rightarrow> sink_tag sink (Tag_new True st emit_id 8) (words_body w0 w1)
               | None \<Rightarrow> sink_tag sink (Tag_new True struct_type emit_id (struct_len s))
                   (slice source_buf (unat (struct_off s)) (unat (struct_len s)))) (\<lambda>sink.
        rbind (case for_each_live_attr r i (replay_attr (attr_suppress plan) emit_id) sink of
                 (_, Inl e) \<Rightarrow> Inl e | (sink', Inr _) \<Rightarrow> Inr sink') (\<lambda>sink.
        case attr_append plan of None \<Rightarrow> Inr sink
        | Some (a, v) \<Rightarrow> sink_tag sink (sized_tag (UserAttr a) emit_id v) v))))))))"

fun emit_slots_range ::
  "tag_sink \<Rightarrow> byte list \<Rightarrow> reader \<Rightarrow> slot_offsets list \<Rightarrow> write_op \<Rightarrow> nat list \<Rightarrow> u16 \<Rightarrow> (tag_sink \<times> u16) result" where
  "emit_slots_range sink source_buf r slots op [] emit_id = Inr (sink, emit_id)"
| "emit_slots_range sink source_buf r slots op (i # is) emit_id =
     (let plan = slot_plan_of op (of_nat i)
      in if drop_entry plan then emit_slots_range sink source_buf r slots op is emit_id
         else rbind (emit_slot sink source_buf r (slots ! i) plan (of_nat i) emit_id) (\<lambda>sink.
              emit_slots_range sink source_buf r slots op is (emit_id + 1)))"

fun sink_attrs :: "tag_sink \<Rightarrow> u16 \<Rightarrow> (byte \<times> byte list) list \<Rightarrow> tag_sink result" where
  "sink_attrs sink i [] = Inr sink"
| "sink_attrs sink i ((a, v) # avs) =
     rbind (sink_tag sink (sized_tag (UserAttr a) i v) v) (\<lambda>sink. sink_attrs sink i avs)"

text \<open>The new entry of a create; its id is the number of entries emitted in the range. The
  \<open>debug_assert\<close>s on the operation's own id are absent in release builds.\<close>

fun emit_new_entry :: "tag_sink \<Rightarrow> write_op \<Rightarrow> u16 \<Rightarrow> tag_sink result" where
  "emit_new_entry sink (OpCreate _ nm content moved) emit_id =
     rbind (sink_tag sink (Tag_new True Create emit_id 0) []) (\<lambda>sink.
     rbind (sink_tag sink (sized_tag RegularFile emit_id nm) nm) (\<lambda>sink.
     rbind (sink_tag sink (sized_tag InlineStruct emit_id content) content) (\<lambda>sink.
     sink_attrs sink emit_id (staged_iter moved))))"
| "emit_new_entry sink (OpCreateCtz _ nm head_block total_size moved) emit_id =
     rbind (sink_tag sink (Tag_new True Create emit_id 0) []) (\<lambda>sink.
     rbind (sink_tag sink (sized_tag RegularFile emit_id nm) nm) (\<lambda>sink.
     rbind (sink_tag sink (Tag_new True CtzStruct emit_id 8) (words_body head_block total_size)) (\<lambda>sink.
     sink_attrs sink emit_id (staged_iter moved))))"
| "emit_new_entry sink (OpCreateDir _ nm dir_pair moved) emit_id =
     rbind (sink_tag sink (Tag_new True Create emit_id 0) []) (\<lambda>sink.
     rbind (sink_tag sink (sized_tag Directory emit_id nm) nm) (\<lambda>sink.
     rbind (sink_tag sink (Tag_new True DirStruct emit_id 8) (pair_body dir_pair)) (\<lambda>sink.
     sink_attrs sink emit_id (staged_iter moved))))"
| "emit_new_entry sink _ emit_id = Inr sink"

definition emit_compact_range ::
  "tag_sink \<Rightarrow> byte list \<Rightarrow> slot_offsets list \<Rightarrow> nat \<Rightarrow> write_op \<Rightarrow> nat \<Rightarrow> nat \<Rightarrow> tag_sink result" where
  "emit_compact_range sink source_buf slots cnt op lo hi =
     rbind (reader_new source_buf) (\<lambda>r.
     rbind (emit_slots_range sink source_buf r slots op [lo..<min (length slots) (min hi cnt)] 0) (\<lambda>(sink, emit_id).
     if lo \<le> cnt \<and> cnt < hi then emit_new_entry sink op emit_id else Inr sink))"

text \<open>An all zero gstate body and a tail whose first block is the sentinel are not emitted.\<close>

definition some_body :: "nat \<Rightarrow> byte list option \<Rightarrow> byte list option" where
  "some_body n body = (case body of None \<Rightarrow> None | Some b \<Rightarrow> if b \<noteq> replicate n 0 then Some b else None)"

definition some_tail :: "(block_pair \<times> bool) option \<Rightarrow> (block_pair \<times> bool) option" where
  "some_tail link = (case link of None \<Rightarrow> None | Some (p, h) \<Rightarrow> if \<not> is_none (bp_a p) then Some (p, h) else None)"

text \<open>The commit before \<open>finish_padded\<close>; \<open>bytes_written\<close> of the result is the function's value and
  \<open>cm_buf\<close> the buffer it leaves.\<close>

definition build_compact_commit ::
  "byte list \<Rightarrow> byte list \<Rightarrow> u32 \<Rightarrow> slot_offsets list \<Rightarrow> nat \<Rightarrow> write_op \<Rightarrow> nat \<Rightarrow> nat \<Rightarrow> nat \<Rightarrow> nat \<Rightarrow>
   byte list option \<Rightarrow> byte list option \<Rightarrow> (block_pair \<times> bool) option \<Rightarrow> (byte list \<times> nat) result" where
  "build_compact_commit alt_buf source_buf new_revision slots cnt op lo hi prog_size block_size move_state relocate_state link =
     rbind (commit_new (replicate (length alt_buf) 0xFF) new_revision) (\<lambda>c.
     rbind (emit_compact_range (SinkCommit c) source_buf slots cnt op lo hi) (\<lambda>sink.
     case sink of
       SinkCount _ \<Rightarrow> Inl Corrupt
     | SinkCommit c \<Rightarrow>
         rbind (emit_body MoveState MOVE_STATE_BODY_SIZE (some_body MOVE_STATE_BODY_SIZE move_state) c) (\<lambda>c.
         rbind (emit_body RelocateState RELOCATE_STATE_BODY_SIZE (some_body RELOCATE_STATE_BODY_SIZE relocate_state) c) (\<lambda>c.
         rbind (emit_tail (some_tail link) c) (\<lambda>c.
         rbind (commit_finish_padded c 0 prog_size block_size) (\<lambda>c.
         Inr (cm_buf c, bytes_written c)))))))"


section \<open>The split point\<close>

definition SPLIT_RESERVE :: nat where "SPLIT_RESERVE = 40"

definition compact_range_size :: "byte list \<Rightarrow> slot_offsets list \<Rightarrow> nat \<Rightarrow> write_op \<Rightarrow> nat \<Rightarrow> nat \<Rightarrow> nat result" where
  "compact_range_size source_buf slots cnt op lo hi =
     rbind (emit_compact_range (SinkCount 0) source_buf slots cnt op lo hi) (\<lambda>sink.
       case sink of SinkCount n \<Rightarrow> Inr n | SinkCommit _ \<Rightarrow> Inl Corrupt)"

definition split_budget :: "'s storage \<Rightarrow> nat" where
  "split_budget S = min (BLOCK_SIZE S - SPLIT_RESERVE) (next_multiple_of (BLOCK_SIZE S div 2) (PROG_SIZE S))"

function split_loop ::
  "nat \<Rightarrow> byte list \<Rightarrow> slot_offsets list \<Rightarrow> nat \<Rightarrow> write_op \<Rightarrow> nat \<Rightarrow> nat \<Rightarrow> nat result" where
  "split_loop budget source_buf slots cnt op fin split =
     (if fin - split > 1 then
        rbind (compact_range_size source_buf slots cnt op split fin) (\<lambda>sz.
          if fin - split < 0xff \<and> sz \<le> budget then Inr split
          else split_loop budget source_buf slots cnt op fin (split + (fin - split) div 2))
      else Inr split)"
  by pat_completeness auto

termination
  by (relation "measure (\<lambda>(_, _, _, _, _, fin, split). fin - split)") auto

declare split_loop.simps [simp del]

definition compute_split_index :: "'s storage \<Rightarrow> byte list \<Rightarrow> slot_offsets list \<Rightarrow> nat \<Rightarrow> write_op \<Rightarrow> nat \<Rightarrow> nat \<Rightarrow> nat result" where
  "compute_split_index S source_buf slots cnt op begin_idx end_idx =
     split_loop (split_budget S) source_buf slots cnt op end_idx begin_idx"

section \<open>Emission as a list of tags\<close>

fun sink_tags :: "tag_sink \<Rightarrow> tag_entry list \<Rightarrow> tag_sink result" where
  "sink_tags sink [] = Inr sink"
| "sink_tags sink (e # es) = rbind (sink_tag sink (te_tag e) (te_body e)) (\<lambda>sink. sink_tags sink es)"

lemma sink_tags_append: "sink_tags sink (es @ fs) = rbind (sink_tags sink es) (\<lambda>sink. sink_tags sink fs)"
  by (induction es arbitrary: sink) (simp_all add: rbind_assoc)

lemma sink_tags_commit: "sink_tags (SinkCommit c) es = rbind (commit_tags c es) (\<lambda>c'. Inr (SinkCommit c'))"
  by (induction es arbitrary: c) (simp_all add: rbind_assoc)

lemma sink_tags_count: "sink_tags (SinkCount n) es = Inr (SinkCount (n + sum_list (map (\<lambda>e. dsize (te_tag e)) es)))"
  by (induction es arbitrary: n) (simp_all add: add.assoc)

lemma sink_attrs_tags: "sink_attrs sink i avs = sink_tags sink (attr_tags i avs)"
  by (induction avs arbitrary: sink) (auto simp: attr_tags_def)

abbreviation kept_attrs :: "byte option \<Rightarrow> (byte \<times> byte list) list \<Rightarrow> (byte \<times> byte list) list" where
  "kept_attrs suppress avs \<equiv> filter (\<lambda>(a, v). suppress \<noteq> Some a) avs"

lemma call_each_replay:
  "(case call_each (replay_attr suppress i) avs sink of (_, Inl e) \<Rightarrow> Inl e | (sink', Inr _) \<Rightarrow> Inr sink')
     = sink_tags sink (attr_tags i (kept_attrs suppress avs))"
proof (induction avs arbitrary: sink)
  case (Cons av avs)
  obtain a v where av: "av = (a, v)" by (cases av)
  show ?case
  proof (cases "suppress = Some a")
    case True
    then show ?thesis using Cons by (simp add: av replay_attr_def io_bind_eq)
  next
    case False
    then show ?thesis using Cons
      by (cases "sink_tag sink (sized_tag (UserAttr a) i v) v")
         (simp_all add: av replay_attr_def io_bind_eq attr_tags_def)
  qed
qed (simp add: attr_tags_def)

abbreviation live_attrs :: "reader \<Rightarrow> u16 \<Rightarrow> (byte \<times> byte list) list" where
  "live_attrs r i \<equiv> attrs_walk (int (unat i)) (replicate 8 0) 0 (iter_tags_rev r)"

fun struct_tag_of :: "byte list \<Rightarrow> slot_offsets \<Rightarrow> tag_type \<Rightarrow> (tag_type \<times> override_body) option \<Rightarrow> u16 \<Rightarrow> tag_entry" where
  "struct_tag_of src s sty (Some (st, OvSlice body)) j = tent (sized_tag st j body) body"
| "struct_tag_of src s sty (Some (st, OvWords w0 w1)) j = tent (Tag_new True st j 8) (words_body w0 w1)"
| "struct_tag_of src s sty None j =
     tent (Tag_new True sty j (struct_len s)) (slice src (unat (struct_off s)) (unat (struct_len s)))"

definition extra_tags :: "slot_plan \<Rightarrow> u16 \<Rightarrow> tag_entry list" where
  "extra_tags plan j = (case extra_name plan of None \<Rightarrow> [] | Some (nt, nm) \<Rightarrow> [tent (sized_tag nt j nm) nm])"

definition append_tags :: "slot_plan \<Rightarrow> u16 \<Rightarrow> tag_entry list" where
  "append_tags plan j = (case attr_append plan of None \<Rightarrow> [] | Some av \<Rightarrow> attr_tags j [av])"

definition slot_tags :: "byte list \<Rightarrow> reader \<Rightarrow> slot_offsets \<Rightarrow> slot_plan \<Rightarrow> u16 \<Rightarrow> u16 \<Rightarrow> tag_entry list result" where
  "slot_tags src r s plan i j =
     (if name_kind s = 0xff \<or> struct_kind s = 0xff then Inl Corrupt
      else rbind (name_type_of (name_kind s)) (\<lambda>nty. rbind (struct_type_of (struct_kind s)) (\<lambda>sty.
        Inr ([tent (Tag_new True Create j 0) [],
              tent (Tag_new True nty j (name_len s)) (slice src (unat (name_off s)) (unat (name_len s)))]
             @ extra_tags plan j @ [struct_tag_of src s sty (struct_override plan) j]
             @ attr_tags j (kept_attrs (attr_suppress plan) (live_attrs r i)) @ append_tags plan j))))"

lemma emit_slot_tags: "emit_slot sink src r s plan i j = rbind (slot_tags src r s plan i j) (sink_tags sink)"
proof -
  have ex: "(case extra_name plan of None \<Rightarrow> Inr sink | Some (nt, nm) \<Rightarrow> sink_tag sink (sized_tag nt j nm) nm)
      = sink_tags sink (extra_tags plan j)" for sink
    by (simp add: extra_tags_def split: option.split prod.split)
  have ov: "(case struct_override plan of
           Some (st, OvSlice body) \<Rightarrow> sink_tag sink (sized_tag st j body) body
         | Some (st, OvWords w0 w1) \<Rightarrow> sink_tag sink (Tag_new True st j 8) (words_body w0 w1)
         | None \<Rightarrow> sink_tag sink (Tag_new True sty j (struct_len s)) (slice src (unat (struct_off s)) (unat (struct_len s))))
      = sink_tags sink [struct_tag_of src s sty (struct_override plan) j]" for sink sty
    by (simp split: option.split prod.split override_body.split)
  have ap: "(case attr_append plan of None \<Rightarrow> Inr sink | Some (a, v) \<Rightarrow> sink_tag sink (sized_tag (UserAttr a) j v) v)
      = sink_tags sink (append_tags plan j)" for sink
    by (simp add: append_tags_def attr_tags_def split: option.split prod.split)
  show ?thesis unfolding emit_slot_def slot_tags_def ex ov ap for_each_live_attr_def call_each_replay
    by (simp add: sink_tags_append rbind_assoc)
qed

fun range_tags :: "byte list \<Rightarrow> reader \<Rightarrow> slot_offsets list \<Rightarrow> write_op \<Rightarrow> nat list \<Rightarrow> u16 \<Rightarrow> (tag_entry list \<times> u16) result" where
  "range_tags src r slots op [] j = Inr ([], j)"
| "range_tags src r slots op (i # is) j =
     (if drop_entry (slot_plan_of op (of_nat i)) then range_tags src r slots op is j
      else rbind (slot_tags src r (slots ! i) (slot_plan_of op (of_nat i)) (of_nat i) j) (\<lambda>es.
           rbind (range_tags src r slots op is (j + 1)) (\<lambda>(fs, j'). Inr (es @ fs, j'))))"

lemma emit_range_tags:
  "emit_slots_range sink src r slots op is j = Inr (sink', j') \<longleftrightarrow>
   (\<exists>es. range_tags src r slots op is j = Inr (es, j') \<and> sink_tags sink es = Inr sink')"
proof (induction "is" arbitrary: sink j)
  case (Cons i "is")
  then show ?case
    by (auto simp: Let_def emit_slot_tags sink_tags_append)
qed auto

definition new_tags :: "write_op \<Rightarrow> u16 \<Rightarrow> tag_entry list" where
  "new_tags op j = (case op of
     OpCreate _ nm content moved \<Rightarrow> op_tags (OpCreate j nm content moved)
   | OpCreateCtz _ nm h t moved \<Rightarrow> op_tags (OpCreateCtz j nm h t moved)
   | OpCreateDir _ nm p moved \<Rightarrow> op_tags (OpCreateDir j nm p moved)
   | _ \<Rightarrow> [])"

lemma emit_new_tags: "emit_new_entry sink op j = sink_tags sink (new_tags op j)"
  by (cases op) (simp_all add: new_tags_def sink_attrs_tags)

text \<open>The tags of a range do not depend on where they go.\<close>

lemma emit_compact_range_iff:
  "emit_compact_range sink src slots cnt op lo hi = Inr sink' \<longleftrightarrow>
   (\<exists>r es j. reader_new src = Inr r \<and>
     range_tags src r slots op [lo..<min (length slots) (min hi cnt)] 0 = Inr (es, j) \<and>
     sink_tags sink (es @ (if lo \<le> cnt \<and> cnt < hi then new_tags op j else [])) = Inr sink')"
proof -
  define rng where "rng = [lo..<min (length slots) (min hi cnt)]"
  show ?thesis unfolding emit_compact_range_def rng_def [symmetric]
    by (cases "lo \<le> cnt \<and> cnt < hi") (simp only: if_True if_False simp_thms; auto simp: emit_range_tags emit_new_tags sink_tags_append)+
qed

lemma estimate_exact:
  assumes "emit_compact_range (SinkCommit c) src slots cnt op lo hi = Inr (SinkCommit c')"
  shows "compact_range_size src slots cnt op lo hi = Inr (cm_offset c' - cm_offset c)"
proof -
  obtain r es j where e: "reader_new src = Inr r"
      "range_tags src r slots op [lo..<min (length slots) (min hi cnt)] 0 = Inr (es, j)"
      "sink_tags (SinkCommit c) (es @ (if lo \<le> cnt \<and> cnt < hi then new_tags op j else [])) = Inr (SinkCommit c')"
    using assms unfolding emit_compact_range_iff by blast
  let ?ts = "es @ (if lo \<le> cnt \<and> cnt < hi then new_tags op j else [])"
  have "commit_tags c ?ts = Inr c'" using e(3) by (auto simp: sink_tags_commit)
  then have "cm_offset c' - cm_offset c = sum_list (map (\<lambda>e. dsize (te_tag e)) ?ts)"
    using commit_tags_offset by fastforce
  moreover have "emit_compact_range (SinkCount 0) src slots cnt op lo hi =
      Inr (SinkCount (0 + sum_list (map (\<lambda>e. dsize (te_tag e)) ?ts)))"
    using e(1,2) sink_tags_count [of 0 ?ts] unfolding emit_compact_range_iff by blast
  ultimately show ?thesis by (simp add: compact_range_size_def)
qed

section \<open>Offset slots stand for lookup slots\<close>

definition off_slot :: "byte list \<Rightarrow> slot_offsets \<Rightarrow> lookup_slot" where
  "off_slot src s =
     \<lparr>ls_name = (if name_kind s = 0xff then None else Some (slice src (unat (name_off s)) (unat (name_len s)))),
      ls_kind = (if name_kind s = 0 then Some KindFile else if name_kind s = 1 then Some KindDirectory else None),
      ls_struct = (if struct_kind s = 0xff then None
        else Some (if struct_kind s = 0 then InlineStruct else if struct_kind s = 1 then CtzStruct else DirStruct,
                   slice src (unat (struct_off s)) (unat (struct_len s))))\<rparr>"

lemma off_slot_EMPTY: "off_slot src slot_EMPTY = lookup_EMPTY"
  by (simp add: off_slot_def slot_EMPTY_def lookup_EMPTY_def)

lemma u16_try_Inr: "u16_try n = Inr w \<longleftrightarrow> n < 65536 \<and> w = of_nat n"
  by (auto simp: u16_try_def)

lemma unat_u16: "n < 65536 \<Longrightarrow> unat (of_nat n :: u16) = n"
  by (simp add: unat_of_nat)

abbreviation body_at :: "byte list \<Rightarrow> tag_entry \<times> nat \<Rightarrow> bool" where
  "body_at src eo \<equiv> te_body (fst eo) = slice src (snd eo) (length (te_body (fst eo)))"

lemma tags_at_from: "map fst (tags_at it) = tags_from it"
  by (induction it rule: tags_at.induct) (subst tags_at.simps, subst tags_from.simps, auto split: option.splits)

lemma tags_at_body: "list_all (body_at (ti_block it)) (tags_at it)"
proof (induction it rule: tags_at.induct)
  case (1 it)
  show ?case
  proof (cases "tag_iter_next it")
    case None
    then show ?thesis by (subst tags_at.simps) simp
  next
    case (Some p)
    obtain e it' where p: "p = (e, it')" by (cases p)
    have "body_at (ti_block it) (e, ti_offset it' + 4)" "ti_block it' = ti_block it"
      using Some p by (auto simp: tag_iter_next_def Let_def slice_def min_def split: if_splits)
    then show ?thesis using 1 [OF Some p [symmetric]] Some p by (subst tags_at.simps) simp
  qed
qed

lemma map_update_slot:
  "i < length slots \<Longrightarrow> off_slot src x = y \<Longrightarrow> map (off_slot src) (slots[i := x]) = (map (off_slot src) slots)[i := y]"
  by (simp add: map_update)

lemma gather_is_lookup:
  assumes "gather_slots tes slots cnt = Inr (slots', cnt')" "list_all (body_at src) tes"
    and "length slots = MAX_LIVE_ENTRIES" "cnt \<le> MAX_LIVE_ENTRIES"
  shows "lookup_walk (map fst tes) (map (off_slot src) slots) cnt = Inr (map (off_slot src) slots', cnt') \<and>
    length slots' = MAX_LIVE_ENTRIES"
  using assms
proof (induction tes arbitrary: slots cnt)
  case (Cons eo tes)
  obtain e off where eo: "eo = (e, off)" by (cases eo)
  obtain s c oc where st: "splice_step slots cnt slot_EMPTY (te_tag e) = Inr (s, c, oc)"
    using Cons.prems(1) by (auto simp: eo)
  note b = splice_step_bounds [OF st Cons.prems(4)]
  have ls: "length s = MAX_LIVE_ENTRIES" "c \<le> MAX_LIVE_ENTRIES" using b(1,2) Cons.prems(3) by simp_all
  have m: "splice_step (map (off_slot src) slots) cnt lookup_EMPTY (te_tag e) = Inr (map (off_slot src) s, c, oc)"
    using splice_step_map [OF Cons.prems(3,4), of "off_slot src" slot_EMPTY "te_tag e"] st by (simp add: off_slot_EMPTY)
  have body: "te_body e = slice src off (length (te_body e))" "list_all (body_at src) tes"
    using Cons.prems(2) by (simp_all add: eo)
  have step: ?case if "map (off_slot src) s' = lookup_upd e oc (map (off_slot src) s)" "length s' = MAX_LIVE_ENTRIES"
      "gather_slots tes s' c = Inr (slots', cnt')" for s'
    using Cons.IH [OF that(3) body(2) that(2) ls(2)] that(1) m by (simp add: eo look.walk_Cons del: lookup_walk.simps)
  show ?case
  proof (cases oc)
    case Consumed
    then show ?thesis using Cons.prems(1) st ls by (intro step [of s]) (simp_all add: eo)
  next
    case (Name i)
    let ?s = "s[i := (s ! i)\<lparr>name_off := of_nat off, name_len := of_nat (length (te_body e)), name_kind := name_kind_of (te_tag e)\<rparr>]"
    have g: "off < 65536" "length (te_body e) < 65536" "gather_slots tes ?s c = Inr (slots', cnt')"
      using Cons.prems(1) st Name by (auto simp: eo u16_try_Inr)
    have i: "i < length s" using b(3) Name ls b(2) by fastforce
    have "is_name_tag (te_tag e)" using st Name by (auto simp: splice_step_cases Let_def split: if_splits)
    then have k: "name_kind_of (te_tag e) \<noteq> 0xff"
      "(if name_kind_of (te_tag e) = 0 then Some KindFile else if name_kind_of (te_tag e) = 1 then Some KindDirectory else None)
        = kind_of (te_tag e)"
      by (auto simp: name_kind_of_def kind_of_def is_name_tag_def)
    have "off_slot src ((s ! i)\<lparr>name_off := of_nat off, name_len := of_nat (length (te_body e)), name_kind := name_kind_of (te_tag e)\<rparr>)
        = (off_slot src (s ! i))\<lparr>ls_name := Some (te_body e), ls_kind := kind_of (te_tag e)\<rparr>"
      using k(1) g(1,2) body(1) by (simp add: off_slot_def unat_u16 k(2) [symmetric])
    then show ?thesis using g(3) i ls Name by (intro step [of ?s]) (simp_all add: map_update)
  next
    case Other
    let ?i = "unat (tag_id (te_tag e))"
    show ?thesis
    proof (cases "is_struct_type (tag_type (te_tag e)) \<and> ?i < MAX_LIVE_ENTRIES")
      case False
      then show ?thesis using Cons.prems(1) st ls Other by (intro step [of s]) (auto simp: eo Let_def)
    next
      case True
      let ?s = "s[?i := (s ! ?i)\<lparr>struct_off := of_nat off, struct_len := of_nat (length (te_body e)), struct_kind := struct_kind_of (te_tag e)\<rparr>]"
      have g: "off < 65536" "length (te_body e) < 65536" "gather_slots tes ?s c = Inr (slots', cnt')"
        using Cons.prems(1) st Other True by (auto simp: eo u16_try_Inr Let_def)
      have k: "struct_kind_of (te_tag e) \<noteq> 0xff"
        "(if struct_kind_of (te_tag e) = 0 then InlineStruct else if struct_kind_of (te_tag e) = 1 then CtzStruct else DirStruct)
          = tag_type (te_tag e)"
        using True by (auto simp: struct_kind_of_def is_struct_type_def)
      have "off_slot src ((s ! ?i)\<lparr>struct_off := of_nat off, struct_len := of_nat (length (te_body e)), struct_kind := struct_kind_of (te_tag e)\<rparr>)
          = (off_slot src (s ! ?i))\<lparr>ls_struct := Some (tag_type (te_tag e), te_body e)\<rparr>"
        using k(1) g(1,2) body(1) by (simp add: off_slot_def unat_u16 k(2) [symmetric])
      then show ?thesis using g(3) True ls Other by (intro step [of ?s]) (simp_all add: map_update Let_def)
    qed
  qed
qed simp

lemma gather_live_dir:
  assumes "gather_live_slots pair = Inr (slots, cnt)"
  shows "log_dir (iter_tags (mp_reader pair)) =
      Inr (map (\<lambda>i. \<lparr>ae_slot = off_slot (rd_block (mp_reader pair)) (slots ! i),
                     ae_attrs = attr_replay (iter_tags (mp_reader pair)) i\<rparr>) [0..<cnt])"
    and "length slots = MAX_LIVE_ENTRIES" "cnt \<le> MAX_LIVE_ENTRIES"
proof -
  let ?r = "mp_reader pair"
  have "list_all (body_at (rd_block ?r)) (tags_at (reader_iter ?r))"
    using tags_at_body [of "reader_iter ?r"] by (simp add: reader_iter_def)
  from gather_is_lookup [OF assms [unfolded gather_live_slots_def] this]
  have w: "lookup_walk (iter_tags ?r) (replicate MAX_LIVE_ENTRIES lookup_EMPTY) 0 = Inr (map (off_slot (rd_block ?r)) slots, cnt)"
    and l: "length slots = MAX_LIVE_ENTRIES"
    by (simp_all add: tags_at_from iter_tags_def off_slot_EMPTY)
  have c: "cnt \<le> MAX_LIVE_ENTRIES" using look.walk_bounds [OF w] by simp
  show "log_dir (iter_tags ?r) = Inr (map (\<lambda>i. \<lparr>ae_slot = off_slot (rd_block ?r) (slots ! i), ae_attrs = attr_replay (iter_tags ?r) i\<rparr>) [0..<cnt])"
    using w l c by (simp add: log_dir_def)
  show "length slots = MAX_LIVE_ENTRIES" "cnt \<le> MAX_LIVE_ENTRIES" using l c .
qed


section \<open>What the emitted tags build\<close>

definition plan_entry :: "slot_plan \<Rightarrow> abs_entry \<Rightarrow> abs_entry" where
  "plan_entry plan x =
     (let x1 = (case extra_name plan of None \<Rightarrow> x | Some (nt, nm) \<Rightarrow> with_name nt nm x);
          x2 = (case struct_override plan of None \<Rightarrow> x1
                | Some (st, OvSlice body) \<Rightarrow> with_struct st body x1
                | Some (st, OvWords w0 w1) \<Rightarrow> with_struct st (words_body w0 w1) x1);
          x3 = (case attr_suppress plan of None \<Rightarrow> x2 | Some a \<Rightarrow> with_attr a None x2)
      in case attr_append plan of None \<Rightarrow> x3 | Some (a, v) \<Rightarrow> with_attr a (Some v) x3)"

definition plan_ok :: "slot_plan \<Rightarrow> bool" where
  "plan_ok plan \<longleftrightarrow>
     (case extra_name plan of None \<Rightarrow> True | Some (nt, _) \<Rightarrow> name_type_ok nt) \<and>
     (case struct_override plan of None \<Rightarrow> True | Some (st, _) \<Rightarrow> is_struct_type st)"

lemma put_attrs_simps [simp]: "put_attrs [] m = m" "put_attrs ((a, v) # avs) m = put_attrs avs (m(a := Some v))"
  by (simp_all add: put_attrs_def)

lemma put_attrs_point: "m c = m' c \<Longrightarrow> put_attrs avs m c = put_attrs avs m' c"
proof (induction avs arbitrary: m m')
  case (Cons av avs)
  obtain a v where av: "av = (a, v)" by (cases av)
  show ?case using Cons.IH [of "m(a := Some v)" "m'(a := Some v)"] Cons.prems by (simp add: av fun_upd_def)
qed simp

lemma put_attrs_kept:
  "put_attrs (kept_attrs suppress avs) m =
     (case suppress of None \<Rightarrow> put_attrs avs m | Some a \<Rightarrow> (put_attrs avs m)(a := m a))"
proof (induction avs arbitrary: m)
  case (Cons av avs)
  obtain a v where av: "av = (a, v)" by (cases av)
  show ?case
  proof (cases "suppress = Some a")
    case True
    have "put_attrs avs m c = put_attrs avs (m(a := Some v)) c" if "c \<noteq> a" for c
      using put_attrs_point [of m c "m(a := Some v)" avs] that by simp
    then show ?thesis using Cons [of m] True by (auto simp: av)
  next
    case False
    then show ?thesis using Cons [of "m(a := Some v)"] by (auto simp: av fun_upd_def split: option.splits)
  qed
qed (auto split: option.splits)

lemma put_attrs_notin: "a \<notin> fst ` set avs \<Longrightarrow> put_attrs avs m a = m a"
  by (induction avs arbitrary: m) auto

lemma put_attrs_distinct: "distinct (map fst avs) \<Longrightarrow> (a, v) \<in> set avs \<Longrightarrow> put_attrs avs m a = Some v"
proof (induction avs arbitrary: m)
  case (Cons av avs)
  have u: "put_attrs (av # avs) m = put_attrs avs (m(fst av := Some (snd av)))" by (cases av) simp
  show ?case
  proof (cases "av = (a, v)")
    case True
    then have "a \<notin> fst ` set avs" using Cons.prems(1) by simp
    then show ?thesis using put_attrs_notin [of a avs "m(a := Some v)"] True by simp
  next
    case False
    then show ?thesis using Cons by (simp add: u)
  qed
qed simp

lemma live_attrs_replay:
  assumes "reader_new b = Inr r"
  shows "put_attrs (live_attrs r i) (\<lambda>_. None) = attr_replay (iter_tags r) (unat i)"
proof
  fix a
  have rv: "iter_tags_rev r = rev (iter_tags r)" by (rule reader_new_path [OF assms]) simp
  have z: "\<not> seen_get (replicate 8 0) a" for a using seen_index [of a] by (simp add: seen_bit)
  have w: "distinct (map fst (live_attrs r i))"
      "set (live_attrs r i) = {(a, v). attr_replay (iter_tags r) (unat i) a = Some v}"
    using attrs_walk_replay [of "int (unat i)" 0 "replicate 8 0" "iter_tags r"] z by (simp_all add: rv)
  show "put_attrs (live_attrs r i) (\<lambda>_. None) a = attr_replay (iter_tags r) (unat i) a"
  proof (cases "attr_replay (iter_tags r) (unat i) a")
    case None
    then have "a \<notin> fst ` set (live_attrs r i)" using w(2) by auto
    then show ?thesis using put_attrs_notin None by simp
  next
    case (Some v)
    then show ?thesis using put_attrs_distinct [OF w(1), of a v] w(2) by simp
  qed
qed

text \<open>The tags of one slot append its entry, changed by the plan.\<close>

lemma slot_tags_steps:
  assumes "slot_tags src r s plan i j = Inr es" "\<And>e. e \<in> set es \<Longrightarrow> length (te_body e) = body_len (te_tag e)"
    and "plan_ok plan" "length ys = unat j" "unat j < MAX_LIVE_ENTRIES" "reader_new b = Inr r"
  shows "dir_steps es ys = Some (ys @ [plan_entry plan \<lparr>ae_slot = off_slot src s, ae_attrs = attr_replay (iter_tags r) (unat i)\<rparr>])"
proof -
  define kavs where "kavs = kept_attrs (attr_suppress plan) (live_attrs r i)"
  obtain nty sty where k: "name_kind s \<noteq> 0xff" "struct_kind s \<noteq> 0xff" "name_type_of (name_kind s) = Inr nty"
      "struct_type_of (struct_kind s) = Inr sty"
    and es: "es = [tent (Tag_new True Create j 0) [],
              tent (Tag_new True nty j (name_len s)) (slice src (unat (name_off s)) (unat (name_len s)))]
             @ extra_tags plan j @ [struct_tag_of src s sty (struct_override plan) j]
             @ attr_tags j kavs @ append_tags plan j"
    using assms(1) unfolding kavs_def by (auto simp: slot_tags_def split: if_splits)
  have nty: "name_type_ok nty" "type_kind nty = ls_kind (off_slot src s)"
    using k(1,3) by (auto simp: name_type_of_def off_slot_def type_kind_def split: if_splits)
  have sty: "is_struct_type sty" "ls_struct (off_slot src s) = Some (sty, slice src (unat (struct_off s)) (unat (struct_len s)))"
    using k(2,4) by (auto simp: struct_type_of_def off_slot_def split: if_splits)
  let ?I = "\<lambda>x. insert_at ys (unat j) x"
  have I: "unat j < length (?I x)" "length (?I x) \<le> MAX_LIVE_ENTRIES" "unat j \<le> length ys" for x
    using assms(4,5) by simp_all
  have at_end: "?I x = ys @ [x]" for x using assms(4) insert_at_end [of ys] by simp
  have extra: "dir_steps (extra_tags plan j) (?I x) =
      Some (?I (case extra_name plan of None \<Rightarrow> x | Some (nt, nm) \<Rightarrow> with_name nt nm x))" for x
    using assms(3) dir_step_name [OF I(1,2)]
    by (auto simp: extra_tags_def plan_ok_def modify_insert [OF I(3)] split: option.splits)
  have st: "dir_step (struct_tag_of src s sty (struct_override plan) j) (?I x) =
      Some (?I (case struct_override plan of None \<Rightarrow> with_struct sty (slice src (unat (struct_off s)) (unat (struct_len s))) x
        | Some (st, OvSlice body) \<Rightarrow> with_struct st body x
        | Some (st, OvWords w0 w1) \<Rightarrow> with_struct st (words_body w0 w1) x))" for x
    using assms(3) sty(1) dir_step_struct [OF I(1,2)]
    by (auto simp: plan_ok_def modify_insert [OF I(3)] split: option.splits override_body.splits)
  have attrs: "dir_steps (attr_tags j avs) (?I x) = Some (?I (x\<lparr>ae_attrs := put_attrs avs (ae_attrs x)\<rparr>))"
    if "set (attr_tags j avs) \<subseteq> set es" for avs x
  proof -
    have "\<not> is_special_length (sized_tag (UserAttr a) j v)" if "(a, v) \<in> set avs" for a v
      by (rule attrs_sized [OF _ that]) (use assms(2) \<open>set (attr_tags j avs) \<subseteq> set es\<close> in blast)
    from dir_steps_attrs [OF I(1,2) this, of avs] show ?thesis by (simp add: modify_insert [OF I(3)])
  qed
  have kept: "dir_steps (attr_tags j kavs) (?I x) = Some (?I (x\<lparr>ae_attrs := put_attrs kavs (ae_attrs x)\<rparr>))" for x
    by (rule attrs) (use es in auto)
  have app: "dir_steps (append_tags plan j) (?I x) =
      Some (?I (case attr_append plan of None \<Rightarrow> x | Some (a, v) \<Rightarrow> with_attr a (Some v) x))" for x
  proof (cases "attr_append plan")
    case None
    then show ?thesis by (simp add: append_tags_def)
  next
    case (Some av)
    obtain a v where av: "av = (a, v)" by (cases av)
    have "append_tags plan j = attr_tags j [(a, v)]" using Some av by (simp add: append_tags_def)
    moreover have "set (attr_tags j [(a, v)]) \<subseteq> set es" unfolding es calculation by auto
    ultimately show ?thesis using attrs [of "[(a, v)]" x] Some av by (simp add: with_attr_def)
  qed
  have "dir_steps es ys = Some (?I (plan_entry plan \<lparr>ae_slot = off_slot src s, ae_attrs = attr_replay (iter_tags r) (unat i)\<rparr>))"
  proof -
    have name: "dir_step (tent (Tag_new True nty j n) bd) (?I x) = Some (?I (with_name nty bd x))" for n bd x
      using dir_step_name [OF I(1,2) nty(1)] by (simp add: modify_insert [OF I(3)])
    have sl: "off_slot src s = \<lparr>ls_name = Some (slice src (unat (name_off s)) (unat (name_len s))), ls_kind = type_kind nty,
        ls_struct = Some (sty, slice src (unat (struct_off s)) (unat (struct_len s)))\<rparr>"
      using k(1) nty(2) sty(2) by (simp add: off_slot_def)
    have ra: "put_attrs kavs (\<lambda>_. None) = (case attr_suppress plan of None \<Rightarrow> attr_replay (iter_tags r) (unat i)
        | Some a \<Rightarrow> (attr_replay (iter_tags r) (unat i))(a := None))"
      unfolding kavs_def put_attrs_kept live_attrs_replay [OF assms(6)] ..
    have cr: "dir_step (tent (Tag_new True Create j 0) []) ys = Some (?I entry_EMPTY)"
      using assms(4,5) by (simp add: dir_step_create)
    show ?thesis unfolding es sl
      by (simp add: dir_steps_append cr name extra st kept app)
        (auto simp: plan_entry_def ra with_name_def with_struct_def with_attr_def entry_EMPTY_def lookup_EMPTY_def
          Let_def split: option.splits override_body.splits)
  qed
  then show ?thesis by (simp add: at_end)
qed

abbreviation source_entry :: "byte list \<Rightarrow> reader \<Rightarrow> slot_offsets list \<Rightarrow> nat \<Rightarrow> abs_entry" where
  "source_entry src r slots i \<equiv> \<lparr>ae_slot = off_slot src (slots ! i), ae_attrs = attr_replay (iter_tags r) i\<rparr>"

definition rebuilt :: "write_op \<Rightarrow> (nat \<Rightarrow> abs_entry) \<Rightarrow> nat list \<Rightarrow> abs_entry list" where
  "rebuilt op X is = map (\<lambda>i. plan_entry (slot_plan_of op (of_nat i)) (X i))
     (filter (\<lambda>i. \<not> drop_entry (slot_plan_of op (of_nat i))) is)"

lemma length_rebuilt: "length (rebuilt op X is) \<le> length is"
  by (simp add: rebuilt_def)

lemma range_steps:
  assumes "range_tags src r slots op is j = Inr (es, j')" "\<And>e. e \<in> set es \<Longrightarrow> length (te_body e) = body_len (te_tag e)"
    and "\<And>k. plan_ok (slot_plan_of op k)" "length ys = unat j" "unat j + length is \<le> MAX_LIVE_ENTRIES"
    and "reader_new b = Inr r" "\<And>i. i \<in> set is \<Longrightarrow> i < MAX_LIVE_ENTRIES"
  shows "dir_steps es ys = Some (ys @ rebuilt op (source_entry src r slots) is) \<and>
    unat j' = unat j + length (rebuilt op (source_entry src r slots) is)"
  using assms(1,2,4,5,7)
proof (induction "is" arbitrary: j es ys)
  case Nil
  then show ?case by (simp add: rebuilt_def)
next
  case (Cons i "is")
  let ?X = "source_entry src r slots"
  have im: "i < MAX_LIVE_ENTRIES" using Cons.prems(5) by simp
  then have iu: "unat (of_nat i :: u16) = i" by (intro unat_u16) (simp add: MAX_LIVE_ENTRIES_def)
  show ?case
  proof (cases "drop_entry (slot_plan_of op (of_nat i))")
    case True
    then have "rebuilt op ?X (i # is) = rebuilt op ?X is" by (simp add: rebuilt_def)
    then show ?thesis using Cons.IH [of j es ys] Cons.prems True by simp
  next
    case False
    obtain e1 e2 where e: "slot_tags src r (slots ! i) (slot_plan_of op (of_nat i)) (of_nat i) j = Inr e1"
        "range_tags src r slots op is (j + 1) = Inr (e2, j')" "es = e1 @ e2"
      using Cons.prems(1) False by auto
    let ?x = "plan_entry (slot_plan_of op (of_nat i)) (?X i)"
    have j: "unat j < MAX_LIVE_ENTRIES" using Cons.prems(4) by simp
    have j1: "unat (j + 1) = unat j + 1"
      using j by (simp add: unat_word_ariths MAX_LIVE_ENTRIES_def)
    have "dir_steps e1 ys = Some (ys @ [?x])"
      using slot_tags_steps [OF e(1) _ assms(3) Cons.prems(3) j assms(6)] Cons.prems(2) e(3) iu by simp
    moreover have "dir_steps e2 (ys @ [?x]) = Some ((ys @ [?x]) @ rebuilt op ?X is) \<and>
        unat j' = unat (j + 1) + length (rebuilt op ?X is)"
      using Cons.prems j1 e(3) by (intro Cons.IH [OF e(2)]) simp_all
    moreover have "rebuilt op ?X (i # is) = ?x # rebuilt op ?X is" using False by (simp add: rebuilt_def)
    ultimately show ?thesis using e(3) j1 by (simp add: dir_steps_append)
  qed
qed

text \<open>Every emitted tag is valid and none is a tail or a gstate record.\<close>

definition plain :: "tag_entry \<Rightarrow> bool" where
  "plain e \<longleftrightarrow> is_valid (te_tag e) \<and> tag_type (te_tag e) \<notin> {HardTail, SoftTail, MoveState, RelocateState}"

lemma slot_tags_plain:
  assumes "slot_tags src r s plan i j = Inr es" "plan_ok plan"
  shows "list_all plain es"
proof -
  obtain nty sty where k: "name_type_of (name_kind s) = Inr nty" "struct_type_of (struct_kind s) = Inr sty"
    and es: "es = [tent (Tag_new True Create j 0) [],
              tent (Tag_new True nty j (name_len s)) (slice src (unat (name_off s)) (unat (name_len s)))]
             @ extra_tags plan j @ [struct_tag_of src s sty (struct_override plan) j]
             @ attr_tags j (kept_attrs (attr_suppress plan) (live_attrs r i)) @ append_tags plan j"
    using assms(1) by (auto simp: slot_tags_def split: if_splits)
  have n: "name_type_ok nty" "is_struct_type sty"
    using k by (auto simp: name_type_of_def struct_type_of_def split: if_splits)
  have sp: "plain (tent (Tag_new True ty i m) x)" if "is_struct_type ty" for ty i m x
    using that by (auto simp: plain_def is_struct_type_def)
  have np: "plain (tent (Tag_new True ty i m) x)" if "name_type_ok ty" for ty i m x
    using that by (auto simp: plain_def name_type_ok_def)
  have "plain (struct_tag_of src s sty (struct_override plan) j)"
  proof (cases "struct_override plan")
    case None
    then show ?thesis using n(2) sp by simp
  next
    case (Some ov)
    obtain st body where ov: "ov = (st, body)" by (cases ov)
    then have "is_struct_type st" using assms(2) Some by (auto simp: plan_ok_def split: option.splits)
    then show ?thesis using Some ov sp by (cases body) simp_all
  qed
  moreover have "list_all plain (extra_tags plan j)"
    using assms(2) np by (auto simp: plan_ok_def extra_tags_def split: option.splits)
  moreover have "list_all plain (attr_tags j avs)" for avs by (auto simp: attr_tags_def list_all_iff plain_def)
  moreover have "list_all plain (append_tags plan j)"
    by (auto simp: append_tags_def attr_tags_def plain_def split: option.splits)
  moreover have "plain (tent (Tag_new True Create j 0) [])" by (simp add: plain_def)
  ultimately show ?thesis using np [OF n(1)] by (simp add: es)
qed

lemma range_tags_plain:
  "range_tags src r slots op is j = Inr (es, j') \<Longrightarrow> (\<And>k. plan_ok (slot_plan_of op k)) \<Longrightarrow> list_all plain es"
proof (induction "is" arbitrary: j es)
  case (Cons i "is")
  then show ?case by (auto split: if_splits dest: slot_tags_plain)
qed simp

lemma plans_ok: "op_in_range op n \<Longrightarrow> plan_ok (slot_plan_of op k)"
  by (cases op) (auto simp: plan_ok_def plan_NONE_def op_in_range_def)

text \<open>Over all live entries, the plans do to the list what the operation means.\<close>

lemma plan_NONE_entry [simp]: "plan_entry plan_NONE x = x" "\<not> drop_entry plan_NONE"
  by (simp_all add: plan_entry_def plan_NONE_def)

lemma rebuilt_all:
  assumes "\<And>i. i < n \<Longrightarrow> \<not> drop_entry (slot_plan_of op (of_nat i))"
    and "\<And>i. i < n \<Longrightarrow> plan_entry (slot_plan_of op (of_nat i)) (xs ! i) = ys ! i" "length ys = n"
  shows "rebuilt op (\<lambda>i. xs ! i) [0..<n] = ys"
proof -
  have "filter (\<lambda>i. \<not> drop_entry (slot_plan_of op (of_nat i))) [0..<n] = [0..<n]"
    using assms(1) by (simp add: filter_id_conv)
  then show ?thesis using assms(2,3) by (simp add: rebuilt_def) (rule nth_equalityI; simp)
qed

lemma of_nat_id: "i < MAX_LIVE_ENTRIES \<Longrightarrow> k = (of_nat i :: u16) \<longleftrightarrow> unat k = i"
  using unat_u16 [of i] by (auto simp: MAX_LIVE_ENTRIES_def)

lemma rebuilt_modify:
  assumes "length xs \<le> MAX_LIVE_ENTRIES" "unat k < length xs"
    and "\<And>i. slot_plan_of op i = (if k = i then plan else plan_NONE)" "\<not> drop_entry plan"
    and "plan_entry plan (xs ! unat k) = f (xs ! unat k)"
  shows "rebuilt op (\<lambda>i. xs ! i) [0..<length xs] = modify k f xs"
proof (rule rebuilt_all)
  fix i assume i: "i < length xs"
  then have k: "k = (of_nat i :: u16) \<longleftrightarrow> unat k = i" using assms(1) by (intro of_nat_id) simp
  show "\<not> drop_entry (slot_plan_of op (of_nat i))" using assms(3,4) by simp
  show "plan_entry (slot_plan_of op (of_nat i)) (xs ! i) = modify k f xs ! i"
    using k i assms(3,5) by (auto simp: modify_def nth_list_update)
qed simp

lemma rebuilt_remove:
  assumes "length xs \<le> MAX_LIVE_ENTRIES" "unat k < length xs"
  shows "rebuilt (OpRemove k) (\<lambda>i. xs ! i) [0..<length xs] = remove_at xs (unat k)"
proof -
  have p: "drop_entry (slot_plan_of (OpRemove k) (of_nat i)) \<longleftrightarrow> i = unat k" if "i < length xs" for i
    using of_nat_id [of i k] that assms(1) by (auto simp: plan_NONE_def)
  have q: "plan_entry (slot_plan_of (OpRemove k) (of_nat i)) (xs ! i) = xs ! i" if "i \<noteq> unat k" "i < length xs" for i
    using of_nat_id [of i k] that assms(1) by auto
  have f: "filter (\<lambda>i. \<not> drop_entry (slot_plan_of (OpRemove k) (of_nat i))) [0..<length xs]
      = [0..<unat k] @ [Suc (unat k)..<length xs]"
  proof -
    have "[0..<length xs] = [0..<unat k] @ unat k # [Suc (unat k)..<length xs]"
      using assms(2) upt_add_eq_append [of 0 "unat k" "length xs - unat k"] by (simp add: upt_conv_Cons)
    then show ?thesis using p assms(2) by (simp add: filter_id_conv)
  qed
  show ?thesis unfolding rebuilt_def f
    by (rule nth_equalityI) (use q assms(2) in \<open>auto simp: remove_at_def nth_append\<close>)
qed

lemma rebuilt_apply:
  assumes "op_in_range op (length xs)" "\<not> op_adds_entry op"
  shows "rebuilt op (\<lambda>i. xs ! i) [0..<length xs] = apply_op op xs"
proof -
  have n: "length xs \<le> MAX_LIVE_ENTRIES" using assms(1) by (simp add: op_in_range_def)
  note rm = rebuilt_modify [OF n]
  show ?thesis
  proof (cases op)
    case (OpUpdate k content)
    then show ?thesis using assms(1) unfolding OpUpdate apply_op.simps
      by (intro rm) (auto simp: op_in_range_def plan_entry_def plan_NONE_def)
  next
    case (OpUpdateCtz k h t)
    then show ?thesis using assms(1) unfolding OpUpdateCtz apply_op.simps
      by (intro rm) (auto simp: op_in_range_def plan_entry_def plan_NONE_def)
  next
    case (OpRemove k)
    then show ?thesis using assms(1) rebuilt_remove [OF n] by (simp add: op_in_range_def)
  next
    case (OpRenameInPlace k ty nm)
    then show ?thesis using assms(1) unfolding OpRenameInPlace apply_op.simps
      by (intro rm) (auto simp: op_in_range_def plan_entry_def plan_NONE_def)
  next
    case (OpSetAttr k a v)
    then show ?thesis using assms(1) unfolding OpSetAttr apply_op.simps
      by (intro rm) (auto simp: op_in_range_def plan_entry_def plan_NONE_def with_attr_def Let_def)
  next
    case (OpRemoveAttr k a)
    then show ?thesis using assms(1) unfolding OpRemoveAttr apply_op.simps
      by (intro rm) (auto simp: op_in_range_def plan_entry_def plan_NONE_def)
  next
    case (OpUpdateDirStruct k p)
    then show ?thesis using assms(1) unfolding OpUpdateDirStruct apply_op.simps
      by (intro rm) (auto simp: op_in_range_def plan_entry_def plan_NONE_def pair_body_def)
  next
    case OpNoop
    then show ?thesis by (auto intro: rebuilt_all)
  qed (use assms(2) in simp_all)
qed

lemma new_tags_plain: "list_all plain (new_tags op j)"
  by (auto simp: new_tags_def attr_tags_def list_all_iff plain_def split: write_op.splits)

lemma decode_pair_body: "decode_pair (pair_body p) 0 = p"
proof -
  have "le_u32_at (words_body a b) 0 = a \<and> le_u32_at (words_body a b) 4 = b" for a b
    unfolding words_body_def by (intro conjI le_u32_at_to_le_bytes) (simp_all add: slice_splice_before)
  then show ?thesis by (cases p) (simp add: decode_pair_def pair_body_def pair_new_def)
qed

definition live_tail :: "(block_pair \<times> bool) option \<Rightarrow> block_pair option \<times> bool" where
  "live_tail link = (case link of None \<Rightarrow> (None, False)
     | Some (p, h) \<Rightarrow> if pair_is_null p then (None, False) else (Some p, h))"

lemma tail_of_rebuilt:
  assumes "list_all plain es" "crc_entries fs"
  shows "tail_of (es @ (body_tags MoveState n ms @ body_tags RelocateState m rs @ tail_tags (some_tail link)) @ fs) = live_tail link"
proof -
  have e: "filter is_tail_entry es = []" using assms(1) by (auto simp: filter_empty_conv list_all_iff plain_def is_tail_entry_def)
  have f: "filter is_tail_entry fs = []"
    using assms(2) by (auto simp: filter_empty_conv list_all_iff is_tail_entry_def is_ccrc_def)
  have b: "filter is_tail_entry (body_tags ty k x) = []" if "ty = MoveState \<or> ty = RelocateState" for ty k x
    using that by (auto simp: body_tags_def is_tail_entry_def split: option.split)
  have "body_len (Tag_new True ty ID_NONE 8) = 8" for ty using body_len_Tag_new [of 8] by simp
  then have it: "is_tail_entry (tent (Tag_new True HardTail ID_NONE 8) x)" "is_tail_entry (tent (Tag_new True SoftTail ID_NONE 8) x)" for x
    by (simp_all add: is_tail_entry_def)
  have t: "filter is_tail_entry (tail_tags l) = tail_tags l" for l
    using it by (auto simp: tail_tags_def split: option.split)
  show ?thesis
    by (auto simp: tail_of_def Let_def e f b t it tail_tags_def some_tail_def live_tail_def decode_pair_body pair_is_null_def
      split: option.split)
qed

abbreviation link_tags :: "byte list option \<Rightarrow> byte list option \<Rightarrow> (block_pair \<times> bool) option \<Rightarrow> tag_entry list" where
  "link_tags ms rs link \<equiv> body_tags MoveState MOVE_STATE_BODY_SIZE (some_body MOVE_STATE_BODY_SIZE ms) @
    body_tags RelocateState RELOCATE_STATE_BODY_SIZE (some_body RELOCATE_STATE_BODY_SIZE rs) @ tail_tags (some_tail link)"

lemma build_compact_tags:
  "build_compact_commit alt src rv slots cnt op lo hi p bs ms rs link =
     rbind (commit_new (replicate (length alt) 0xFF) rv) (\<lambda>c.
     rbind (emit_compact_range (SinkCommit c) src slots cnt op lo hi) (\<lambda>sink.
     case sink of SinkCount _ \<Rightarrow> Inl Corrupt
     | SinkCommit c \<Rightarrow> rbind (commit_tags c (link_tags ms rs link)) (\<lambda>c.
         rbind (commit_finish_padded c 0 p bs) (\<lambda>c. Inr (cm_buf c, bytes_written c)))))"
  unfolding build_compact_commit_def emit_body_tags emit_tail_tags commit_tags_append rbind_assoc ..


text \<open>A block of one committed file, for the witness: the commit of \<open>sample_create\<close>.\<close>

definition dir_block :: "byte list" where
  "dir_block = [1, 0, 0, 0, 191, 239, 255, 255, 64, 0, 0, 1, 97, 32, 0, 0, 0, 120, 112, 31, 252, 5, 77, 131, 161, 52]"

abbreviation pair_on :: "reader \<Rightarrow> metadata_pair" where
  "pair_on r \<equiv> \<lparr>active_block = BlockAddress 0, alternate_block = BlockAddress 1, mp_reader = r, alternate_valid = False\<rparr>"

abbreviation dir_slot :: slot_offsets where
  "dir_slot \<equiv> \<lparr>name_off = 12, name_len = 1, name_kind = 0, struct_off = 17, struct_len = 1, struct_kind = 0\<rparr>"

lemma dir_block_reader:
  obtains r where "reader_new dir_block = Inr r"
    "tags_at (reader_iter r) = [(tent (Tag_new True Create 0 0) [], 8), (tent (Tag_new True RegularFile 0 1) [97], 12),
       (tent (Tag_new True InlineStruct 0 1) [120], 17), (tent (Tag_new True (CommitCrc 0) 0x3FF 4) [77, 131, 161, 52], 22)]"
proof -
  have "case reader_new dir_block of Inl _ \<Rightarrow> False
    | Inr r \<Rightarrow> tags_at (reader_iter r) = [(tent (Tag_new True Create 0 0) [], 8), (tent (Tag_new True RegularFile 0 1) [97], 12),
       (tent (Tag_new True InlineStruct 0 1) [120], 17), (tent (Tag_new True (CommitCrc 0) 0x3FF 4) [77, 131, 161, 52], 22)]"
    by code_simp
  then show thesis using that by (auto split: sum.splits)
qed

lemma dir_block_slots:
  assumes "tags_at (reader_iter r) = [(tent (Tag_new True Create 0 0) [], 8), (tent (Tag_new True RegularFile 0 1) [97], 12),
       (tent (Tag_new True InlineStruct 0 1) [120], 17), (tent (Tag_new True (CommitCrc 0) 0x3FF 4) [77, 131, 161, 52], 22)]"
  shows "gather_live_slots (pair_on r) = Inr ((replicate MAX_LIVE_ENTRIES slot_EMPTY)[0 := dir_slot], 1)"
  using assms
  by (simp add: gather_live_slots_def splice_step_cases shift_up.simps [of _ 0] is_name_tag_def is_struct_type_def u16_try_def
    name_kind_of_def struct_kind_of_def MAX_LIVE_ENTRIES_def slot_EMPTY_def natural_type_def)

lemma dir_block_commit:
  obtains c where "rbind (commit_new (replicate 48 0xFF) 2) (\<lambda>c.
     rbind (commit_tags c (create_tags 0 [97] KindFile InlineStruct [7])) (\<lambda>c. commit_finish_padded c 0 0 48)) = Inr c"
proof -
  have "case rbind (commit_new (replicate 48 0xFF) 2) (\<lambda>c.
     rbind (commit_tags c (create_tags 0 [97] KindFile InlineStruct [7])) (\<lambda>c. commit_finish_padded c 0 0 48)) of
     Inl _ \<Rightarrow> False | Inr _ \<Rightarrow> True" by code_simp
  then show thesis using that by (auto split: sum.splits)
qed


lemma build_compact_split:
  assumes "build_compact_commit alt src rv slots cnt op lo hi p bs ms rs link = Inr (buf, n)"
  obtains c0 c1 where "commit_new (replicate (length alt) 0xFF) rv = Inr c0"
    "emit_compact_range (SinkCommit c0) src slots cnt op lo hi = Inr (SinkCommit c1)"
    "rbind (commit_tags c1 (link_tags ms rs link)) (\<lambda>c. rbind (commit_finish_padded c 0 p bs) (\<lambda>c. Inr (cm_buf c, bytes_written c))) = Inr (buf, n)"
proof -
  obtain c0 sink where c0: "commit_new (replicate (length alt) 0xFF) rv = Inr c0"
      and em: "emit_compact_range (SinkCommit c0) src slots cnt op lo hi = Inr sink"
      and tl: "(case sink of SinkCount _ \<Rightarrow> Inl Corrupt | SinkCommit c \<Rightarrow> rbind (commit_tags c (link_tags ms rs link))
        (\<lambda>c. rbind (commit_finish_padded c 0 p bs) (\<lambda>c. Inr (cm_buf c, bytes_written c)))) = Inr (buf, n)"
    using assms unfolding build_compact_tags by auto
  show thesis using that [OF c0] em tl by (cases sink) simp_all
qed

text \<open>What a compaction leaves.\<close>

lemma compact_commit_dir:
  assumes "reader_new src = Inr r0" and "mp_reader pair = r0" and "gather_live_slots pair = Inr (slots, cnt)"
    and "build_compact_commit alt src rv slots cnt op 0 hi p bs ms rs link = Inr (buf, n)" and "cnt \<le> hi"
    and "log_dir (iter_tags r0) = Inr xs" and "op_in_range op (length xs)"
    and "op_adds_entry op \<longrightarrow> cnt < hi \<and> op_target op = Some (of_nat cnt)"
  obtains r es fs where "reader_new buf = Inr r" "revision r = rv" "committed_end r = n"
    "log_dir (iter_tags r) = Inr (apply_op op xs)" "answers r (apply_op op xs)"
    "(rd_tail r, is_hard_tail r) = live_tail link" "iter_tags r = es @ link_tags ms rs link @ fs"
    "list_all plain es" "crc_entries fs"
proof -
  let ?gs = "link_tags ms rs link"
  have rb: "rd_block r0 = src" by (rule reader_new_path [OF assms(1)]) simp
  note g = gather_live_dir [OF assms(3), unfolded assms(2) rb]
  have xs: "xs = map (source_entry src r0 slots) [0..<cnt]" using assms(6) g(1) by simp
  then have lx: "length xs = cnt" by simp
  obtain c0 c1 where c0: "commit_new (replicate (length alt) 0xFF) rv = Inr c0"
      and em: "emit_compact_range (SinkCommit c0) src slots cnt op 0 hi = Inr (SinkCommit c1)"
      and tl: "rbind (commit_tags c1 ?gs) (\<lambda>c. rbind (commit_finish_padded c 0 p bs) (\<lambda>c. Inr (cm_buf c, bytes_written c))) = Inr (buf, n)"
    by (rule build_compact_split [OF assms(4)])
  obtain c2 where c2: "rbind (commit_tags c1 ?gs) (\<lambda>c. commit_finish_padded c 0 p bs) = Inr c2"
      and out: "buf = cm_buf c2" "n = cm_offset c2"
    using tl by (auto simp: bytes_written_def)
  have rng: "[0..<min (length slots) (min hi cnt)] = [0..<cnt]" using g(2,3) assms(5) by simp
  have nw: "(if 0 \<le> cnt \<and> cnt < hi then new_tags op k else []) = new_tags op k" for k
    using assms(8) by (cases op) (simp_all add: new_tags_def)
  obtain es j where e: "range_tags src r0 slots op [0..<cnt] 0 = Inr (es, j)"
      "commit_tags c0 (es @ new_tags op j) = Inr c1"
    using em assms(1) unfolding emit_compact_range_iff rng nw by (auto simp: sink_tags_commit)
  obtain c3 where c3: "commit_tags c0 ((es @ new_tags op j) @ ?gs) = Inr c3" "commit_finish_padded c3 0 p bs = Inr c2"
    using c2 e(2) by (auto simp: commit_tags_append)
  have pl: "list_all plain (es @ new_tags op j)"
    using range_tags_plain [OF e(1) plans_ok [OF assms(7)]] new_tags_plain by simp
  then have ve: "valid_entries ((es @ new_tags op j) @ ?gs)"
    using link_tags_inert(2) [of MOVE_STATE_BODY_SIZE _ RELOCATE_STATE_BODY_SIZE]
    unfolding list_all_append by (simp add: list_all_iff plain_def)
  obtain r fs where r: "reader_new (cm_buf c2) = Inr r" "revision r = rv" "iter_tags r = ((es @ new_tags op j) @ ?gs) @ fs"
      "crc_entries fs" "committed_end r = cm_offset c2"
    using fresh_commit_reader [OF c0 c3 ve] by auto
  have sized: "length (te_body x) = body_len (te_tag x)" if "x \<in> set es \<or> x \<in> set (new_tags op j)" for x
    by (rule commit_tags_sized [OF e(2)]) (use that in auto)
  have st: "dir_steps es [] = Some ([] @ rebuilt op (source_entry src r0 slots) [0..<cnt]) \<and>
      unat j = unat (0 :: u16) + length (rebuilt op (source_entry src r0 slots) [0..<cnt])"
    by (rule range_steps [OF e(1) sized plans_ok [OF assms(7)] _ _ assms(1)]) (use g(3) in auto)
  have "rebuilt op (source_entry src r0 slots) [0..<cnt] = rebuilt op (\<lambda>i. xs ! i) [0..<cnt]"
    by (auto simp: rebuilt_def xs)
  note st = st [unfolded this]
  have "dir_steps (es @ new_tags op j) [] = Some (apply_op op xs)"
  proof (cases "op_adds_entry op")
    case False
    then have "new_tags op j = []" by (cases op) (simp_all add: new_tags_def)
    then show ?thesis using st rebuilt_apply [OF assms(7) False] lx by (simp add: dir_steps_append)
  next
    case True
    have all: "rebuilt op (\<lambda>i. xs ! i) [0..<cnt] = xs"
      using True lx by (intro rebuilt_all) (cases op; simp)+
    have j: "j = of_nat cnt" using st all lx by (metis add_0 of_nat_unat ucast_id unsigned_0)
    have nt: "new_tags op j = op_tags op" using True assms(8) j by (cases op) (auto simp: new_tags_def)
    have "dir_steps (op_tags op) xs = Some (apply_op op xs)"
      by (rule op_steps [OF assms(7)]) (use sized nt in auto)
    then show ?thesis using st all nt by (simp add: dir_steps_append)
  qed
  moreover have "list_all inert (?gs @ fs)" using link_tags_inert(1) crc_entries_inert [OF r(4)] by simp
  moreover have "iter_tags r = (es @ new_tags op j) @ (?gs @ fs)" using r(3) by simp
  ultimately have "dir_steps (iter_tags r) [] = Some (apply_op op xs)"
    by (simp only: dir_steps_append [of "es @ new_tags op j"] bind.bind_lunit dir_steps_inert)
  then have ld: "log_dir (iter_tags r) = Inr (apply_op op xs)" using log_dir_append [OF log_dir_Nil] by simp
  moreover have "(rd_tail r, is_hard_tail r) = live_tail link"
  proof -
    have "(rd_tail r, is_hard_tail r) = tail_of (iter_tags r)" by (rule reader_new_path [OF r(1)]) simp
    then show ?thesis unfolding r(3) using tail_of_rebuilt [OF pl r(4)] by simp
  qed
  ultimately show thesis using that [of r "es @ new_tags op j" fs] r out pl log_dir_answers [OF r(1) ld] by simp
qed

text \<open>The rebuilt block is as long as the build buffer, closed on the program grid and erased behind
  the returned end.\<close>

lemma compact_commit_staged:
  assumes "reader_new src = Inr r0" "build_compact_commit alt src rv slots cnt op lo hi p bs ms rs link = Inr (buf, n)"
    and "op_in_range op m"
  shows "length buf = length alt" "n \<le> length alt" "0 < n" "0 < p \<Longrightarrow> p dvd n" "erased_from buf n"
proof -
  let ?gs = "link_tags ms rs link"
  obtain c0 c1 where c0: "commit_new (replicate (length alt) 0xFF) rv = Inr c0"
      and em: "emit_compact_range (SinkCommit c0) src slots cnt op lo hi = Inr (SinkCommit c1)"
      and tl: "rbind (commit_tags c1 ?gs) (\<lambda>c. rbind (commit_finish_padded c 0 p bs) (\<lambda>c. Inr (cm_buf c, bytes_written c))) = Inr (buf, n)"
    by (rule build_compact_split [OF assms(2)])
  obtain c2 where c2: "rbind (commit_tags c1 ?gs) (\<lambda>c. commit_finish_padded c 0 p bs) = Inr c2"
      and out: "buf = cm_buf c2" "n = cm_offset c2"
    using tl by (auto simp: bytes_written_def)
  obtain es j where e: "range_tags src r0 slots op [lo..<min (length slots) (min hi cnt)] 0 = Inr (es, j)"
      "commit_tags c0 (es @ (if lo \<le> cnt \<and> cnt < hi then new_tags op j else [])) = Inr c1"
    using em assms(1) unfolding emit_compact_range_iff by (auto simp: sink_tags_commit)
  let ?es = "(es @ (if lo \<le> cnt \<and> cnt < hi then new_tags op j else [])) @ ?gs"
  obtain c3 where c3: "commit_tags c0 ?es = Inr c3" "commit_finish_padded c3 0 p bs = Inr c2"
    using c2 e(2) by (auto simp: commit_tags_append)
  have pl: "list_all plain (es @ (if lo \<le> cnt \<and> cnt < hi then new_tags op j else []))"
    using range_tags_plain [OF e(1) plans_ok [OF assms(3)]] new_tags_plain by simp
  then have ve: "valid_entries ?es"
    using link_tags_inert(2) [of MOVE_STATE_BODY_SIZE _ RELOCATE_STATE_BODY_SIZE]
    unfolding list_all_append by (simp add: list_all_iff plain_def)
  note new = tracks_new [OF c0]
  obtain s1 where s1: "tracks c3 s1 ?es" "staged c0 c3" using tracks_tags [OF _ ve c3(1)] new by fastforce
  obtain s2 fs where s2: "tracks c2 s2 (?es @ fs)" "staged c3 c2" "p dvd (if p = 0 then 0 else cm_offset c2)"
    using tracks_finish_padded [OF s1(1) _ c3(2)] by auto
  have st: "staged c0 c2" using staged_trans [OF s1(2) s2(2)] .
  have z: "cm_offset c0 = 4" "length (cm_buf c0) = length alt" using c0 new by (auto simp: commit_new_def Let_def split: if_splits)
  show "length buf = length alt" "n \<le> length alt" "0 < n" "0 < p \<Longrightarrow> p dvd n" "erased_from buf n"
    using st z s2 fresh_commit_erased [OF c0 c3 ve] out by (auto simp: staged_def tracks_def)
qed

section \<open>Properties\<close>

text \<open>C6. A compacted commit implements its operation: rebuilding the block of a readable pair from
  its gathered live slots, for an operation in range (a create at the next free id), gives a block
  that reads back under the new revision, whose lookups and attribute reads see exactly the
  directory the operation means, the same one an append of the operation produces, and that keeps
  the given tail link. The value returned is the committed end.\<close>

theorem compact_implements_op:
  assumes "reader_new src = Inr r0" and "mp_reader pair = r0" and "gather_live_slots pair = Inr (slots, cnt)"
    and "build_compact_commit alt src rv slots cnt op 0 hi p bs ms rs link = Inr (buf, n)" and "cnt < hi"
    and "log_dir (iter_tags r0) = Inr xs" and "op_in_range op (length xs)"
    and "op_adds_entry op \<longrightarrow> op_target op = Some (of_nat cnt)"
  shows "\<exists>r. reader_new buf = Inr r \<and> revision r = rv \<and> committed_end r = n \<and>
    log_dir (iter_tags r) = Inr (apply_op op xs) \<and> answers r (apply_op op xs) \<and>
    (rd_tail r, is_hard_tail r) = live_tail link"
  by (rule compact_commit_dir [OF assms(1-4) less_imp_le [OF assms(5)] assms(6,7)]) (use assms(5,8) in blast)+

theorem compact_implements_op_witness:
  "\<exists>r0 slots buf n r. reader_new dir_block = Inr r0 \<and> gather_live_slots (pair_on r0) = Inr (slots, 1) \<and>
     build_compact_commit (replicate 48 0) dir_block 2 slots 1 (OpUpdate 0 [7]) 0 2 0 48 None None None = Inr (buf, n) \<and>
     reader_new buf = Inr r \<and> (\<exists>x. lookup_checked (pair_on r) [97] = Inr (Some x) \<and> struct_body x = [7])"
proof -
  let ?op = "OpUpdate 0 [7]" and ?xs = "[sample_entry1]"
  obtain r0 where r0: "reader_new dir_block = Inr r0"
    "tags_at (reader_iter r0) = [(tent (Tag_new True Create 0 0) [], 8), (tent (Tag_new True RegularFile 0 1) [97], 12),
       (tent (Tag_new True InlineStruct 0 1) [120], 17), (tent (Tag_new True (CommitCrc 0) 0x3FF 4) [77, 131, 161, 52], 22)]"
    by (rule dir_block_reader)
  define slots where "slots = (replicate MAX_LIVE_ENTRIES slot_EMPTY)[0 := dir_slot]"
  note g = dir_block_slots [OF r0(2), folded slots_def]
  have sl: "slots ! 0 = dir_slot" "length slots = 256" by (simp_all add: slots_def MAX_LIVE_ENTRIES_def)
  have it: "iter_tags r0 = sample_create @ [tent (Tag_new True (CommitCrc 0) 0x3FF 4) [77, 131, 161, 52]]"
    using tags_at_from [of "reader_iter r0", symmetric] r0(2) by (simp add: iter_tags_def create_tags_def)
  have ld: "log_dir (iter_tags r0) = Inr ?xs"
    unfolding it by (rule sample_log_dir) (simp add: is_ccrc_def natural_type_def)
  have "iter_tags_rev r0 = rev (iter_tags r0)" by (rule reader_new_path [OF r0(1)]) simp
  then have at: "live_attrs r0 0 = []" by (simp add: it create_tags_def natural_type_def)
  have rt: "range_tags dir_block r0 slots ?op [0] 0 = Inr (create_tags 0 [97] KindFile InlineStruct [7], 1)"
    using at by (simp add: slot_tags_def sl plan_NONE_def name_type_of_def struct_type_of_def extra_tags_def append_tags_def
      attr_tags_def create_tags_def dir_block_def slice_def)
  obtain c where c: "rbind (commit_new (replicate 48 0xFF) 2) (\<lambda>c.
     rbind (commit_tags c (create_tags 0 [97] KindFile InlineStruct [7])) (\<lambda>c. commit_finish_padded c 0 0 48)) = Inr c"
    by (rule dir_block_commit)
  then obtain c0 c1 where cs: "commit_new (replicate 48 0xFF) 2 = Inr c0"
      "commit_tags c0 (create_tags 0 [97] KindFile InlineStruct [7]) = Inr c1" "commit_finish_padded c1 0 0 48 = Inr c"
    by auto
  have "emit_compact_range (SinkCommit c0) dir_block slots 1 ?op 0 2 = Inr (SinkCommit c1)"
    unfolding emit_compact_range_iff using r0(1) rt sl(2) cs(2) by (auto simp: sink_tags_commit new_tags_def)
  then have b: "build_compact_commit (replicate 48 0) dir_block 2 slots 1 ?op 0 2 0 48 None None None = Inr (cm_buf c, bytes_written c)"
    unfolding build_compact_tags using cs by (simp add: body_tags_def tail_tags_def some_body_def some_tail_def)
  have "\<exists>r. reader_new (cm_buf c) = Inr r \<and> answers r (apply_op ?op ?xs)"
    using compact_implements_op [OF r0(1) _ g b _ ld] by (auto simp: op_in_range_def MAX_LIVE_ENTRIES_def)
  then obtain r where r: "reader_new (cm_buf c) = Inr r" "answers r (apply_op ?op ?xs)" by blast
  then have "\<exists>x. lookup_checked (pair_on r) [97] = Inr (Some x) \<and> struct_body x = [7]"
    by (auto simp: answers_def modify_def with_struct_def new_entry_def)
  then show ?thesis using r0(1) g b r(1) by blast
qed

end
