(* ===== verification/Walks.thy ===== *)
theory Walks
  imports Compact Alloc_Safety Paths
begin

text \<open>
  Reading directories (\<open>src/src/fs.rs\<close>): the one fetch primitive for metadata pairs, the cycle safe
  walk over a directory's \<open>HardTail\<close> chain (\<open>BrentTailWalk\<close>), and the operations that use it:
  listing, searching a chain, resolving a path and the read only file queries.

  The four chain loops have the same shape, a fetch of the current pair and then either an answer or
  a step to its tail; \<open>chase\<close> is that loop, as a partial function, so that a walk that never
  returned would be \<open>None\<close>. It is shown that none does: on any device contents the walk ends, a
  cyclic chain with \<open>Corrupt\<close>; and that a chain without a cycle is never rejected.
\<close>

section \<open>The tail walk\<close>

record brent =
  br_saved :: block_pair
  br_power :: u32
  br_steps :: u32

definition brent_new :: "block_pair \<Rightarrow> brent" where
  "brent_new start = \<lparr>br_saved = start, br_power = 1, br_steps = 0\<rparr>"

definition saturating_double :: "u32 \<Rightarrow> u32" where
  "saturating_double x = (if unat x * 2 < 4294967296 then x * 2 else 0xFFFFFFFF)"

definition brent_advance :: "brent \<Rightarrow> block_pair \<Rightarrow> brent result" where
  "brent_advance w nxt =
     (if nxt = br_saved w then Inl Corrupt
      else let steps = br_steps w + 1
           in if steps = br_power w
              then Inr \<lparr>br_saved = nxt, br_power = saturating_double (br_power w), br_steps = 0\<rparr>
              else Inr (w\<lparr>br_steps := steps\<rparr>))"

text \<open>The loop shared by the chain walkers: a visit of the current pair answers, or names the tail to
  follow.\<close>

datatype ('r, 'a) visit = Done 'r | Follow block_pair 'a

partial_function (option) chase ::
  "(block_pair \<Rightarrow> 'a \<Rightarrow> ('t, ('r, 'a) visit) io) \<Rightarrow> brent \<Rightarrow> block_pair \<Rightarrow> 'a \<Rightarrow> 't \<Rightarrow> ('t \<times> 'r result) option" where
  "chase vis w current acc st =
     (case vis current acc st of
        (st', Inl e) \<Rightarrow> Some (st', Inl e)
      | (st', Inr (Done r)) \<Rightarrow> Some (st', Inr r)
      | (st', Inr (Follow nxt acc')) \<Rightarrow>
          (case brent_advance w nxt of
             Inl e \<Rightarrow> Some (st', Inl e)
           | Inr w' \<Rightarrow> chase vis w' nxt acc' st'))"

section \<open>Computations that may not return\<close>

definition obind ::
  "('s \<Rightarrow> ('s \<times> 'a result) option) \<Rightarrow> ('a \<Rightarrow> 's \<Rightarrow> ('s \<times> 'b result) option) \<Rightarrow> 's \<Rightarrow> ('s \<times> 'b result) option" where
  "obind m f = (\<lambda>st. case m st of None \<Rightarrow> None
     | Some (st', Inl e) \<Rightarrow> Some (st', Inl e) | Some (st', Inr x) \<Rightarrow> f x st')"

definition olift :: "('s, 'a) io \<Rightarrow> 's \<Rightarrow> ('s \<times> 'a result) option" where
  "olift m = (\<lambda>st. Some (m st))"


section \<open>Fetching a pair\<close>

type_synonym bufs = "byte list \<times> byte list"

definition read_pair_blocks :: "'s storage \<Rightarrow> block_pair \<Rightarrow> bufs \<Rightarrow> ('s, bufs) io" where
  "read_pair_blocks S p bufs =
     (if \<not> pair_in_bounds S p then io_fail Corrupt
      else io_bind (dev_read S (as_u32 (bp_a p)) 0 (fst bufs)) (\<lambda>buf_a.
           io_bind (dev_read S (as_u32 (bp_b p)) 0 (snd bufs)) (\<lambda>buf_b. io_return (buf_a, buf_b))))"

text \<open>The fetch and the parse that follows it at every site.\<close>

definition fetch_pair :: "'s storage \<Rightarrow> block_pair \<Rightarrow> bufs \<Rightarrow> ('s, bufs \<times> metadata_pair) io" where
  "fetch_pair S p bufs =
     io_bind (read_pair_blocks S p bufs) (\<lambda>bufs.
     io_bind (io_lift (pair_parse (bp_a p) (fst bufs) (bp_b p) (snd bufs))) (\<lambda>pair. io_return (bufs, pair)))"

definition bufs_ok :: "'s storage \<Rightarrow> bufs \<Rightarrow> bool" where
  "bufs_ok S bufs \<longleftrightarrow> length (fst bufs) = BLOCK_SIZE S \<and> length (snd bufs) = BLOCK_SIZE S"

definition read_pair :: "'s storage \<Rightarrow> block_pair \<Rightarrow> bufs \<Rightarrow> ('s, metadata_pair) io" where
  "read_pair S p bufs =
     (if \<not> bufs_ok S bufs then io_fail GeometryMismatch
      else io_bind (fetch_pair S p bufs) (\<lambda>(_, pair). io_return pair))"

text \<open>\<open>if pair.reader.is_hard_tail() { pair.reader.tail() } else { None }\<close>.\<close>

definition hard_next :: "reader \<Rightarrow> block_pair option" where
  "hard_next r = (if is_hard_tail r then rd_tail r else None)"


section \<open>The chain walkers\<close>

text \<open>Listing: the state holds the caller's state and the count of entries handed to the callback.\<close>

definition on_device :: "('s, 'a) io \<Rightarrow> ('s \<times> 'c, 'a) io" where
  "on_device m = (\<lambda>(s, c). case m s of (s', r) \<Rightarrow> ((s', c), r))"

definition on_caller :: "('c, 'a) io \<Rightarrow> ('s \<times> 'c, 'a) io" where
  "on_caller m = (\<lambda>(s, c). case m c of (c', r) \<Rightarrow> ((s, c'), r))"

definition list_visit ::
  "'s storage \<Rightarrow> (dir_entry \<Rightarrow> 'c \<Rightarrow> 'c) \<Rightarrow> block_pair \<Rightarrow> bufs \<Rightarrow> ('s \<times> 'c \<times> nat, (unit, bufs) visit) io" where
  "list_visit S f current bufs =
     io_bind (on_device (fetch_pair S current bufs)) (\<lambda>(bufs, pair).
       let nxt = hard_next (mp_reader pair)
       in io_bind (on_caller (live_entries pair (\<lambda>e (c, emitted). ((f e c, emitted + 1), Inr ())))) (\<lambda>_.
          io_return (case nxt of Some p \<Rightarrow> Follow p bufs | None \<Rightarrow> Done ())))"

definition list_pair_chain ::
  "'s storage \<Rightarrow> (dir_entry \<Rightarrow> 'c \<Rightarrow> 'c) \<Rightarrow> block_pair \<Rightarrow> bufs \<Rightarrow> 's \<times> 'c \<Rightarrow> (('s \<times> 'c) \<times> nat result) option" where
  "list_pair_chain S f start bufs = (\<lambda>(s, c).
     map_option (\<lambda>((s', c', emitted), r). ((s', c'), case r of Inl e \<Rightarrow> Inl e | Inr _ \<Rightarrow> Inr emitted))
       (chase (list_visit S f) (brent_new start) start bufs (s, c, 0)))"

datatype chain_seek = Found block_pair u16 entry_kind | Absent block_pair nat

definition seek_visit :: "'s storage \<Rightarrow> byte list \<Rightarrow> block_pair \<Rightarrow> bufs \<Rightarrow> ('s, (bufs \<times> chain_seek, bufs) visit) io" where
  "seek_visit S nm current bufs =
     io_bind (fetch_pair S current bufs) (\<lambda>(bufs, pair).
     io_bind (io_lift (lookup_checked pair nm)) (\<lambda>hit.
     io_bind (io_lift (gather_live_slots pair)) (\<lambda>(_, cnt).
     io_return
       (case hit of
          Some r \<Rightarrow> Done (bufs, Found current (de_id (rs_entry r)) (de_kind (rs_entry r)))
        | None \<Rightarrow>
            (case hard_next (mp_reader pair) of
               Some t \<Rightarrow> Follow t bufs
             | None \<Rightarrow> Done (bufs, Absent current cnt))))))"

definition seek_entry_in_chain ::
  "'s storage \<Rightarrow> block_pair \<Rightarrow> byte list \<Rightarrow> bufs \<Rightarrow> 's \<Rightarrow> ('s \<times> (bufs \<times> chain_seek) result) option" where
  "seek_entry_in_chain S first nm bufs = chase (seek_visit S nm) (brent_new first) first bufs"

text \<open>The pair a \<open>DirStruct\<close> entry points at.\<close>

definition dir_target :: "resolved \<Rightarrow> block_pair result" where
  "dir_target r =
     (if de_kind (rs_entry r) \<noteq> KindDirectory then Inl NotFound
      else if struct_type r \<noteq> DirStruct \<or> length (struct_body r) \<noteq> 8 then Inl Corrupt
      else Inr (decode_pair (struct_body r) 0))"

definition find_dir_visit :: "'s storage \<Rightarrow> byte list \<Rightarrow> block_pair \<Rightarrow> bufs \<Rightarrow> ('s, (bufs \<times> block_pair, bufs) visit) io" where
  "find_dir_visit S nm current bufs =
     io_bind (fetch_pair S current bufs) (\<lambda>(bufs, pair).
     io_bind (io_lift (lookup_checked pair nm)) (\<lambda>hit.
     case hit of
       Some r \<Rightarrow> io_bind (io_lift (dir_target r)) (\<lambda>p. io_return (Done (bufs, p)))
     | None \<Rightarrow>
         (case hard_next (mp_reader pair) of
            Some t \<Rightarrow> io_return (Follow t bufs)
          | None \<Rightarrow> io_fail NotFound)))"

definition find_dir_pair ::
  "'s storage \<Rightarrow> block_pair \<Rightarrow> byte list \<Rightarrow> bufs \<Rightarrow> 's \<Rightarrow> ('s \<times> (bufs \<times> block_pair) result) option" where
  "find_dir_pair S dir_pair nm bufs = chase (find_dir_visit S nm) (brent_new dir_pair) dir_pair bufs"


section \<open>Paths\<close>

text \<open>The descent through the components before the last: the pair of the directory that holds the
  leaf, and the leaf's name.\<close>

fun descend ::
  "'s storage \<Rightarrow> block_pair \<Rightarrow> byte list list \<Rightarrow> bufs \<Rightarrow> 's \<Rightarrow> ('s \<times> (bufs \<times> block_pair \<times> byte list) result) option" where
  "descend S current [] bufs = olift (io_fail InvalidPath)"
| "descend S current [nm] bufs = olift (io_return (bufs, current, nm))"
| "descend S current (nm # nms) bufs =
     obind (find_dir_pair S current nm bufs) (\<lambda>(bufs, p). descend S p nms bufs)"

definition resolve_parent ::
  "'s storage \<Rightarrow> block_pair \<Rightarrow> byte list \<Rightarrow> bufs \<Rightarrow> 's \<Rightarrow> ('s \<times> (bufs \<times> block_pair \<times> byte list) result) option" where
  "resolve_parent S root path bufs =
     (if \<not> bufs_ok S bufs then olift (io_fail GeometryMismatch)
      else if is_root path then olift (io_fail InvalidPath)
      else descend S root (components path) bufs)"

record resolved_path =
  rp_pair :: block_pair
  rp_resolved :: resolved

text \<open>The second parse and lookup of a hit repeat the first on the same buffers. A pair whose
  \<open>is_hard_tail\<close> holds has a tail (\<open>hard_tail_some\<close>), so the \<open>expect\<close> on the second lookup is only
  reached with a hit.\<close>

definition resolve_visit :: "'s storage \<Rightarrow> byte list \<Rightarrow> block_pair \<Rightarrow> bufs \<Rightarrow> ('s, (bufs \<times> resolved_path, bufs) visit) io" where
  "resolve_visit S leaf current bufs =
     io_bind (fetch_pair S current bufs) (\<lambda>(bufs, pair).
     io_bind (io_lift (lookup_checked pair leaf)) (\<lambda>hit.
     case hit of
       Some r \<Rightarrow> io_return (Done (bufs, \<lparr>rp_pair = pair_new (active_block pair) (alternate_block pair), rp_resolved = r\<rparr>))
     | None \<Rightarrow>
         (case hard_next (mp_reader pair) of
            Some t \<Rightarrow> io_return (Follow t bufs)
          | None \<Rightarrow> io_fail NotFound)))"

definition resolve ::
  "'s storage \<Rightarrow> block_pair \<Rightarrow> byte list \<Rightarrow> bufs \<Rightarrow> 's \<Rightarrow> ('s \<times> (bufs \<times> resolved_path) result) option" where
  "resolve S root path bufs =
     (if \<not> bufs_ok S bufs then olift (io_fail GeometryMismatch)
      else if is_root path then olift (io_fail InvalidPath)
      else obind (descend S root (components path) bufs) (\<lambda>(bufs, current, leaf).
           chase (resolve_visit S leaf) (brent_new current) current bufs))"

section \<open>The walk ends\<close>

fun brent_run :: "(nat \<Rightarrow> block_pair) \<Rightarrow> nat \<Rightarrow> brent result" where
  "brent_run x 0 = Inr (brent_new (x 0))"
| "brent_run x (Suc n) = rbind (brent_run x n) (\<lambda>w. brent_advance w (x (Suc n)))"

lemma brent_run_Corrupt: "brent_run x n = Inl e \<Longrightarrow> e = Corrupt"
  by (induction n) (auto simp: rbind_Inl_iff brent_advance_def Let_def split: if_splits)

lemma brent_run_prefix: "brent_run x n = Inr w \<Longrightarrow> m \<le> n \<Longrightarrow> \<exists>w'. brent_run x m = Inr w'"
  by (induction n arbitrary: w) (auto simp: le_Suc_eq)

text \<open>As long as no teleport has met the moving pointer, the stride after \<open>2^j - 1\<close> steps is \<open>2^j\<close>.\<close>

lemma brent_run_state:
  "brent_run x n = Inr w \<Longrightarrow> n = 2 ^ j - 1 + k \<Longrightarrow> k < 2 ^ j \<Longrightarrow> j \<le> 31 \<Longrightarrow>
   w = \<lparr>br_saved = x (2 ^ j - 1), br_power = 2 ^ j, br_steps = of_nat k\<rparr>"
proof (induction n arbitrary: w j k)
  case 0
  have z: "2 ^ j - 1 = (0 :: nat)" "k = 0" using 0(2) by linarith+
  then have "(2 :: nat) ^ j = 1" using one_le_power [of "2 :: nat" j] by linarith
  then have "j = 0" by simp
  then show ?case using 0(1) z(2) by (simp add: brent_new_def)
next
  case (Suc n)
  obtain w0 where w0: "brent_run x n = Inr w0" "brent_advance w0 (x (Suc n)) = Inr w" using Suc.prems(1) by auto
  have pow: "unat (2 ^ i :: u32) = 2 ^ i" if "i \<le> 31" for i
  proof -
    have "(2 :: nat) ^ i < 4294967296" using power_strict_increasing [of i 32 "2 :: nat"] that by simp
    from unat_small_of_nat [OF this] show ?thesis by simp
  qed
  show ?case
  proof (cases k)
    case (Suc k')
    have n: "n = 2 ^ j - 1 + k'" "k' < 2 ^ j" using Suc.prems(2,3) Suc by simp_all
    note s = Suc.IH [OF w0(1) n Suc.prems(4)]
    have k31: "k < 2 ^ 31" by (rule less_le_trans [OF Suc.prems(3)]) (rule power_increasing [OF Suc.prems(4)], simp)
    have "of_nat k' + 1 \<noteq> (2 ^ j :: u32)"
    proof
      assume "of_nat k' + 1 = (2 ^ j :: u32)"
      then have "unat (of_nat k :: u32) = unat (2 ^ j :: u32)" using Suc by (simp add: add.commute)
      then show False using pow [OF Suc.prems(4)] k31 Suc.prems(3) by (simp add: unat_of_nat)
    qed
    then show ?thesis using w0(2) s Suc by (auto simp: brent_advance_def Let_def add.commute split: if_splits)
  next
    case 0
    then obtain i where j: "j = Suc i" using Suc.prems(2) by (cases j) auto
    have n: "n = 2 ^ i - 1 + (2 ^ i - 1)" "2 ^ i - 1 < (2 ^ i :: nat)" "i \<le> 31"
      using Suc.prems(2,4) 0 j by simp_all
    note s = Suc.IH [OF w0(1) n]
    have "of_nat (2 ^ i - 1) + 1 = (2 ^ i :: u32)" by (simp add: of_nat_diff)
    moreover have "saturating_double (2 ^ i) = 2 ^ j"
    proof -
      have "2 ^ i * 2 < (4294967296 :: nat)" using Suc.prems(4) j power_increasing [of i 30 "2 :: nat"] by simp
      then show ?thesis using pow [of i] n(3) j by (simp add: saturating_double_def mult.commute)
    qed
    moreover have "Suc n = 2 ^ j - 1" using Suc.prems(2) 0 by simp
    ultimately show ?thesis using w0(2) s 0 by (auto simp: brent_advance_def Let_def split: if_splits)
  qed
qed

text \<open>A sequence that revisits one of its first \<open>N\<close> nodes is stopped within \<open>3 N\<close> steps.\<close>

lemma brent_detects:
  assumes "i < i'" "i' \<le> N" "\<And>m. i \<le> m \<Longrightarrow> x (m + (i' - i)) = x m" "N \<le> 2 ^ 31"
  shows "\<exists>n \<le> 3 * N. brent_run x n = Inl Corrupt"
proof -
  define l where "l = i' - i"
  define j where "j = (LEAST j. N \<le> 2 ^ j)"
  have j31: "j \<le> 31" unfolding j_def by (rule Least_le) (rule assms(4))
  have Nj: "N \<le> 2 ^ j" unfolding j_def by (rule LeastI [of _ 31]) (rule assms(4))
  have jN: "2 ^ j \<le> 2 * N"
  proof (cases j)
    case 0 then show ?thesis using assms(1,2) by simp
  next
    case (Suc k)
    then have "\<not> N \<le> 2 ^ k" using not_less_Least [of k "\<lambda>j. N \<le> 2 ^ j"] unfolding j_def by simp
    then show ?thesis using Suc by simp
  qed
  have l: "0 < l" "l \<le> N" "l \<le> 2 ^ j" using assms(1,2) Nj by (simp_all add: l_def)
  let ?s = "2 ^ j - 1" and ?n = "2 ^ j - 1 + (l - 1)"
  have n: "Suc ?n = ?s + l" "Suc ?n \<le> 3 * N" using l jN by simp_all
  have "i \<le> ?s" using assms(1,2) Nj by simp
  then have same: "x (?s + l) = x ?s" using assms(3) [of ?s] by (simp add: l_def)
  show ?thesis
  proof (cases "brent_run x ?n")
    case (Inl e)
    then show ?thesis using brent_run_Corrupt [OF Inl] n by (intro exI [of _ ?n]) simp
  next
    case (Inr w)
    have "w = \<lparr>br_saved = x ?s, br_power = 2 ^ j, br_steps = of_nat (l - 1)\<rparr>"
      by (rule brent_run_state [OF Inr refl _ j31]) (use l in simp)
    then have "brent_advance w (x (?s + l)) = Inl Corrupt" by (simp only: same brent_advance_def brent.simps if_True refl)
    moreover have "brent_run x (Suc ?n) = brent_advance w (x (Suc ?n))" by (simp only: brent_run.simps Inr rbind.simps)
    ultimately have "brent_run x (Suc ?n) = Inl Corrupt" unfolding n(1) by simp
    then show ?thesis using n(2) by blast
  qed
qed

text \<open>A sequence without repetition is never stopped.\<close>

lemma brent_accepts:
  "inj_on x {..n} \<Longrightarrow> \<exists>w. brent_run x n = Inr w \<and> br_saved w \<in> x ` {..n}"
proof (induction n)
  case (Suc n)
  have "inj_on x {..n}" by (rule inj_on_subset [OF Suc.prems]) auto
  from Suc.IH [OF this] obtain w where w: "brent_run x n = Inr w" "br_saved w \<in> x ` {..n}" by blast
  have "x (Suc n) \<notin> x ` {..n}"
  proof
    assume "x (Suc n) \<in> x ` {..n}"
    then obtain m where "m \<le> n" "x (Suc n) = x m" by blast
    then show False using inj_onD [OF Suc.prems, of "Suc n" m] by simp
  qed
  then have "x (Suc n) \<noteq> br_saved w" using w(2) by auto
  then show ?case using w by (auto simp: brent_advance_def Let_def)
qed (simp add: brent_new_def)

text \<open>A walk over nodes of a finite set, each with one successor, returns.\<close>

lemma walk_pigeonhole:
  fixes f :: "'v \<Rightarrow> 'v"
  assumes "finite V" "\<And>n. (f ^^ n) a \<in> V"
  obtains i i' where "i < i'" "i' \<le> card V" "\<And>m. i \<le> m \<Longrightarrow> (f ^^ (m + (i' - i))) a = (f ^^ m) a"
proof -
  have "\<not> inj_on (\<lambda>n. (f ^^ n) a) {..card V}"
  proof
    assume "inj_on (\<lambda>n. (f ^^ n) a) {..card V}"
    then have "card {..card V} \<le> card V" by (rule card_inj_on_le) (use assms in auto)
    then show False by simp
  qed
  then obtain p0 q0 where pq0: "p0 \<noteq> q0" "p0 \<le> card V" "q0 \<le> card V" "(f ^^ p0) a = (f ^^ q0) a"
    unfolding inj_on_def by blast
  define p q where "p = min p0 q0" and "q = max p0 q0"
  have pq: "p < q" "q \<le> card V" "(f ^^ p) a = (f ^^ q) a"
    using pq0 by (auto simp: p_def q_def min_def max_def)
  have same: "(f ^^ (k + q)) a = (f ^^ (k + p)) a" for k by (simp only: funpow_add comp_apply pq(3))
  have "(f ^^ (m + (q - p))) a = (f ^^ m) a" if "p \<le> m" for m
  proof -
    have "m + (q - p) = (m - p) + q" "(m - p) + p = m" using that pq(1) by simp_all
    then show ?thesis using same [of "m - p"] by simp
  qed
  with pq(1,2) show thesis by (rule that)
qed

locale walk_graph =
  fixes vis :: "block_pair \<Rightarrow> 'a \<Rightarrow> ('t, ('r, 'a) visit) io" and I :: "'t \<Rightarrow> bool" and A :: "'a \<Rightarrow> bool"
    and Q :: "'r \<Rightarrow> bool" and V :: "block_pair set" and nx :: "block_pair \<Rightarrow> block_pair" and start :: block_pair
  assumes finite_V: "finite V" "card V \<le> 2 ^ 31"
    and closed_V: "start \<in> V" "p \<in> V \<Longrightarrow> nx p \<in> V"
    and keeps: "I st \<Longrightarrow> A acc \<Longrightarrow> vis p acc st = (st', r) \<Longrightarrow>
      I st' \<and> (\<forall>q acc'. r = Inr (Follow q acc') \<longrightarrow> q = nx p \<and> A acc') \<and> (\<forall>x. r = Inr (Done x) \<longrightarrow> Q x)"
begin

lemma orbit_in_V: "(nx ^^ n) start \<in> V"
  by (induction n) (simp_all add: closed_V)

lemma chase_keeps:
  assumes "chase vis w current acc st = Some R" "I st" "A acc"
  shows "I (fst R)" "snd R = Inr x \<Longrightarrow> Q x"
proof -
  have "vis = vis \<longrightarrow> I st \<longrightarrow> A acc \<longrightarrow> I (fst R) \<and> (\<forall>x. snd R = Inr x \<longrightarrow> Q x)"
  proof (rule chase.raw_induct [where P = "\<lambda>v w current acc st R. v = vis \<longrightarrow> I st \<longrightarrow> A acc \<longrightarrow>
      I (fst R) \<and> (\<forall>x. snd R = Inr x \<longrightarrow> Q x)", OF _ assms(1)], intro impI)
    fix go v w current acc st R
    assume IH: "\<And>v w current acc st R. go v w current acc st = Some R \<Longrightarrow> v = vis \<longrightarrow>
        I st \<longrightarrow> A acc \<longrightarrow> I (fst R) \<and> (\<forall>x. snd R = Inr x \<longrightarrow> Q x)"
      and run: "(case v current acc st of (st', Inl e) \<Rightarrow> Some (st', Inl e) | (st', Inr (Done r)) \<Rightarrow> Some (st', Inr r)
        | (st', Inr (Follow nxt acc')) \<Rightarrow> (case brent_advance w nxt of Inl e \<Rightarrow> Some (st', Inl e)
             | Inr w' \<Rightarrow> go v w' nxt acc' st')) = Some R"
      and v: "v = vis" and IA: "I st" "A acc"
    obtain s r where vs: "vis current acc st = (s, r)" by fastforce
    show "I (fst R) \<and> (\<forall>x. snd R = Inr x \<longrightarrow> Q x)"
    proof (cases "\<exists>q acc' w'. r = Inr (Follow q acc') \<and> brent_advance w q = Inr w'")
      case True
      then obtain q acc' w' where q: "r = Inr (Follow q acc')" "brent_advance w q = Inr w'" by blast
      then have "go vis w' q acc' s = Some R" using run v vs by simp
      from IH [OF this] keeps [OF IA vs] q(1) show ?thesis by simp
    next
      case False
      then show ?thesis using keeps [OF IA vs] run v vs by (auto split: sum.splits visit.splits)
    qed
  qed
  with assms(2,3) show "I (fst R)" "snd R = Inr x \<Longrightarrow> Q x" by blast+
qed

lemma chase_returns:
  assumes "I st" "A acc"
  shows "chase vis (brent_new start) start acc st \<noteq> None"
proof
  assume none: "chase vis (brent_new start) start acc st = None"
  let ?x = "\<lambda>n. (nx ^^ n) start"
  have step: "\<exists>w acc st. brent_run ?x n = Inr w \<and> I st \<and> A acc \<and> chase vis w (?x n) acc st = None" for n
  proof (induction n)
    case 0 then show ?case using none assms by auto
  next
    case (Suc n)
    then obtain w acc st where s: "brent_run ?x n = Inr w" "I st" "A acc" "chase vis w (?x n) acc st = None" by blast
    obtain st' r where r: "vis (?x n) acc st = (st', r)" by fastforce
    note k = keeps [OF s(2,3) r]
    obtain q acc' where q: "r = Inr (Follow q acc')"
      using s(4) r by (subst (asm) chase.simps) (auto split: sum.splits visit.splits)
    then have nq: "q = ?x (Suc n)" "A acc'" using k by simp_all
    obtain w' where w': "brent_advance w q = Inr w'" "chase vis w' q acc' st' = None"
      using s(4) r q by (subst (asm) chase.simps) (auto split: sum.splits)
    then show ?case using s(1) nq k by (auto intro!: exI [of _ w'])
  qed
  obtain i i' where p: "i < i'" "i' \<le> card V" "\<And>m. i \<le> m \<Longrightarrow> ?x (m + (i' - i)) = ?x m"
    using walk_pigeonhole [where f = nx and a = start, OF finite_V(1) orbit_in_V] by blast
  obtain n where "brent_run ?x n = Inl Corrupt"
    using brent_detects [where x = ?x, OF p(1,2) _ finite_V(2)] p(3) by blast
  then show False using step [of n] by auto
qed

lemma chase_outcome:
  assumes "I st" "A acc"
  shows "\<exists>st' r. chase vis (brent_new start) start acc st = Some (st', r) \<and> I st' \<and> (\<forall>x. r = Inr x \<longrightarrow> Q x)"
proof -
  obtain R where R: "chase vis (brent_new start) start acc st = Some R" using chase_returns [OF assms] by blast
  note k = chase_keeps [OF R assms]
  show ?thesis using R k by (intro exI [of _ "fst R"] exI [of _ "snd R"]) auto
qed

end

text \<open>The reference loop: the same visits along a given list of pairs, without the cycle check.\<close>

fun walk_along ::
  "(block_pair \<Rightarrow> 'a \<Rightarrow> ('t, ('r, 'a) visit) io) \<Rightarrow> block_pair list \<Rightarrow> 'a \<Rightarrow> 't \<Rightarrow> ('t \<times> 'r result) option" where
  "walk_along vis [] acc st = None"
| "walk_along vis (p # ps) acc st =
     (case vis p acc st of
        (st', Inl e) \<Rightarrow> Some (st', Inl e)
      | (st', Inr (Done r)) \<Rightarrow> Some (st', Inr r)
      | (st', Inr (Follow q acc')) \<Rightarrow> walk_along vis ps acc' st')"

context walk_graph
begin

lemma chase_cyclic:
  assumes "I st" "A acc"
    and go: "\<And>n acc st. I st \<Longrightarrow> A acc \<Longrightarrow> \<exists>s q acc'. vis ((nx ^^ n) start) acc st = (s, Inr (Follow q acc'))"
  shows "\<exists>st'. chase vis (brent_new start) start acc st = Some (st', Inl Corrupt) \<and> I st'"
proof -
  let ?x = "\<lambda>n. (nx ^^ n) start"
  have follow: "\<exists>s acc'. vis (?x n) acc st = (s, Inr (Follow (?x (Suc n)) acc')) \<and> I s \<and> A acc'"
    if IA: "I st" "A acc" for n acc st
  proof -
    obtain s q acc' where v: "vis (?x n) acc st = (s, Inr (Follow q acc'))" using go [OF IA, of n] by blast
    from keeps [OF IA v] show ?thesis using v by auto
  qed
  have step: "\<exists>a s. chase vis (brent_new start) start acc st = chase vis w (?x n) a s \<and> I s \<and> A a"
    if "brent_run ?x n = Inr w" for n w
    using that
  proof (induction n arbitrary: w)
    case 0 then show ?case using assms(1,2) by auto
  next
    case (Suc n)
    then obtain w0 where w0: "brent_run ?x n = Inr w0" "brent_advance w0 (?x (Suc n)) = Inr w" by auto
    from Suc.IH [OF w0(1)] obtain a s where s: "chase vis (brent_new start) start acc st = chase vis w0 (?x n) a s" "I s" "A a"
      by blast
    obtain s' a' where v: "vis (?x n) a s = (s', Inr (Follow (?x (Suc n)) a'))" "I s'" "A a'" using follow [OF s(2,3)] by blast
    have "chase vis w0 (?x n) a s = chase vis w (?x (Suc n)) a' s'"
      by (subst chase.simps) (simp only: v(1) w0(2) prod.case sum.case visit.case)
    then show ?case using s(1) v by auto
  qed
  obtain i i' where p: "i < i'" "i' \<le> card V" "\<And>m. i \<le> m \<Longrightarrow> ?x (m + (i' - i)) = ?x m"
    using walk_pigeonhole [where f = nx and a = start, OF finite_V(1) orbit_in_V] by blast
  obtain n where n: "brent_run ?x n = Inl Corrupt"
    using brent_detects [where x = ?x, OF p(1,2) _ finite_V(2)] p(3) by blast
  define m where "m = (LEAST m. \<exists>e. brent_run ?x m = Inl e)"
  have m: "\<exists>e. brent_run ?x m = Inl e" unfolding m_def by (rule LeastI [of _ n]) (use n in blast)
  then obtain m0 where m0: "m = Suc m0" by (cases m) auto
  have "\<not> (\<exists>e. brent_run ?x m0 = Inl e)" using not_less_Least [of m0 "\<lambda>m. \<exists>e. brent_run ?x m = Inl e"] m0 unfolding m_def by simp
  then obtain w where w: "brent_run ?x m0 = Inr w" by (cases "brent_run ?x m0") auto
  have bad: "brent_advance w (?x (Suc m0)) = Inl Corrupt"
    using m brent_run_Corrupt w unfolding m0 by fastforce
  obtain a s where s: "chase vis (brent_new start) start acc st = chase vis w (?x m0) a s" "I s" "A a"
    using step [OF w] by blast
  obtain s' a' where v: "vis (?x m0) a s = (s', Inr (Follow (?x (Suc m0)) a'))" "I s'" "A a'" using follow [OF s(2,3)] by blast
  have "chase vis w (?x m0) a s = Some (s', Inl Corrupt)"
    by (subst chase.simps) (simp only: v(1) bad prod.case sum.case visit.case)
  then show ?thesis using s(1) v(2) by auto
qed

lemma chase_is_walk:
  assumes "distinct ps" "\<And>n. Suc n < length ps \<Longrightarrow> ps ! Suc n = nx (ps ! n)" "ps \<noteq> []"
    and last: "\<And>acc st s q acc'. I st \<Longrightarrow> A acc \<Longrightarrow> vis (List.last ps) acc st \<noteq> (s, Inr (Follow q acc'))"
    and "I st" "A acc"
  shows "chase vis (brent_new (List.hd ps)) (List.hd ps) acc st = walk_along vis ps acc st"
proof -
  let ?x = "\<lambda>n. ps ! n"
  have "chase vis w (?x n) acc st = walk_along vis (drop n ps) acc st"
    if "n < length ps" "brent_run ?x n = Inr w" "I st" "A acc" for n w acc st
    using that
  proof (induction "length ps - n" arbitrary: n w acc st rule: less_induct)
    case less
    obtain s r where v: "vis (?x n) acc st = (s, r)" by fastforce
    have d: "drop n ps = ?x n # drop (Suc n) ps" using less.prems(1) by (simp add: Cons_nth_drop_Suc)
    note k = keeps [OF less.prems(3,4) v]
    show ?case
    proof (cases "\<exists>q acc'. r = Inr (Follow q acc')")
      case True
      then obtain q acc' where q: "r = Inr (Follow q acc')" by blast
      have "?x n \<noteq> List.last ps" using last [OF less.prems(3,4)] v q by auto
      then have n: "Suc n < length ps" using less.prems(1) assms(3) 
      proof -
        have "List.last ps = ps ! (length ps - 1)" using assms(3) by (rule last_conv_nth)
        then have "n \<noteq> length ps - 1" using \<open>?x n \<noteq> List.last ps\<close> by metis
        then show ?thesis using less.prems(1) by linarith
      qed
      then have qn: "q = ?x (Suc n)" using assms(2) [OF n] k q by simp
      have "inj_on ?x {..Suc n}" using assms(1) n by (auto simp: inj_on_def nth_eq_iff_index_eq)
      from brent_accepts [OF this] obtain w' where w': "brent_run ?x (Suc n) = Inr w'" by blast
      then have "brent_advance w q = Inr w'" using less.prems(2) qn by simp
      then have "chase vis w (?x n) acc st = chase vis w' (?x (Suc n)) acc' s"
        using v q qn by (subst chase.simps) simp
      also have "\<dots> = walk_along vis (drop (Suc n) ps) acc' s"
        by (rule less.hyps) (use less.prems(1) n w' k q in auto)
      finally show ?thesis using d v q by simp
    next
      case False
      then show ?thesis using d v by (subst chase.simps) (auto split: sum.splits visit.splits)
    qed
  qed
  from this [of 0 "brent_new (ps ! 0)" st acc] show ?thesis using assms(3,5,6) by (simp add: hd_conv_nth)
qed

end

section \<open>Walks on a device\<close>

definition pair_at :: "(u32 \<Rightarrow> byte list) \<Rightarrow> block_pair \<Rightarrow> metadata_pair result" where
  "pair_at im p = pair_parse (bp_a p) (im (as_u32 (bp_a p))) (bp_b p) (im (as_u32 (bp_b p)))"

text \<open>The successor of a pair in its chain (the pair itself where there is none), and the pairs a
  walk from \<open>start\<close> can meet: every one after the first is the tail stored in some block.\<close>

definition tail_after :: "'s storage \<Rightarrow> (u32 \<Rightarrow> byte list) \<Rightarrow> block_pair \<Rightarrow> block_pair" where
  "tail_after S im p =
     (if pair_in_bounds S p then
        case pair_at im p of
          Inr pair \<Rightarrow> (case hard_next (mp_reader pair) of Some t \<Rightarrow> t | None \<Rightarrow> p) | Inl _ \<Rightarrow> p
      else p)"

definition stored_tail :: "(u32 \<Rightarrow> byte list) \<Rightarrow> u32 \<Rightarrow> block_pair option" where
  "stored_tail im b = (case reader_new (im b) of Inr r \<Rightarrow> hard_next r | Inl _ \<Rightarrow> None)"

definition walk_nodes :: "'s storage \<Rightarrow> (u32 \<Rightarrow> byte list) \<Rightarrow> block_pair \<Rightarrow> block_pair set" where
  "walk_nodes S im start = insert start {t. \<exists>b < BLOCK_COUNT S. stored_tail im b = Some t}"

lemma walk_nodes_finite:
  assumes "unat (BLOCK_COUNT S) < 2 ^ 31"
  shows "finite (walk_nodes S im start)" "card (walk_nodes S im start) \<le> 2 ^ 31"
proof -
  let ?B = "{b. b < BLOCK_COUNT S}"
  have sub: "unat ` ?B \<subseteq> {..<unat (BLOCK_COUNT S)}" by (auto simp: word_less_nat_alt)
  have inj: "inj_on unat ?B" by (rule inj_onI) (simp add: word_unat_eq_iff)
  have fB: "finite ?B" by (rule finite_imageD [OF finite_subset [OF sub] inj]) simp
  have "card ?B = card (unat ` ?B)" using inj by (simp add: card_image)
  also have "\<dots> \<le> unat (BLOCK_COUNT S)" using card_mono [OF _ sub] by simp
  finally have cB: "card ?B \<le> unat (BLOCK_COUNT S)" .
  have W: "walk_nodes S im start \<subseteq> insert start ((the \<circ> stored_tail im) ` ?B)"
    by (force simp: walk_nodes_def image_iff)
  show "finite (walk_nodes S im start)" by (rule finite_subset [OF W]) (use fB in simp)
  have "card (walk_nodes S im start) \<le> card (insert start ((the \<circ> stored_tail im) ` ?B))"
    by (rule card_mono [OF _ W]) (use fB in simp)
  also have "\<dots> \<le> Suc (card ((the \<circ> stored_tail im) ` ?B))" by (rule card_insert_le_m1) simp_all
  also have "\<dots> \<le> Suc (card ?B)" using card_image_le [OF fB] by simp
  finally show "card (walk_nodes S im start) \<le> 2 ^ 31" using cB assms by simp
qed

lemma pair_parse_reader:
  "pair_parse x bx y by = Inr pair \<Longrightarrow> reader_new bx = Inr (mp_reader pair) \<or> reader_new by = Inr (mp_reader pair)"
  by (auto simp: pair_parse_def Let_def split: if_splits)

lemma tail_after_nodes:
  assumes "p \<in> walk_nodes S im start"
  shows "tail_after S im p \<in> walk_nodes S im start"
proof (cases "tail_after S im p = p")
  case False
  then obtain pair t where P: "pair_in_bounds S p" "pair_at im p = Inr pair" "hard_next (mp_reader pair) = Some t"
    "tail_after S im p = t"
    by (auto simp: tail_after_def split: if_splits sum.splits option.splits)
  obtain b where "b < BLOCK_COUNT S" "reader_new (im b) = Inr (mp_reader pair)"
    using pair_parse_reader [OF P(2) [unfolded pair_at_def]] P(1) unfolding pair_in_bounds_def by blast
  then have "stored_tail im b = Some t" "b < BLOCK_COUNT S" using P(3) by (simp_all add: stored_tail_def)
  then show ?thesis unfolding walk_nodes_def P(4) by blast
qed (use assms in simp)

lemma hard_tail_some: "reader_new b = Inr r \<Longrightarrow> is_hard_tail r \<Longrightarrow> \<exists>t. rd_tail r = Some t"
  by (erule reader_new_path) (auto simp: tail_of_def Let_def split: option.splits if_splits prod.splits)

context readable_flash
begin

text \<open>A fetch delivers the pair parsed from the two blocks, or meets an I/O error.\<close>

lemma fetch_pair_yields:
  assumes "Inv st" "bufs_ok S bufs"
  shows "yields st (\<lambda>r. r = (if pair_in_bounds S p
       then rbind (pair_at (img st) p) (\<lambda>pair. Inr ((img st (as_u32 (bp_a p)), img st (as_u32 (bp_b p))), pair))
       else Inl Corrupt)) (fetch_pair S p bufs st)"
proof (cases "pair_in_bounds S p")
  case True
  let ?a = "as_u32 (bp_a p)" and ?b = "as_u32 (bp_b p)"
  have b: "?a < BLOCK_COUNT S" "?b < BLOCK_COUNT S" using True by (simp_all add: pair_in_bounds_def)
  have rd: "yields s (\<lambda>r. r = Inr (img s c)) (dev_read S c 0 buf s)"
    if "Inv s" "c < BLOCK_COUNT S" "length buf = BLOCK_SIZE S" for s c buf
    unfolding yields_def
    by (rule dev_read_grid [OF that(1,2), of 0 buf])
       (use that read_unit(2) img_length [OF that(1,2)] in \<open>auto simp: slice_def\<close>)
  have "yields st (\<lambda>r. r = Inr (img st ?a, img st ?b)) (read_pair_blocks S p bufs st)"
    unfolding read_pair_blocks_def using True
    by (auto intro!: yields_bind [OF rd] yields_return assms(1) b simp: assms(2) [unfolded bufs_ok_def])
  then show ?thesis unfolding fetch_pair_def using True
    by (auto intro!: yields_bind [where m = "read_pair_blocks S p bufs"] yields_lift_bind yields_return simp: pair_at_def)
next
  case False
  then show ?thesis using assms(1) by (simp add: fetch_pair_def read_pair_blocks_def io_bind_eq yields_def)
qed

lemma fetch_pair_cases:
  assumes "fetch_pair S p bufs st = (st', r)" "Inv st" "bufs_ok S bufs"
  shows "Inv st'" "img st' = img st"
    and "r = Inr (bufs', pair) \<Longrightarrow> bufs_ok S bufs' \<and> pair_in_bounds S p \<and> pair_at (img st) p = Inr pair"
proof -
  note y = fetch_pair_yields [OF assms(2,3), of p, unfolded assms(1) yields_def]
  show "Inv st'" "img st' = img st" using y by simp_all
  assume r: "r = Inr (bufs', pair)"
  then have b: "pair_in_bounds S p" using y by (auto split: if_splits)
  then have "as_u32 (bp_a p) < BLOCK_COUNT S" "as_u32 (bp_b p) < BLOCK_COUNT S" by (simp_all add: pair_in_bounds_def)
  then show "bufs_ok S bufs' \<and> pair_in_bounds S p \<and> pair_at (img st) p = Inr pair"
    using y r b img_length [OF assms(2)] by (cases "pair_at (img st) p") (auto simp: bufs_ok_def)
qed

lemma followed_tail:
  "pair_in_bounds S p \<Longrightarrow> pair_at im p = Inr pair \<Longrightarrow> hard_next (mp_reader pair) = Some t \<Longrightarrow> tail_after S im p = t"
  by (simp add: tail_after_def)

lemma fetch_visit_keeps:
  assumes "io_bind (fetch_pair S p bufs) f st = (st', r)" "Inv st \<and> img st = im" "bufs_ok S bufs"
    and f: "\<And>bufs' pair st1 st2 r. f (bufs', pair) st1 = (st2, r) \<Longrightarrow> st2 = st1 \<and>
      (\<forall>q b. r = Inr (Follow q b) \<longrightarrow> b = bufs' \<and> hard_next (mp_reader pair) = Some q) \<and>
      (\<forall>x. r = Inr (Done x) \<longrightarrow> fst x = bufs')"
  shows "(Inv st' \<and> img st' = im) \<and> (\<forall>q b. r = Inr (Follow q b) \<longrightarrow> q = tail_after S im p \<and> bufs_ok S b) \<and>
    (\<forall>x. r = Inr (Done x) \<longrightarrow> bufs_ok S (fst x))"
proof -
  obtain st1 r1 where F: "fetch_pair S p bufs st = (st1, r1)" by fastforce
  have I: "Inv st" "img st = im" using assms(2) by simp_all
  note c = fetch_pair_cases [OF F I(1) assms(3), unfolded I(2)]
  show ?thesis
  proof (cases r1)
    case (Inl e)
    then show ?thesis using assms(1) F c(1,2) by (auto simp: io_bind_eq)
  next
    case (Inr x)
    obtain bufs' pair where x: "x = (bufs', pair)" by fastforce
    have run: "f (bufs', pair) st1 = (st', r)" using assms(1) F Inr x by (simp add: io_bind_eq)
    from f [OF run] c(3) [of bufs' pair] Inr x c(1,2) followed_tail [of p im pair] show ?thesis by auto
  qed
qed

end

text \<open>Each walker of \<open>fs.rs\<close> is such a walk, on any device that keeps the read contract and has fewer
  than \<open>2^31\<close> blocks (the stride of the tail walk saturates at 32 bits).\<close>

locale walkable_flash = readable_flash +
  assumes few_blocks: "unat (BLOCK_COUNT S) < 2 ^ 31"
begin

lemma visit_graph:
  assumes "\<And>st p bufs st' r. Inv st \<and> img st = im \<Longrightarrow> bufs_ok S bufs \<Longrightarrow> vis p bufs st = (st', r) \<Longrightarrow>
    (Inv st' \<and> img st' = im) \<and> (\<forall>q b. r = Inr (Follow q b) \<longrightarrow> q = tail_after S im p \<and> bufs_ok S b) \<and>
    (\<forall>x. r = Inr (Done x) \<longrightarrow> bufs_ok S (fst x))"
  shows "walk_graph vis (\<lambda>st. Inv st \<and> img st = im) (bufs_ok S) (\<lambda>x. bufs_ok S (fst x)) (walk_nodes S im start) (tail_after S im) start"
proof unfold_locales
  show "start \<in> walk_nodes S im start" by (simp add: walk_nodes_def)
qed (rule walk_nodes_finite [OF few_blocks] tail_after_nodes assms; assumption)+

end

sublocale walkable_flash \<subseteq> seek: walk_graph "seek_visit S nm" "\<lambda>st. Inv st \<and> img st = im" "bufs_ok S"
    "\<lambda>x. bufs_ok S (fst x)" "walk_nodes S im start" "tail_after S im" start for nm im start
  by (rule visit_graph, unfold seek_visit_def, erule fetch_visit_keeps)
     (auto simp: io_bind_eq split: sum.splits option.splits prod.splits)

sublocale walkable_flash \<subseteq> find_dir: walk_graph "find_dir_visit S nm" "\<lambda>st. Inv st \<and> img st = im" "bufs_ok S"
    "\<lambda>x. bufs_ok S (fst x)" "walk_nodes S im start" "tail_after S im" start for nm im start
  by (rule visit_graph, unfold find_dir_visit_def, erule fetch_visit_keeps)
     (auto simp: io_bind_eq split: sum.splits option.splits prod.splits)

sublocale walkable_flash \<subseteq> resolve: walk_graph "resolve_visit S leaf" "\<lambda>st. Inv st \<and> img st = im" "bufs_ok S"
    "\<lambda>x. bufs_ok S (fst x)" "walk_nodes S im start" "tail_after S im" start for leaf im start
  by (rule visit_graph, unfold resolve_visit_def, erule fetch_visit_keeps)
     (auto simp: io_bind_eq split: sum.splits option.splits prod.splits)

sublocale walkable_flash \<subseteq> lister: walk_graph "list_visit S f" "\<lambda>(st, c, n). Inv st \<and> img st = im" "bufs_ok S" "\<lambda>x. True"
    "walk_nodes S im start" "tail_after S im" start for f im start
proof unfold_locales
  show "start \<in> walk_nodes S im start" by (simp add: walk_nodes_def)
  fix st :: "'a \<times> 'b \<times> nat" and p bufs st' r
  assume I: "case st of (st, c, n) \<Rightarrow> Inv st \<and> img st = im" and b: "bufs_ok S bufs" and v: "list_visit S f p bufs st = (st', r)"
  obtain s c n where st: "st = (s, c, n)" by (cases st) auto
  obtain s1 r1 where F: "fetch_pair S p bufs s = (s1, r1)" by fastforce
  note k = fetch_pair_cases [OF F _ b]
  show "(case st' of (st, c, n) \<Rightarrow> Inv st \<and> img st = im) \<and>
      (\<forall>q b. r = Inr (Follow q b) \<longrightarrow> q = tail_after S im p \<and> bufs_ok S b) \<and> (\<forall>x. r = Inr (Done x) \<longrightarrow> True)"
    using I v k followed_tail [of p im]
    by (auto simp: st F list_visit_def on_device_def on_caller_def io_bind_eq Let_def split: prod.splits sum.splits option.splits)
qed (rule walk_nodes_finite [OF few_blocks] tail_after_nodes; assumption)+

interpretation walk256: walkable_flash "mem_storage 256 16 8" "mem_inv 256 8" "mem_img 256" True
  by unfold_locales (simp add: mem_storage_def)

interpretation walk4k: walkable_flash "mem_storage 4096 256 16" "mem_inv 4096 16" "mem_img 4096" True
  by unfold_locales (simp add: mem_storage_def)

section \<open>What the walks return\<close>

context walkable_flash
begin

lemma find_dir_outcome:
  assumes "Inv st" "bufs_ok S bufs"
  shows "\<exists>st' r. find_dir_pair S p nm bufs st = Some (st', r) \<and> Inv st' \<and> img st' = img st \<and> (\<forall>x. r = Inr x \<longrightarrow> bufs_ok S (fst x))"
  unfolding find_dir_pair_def using find_dir.chase_outcome [of st "img st" bufs] assms by blast

lemma descend_outcome:
  "Inv st \<Longrightarrow> bufs_ok S bufs \<Longrightarrow> \<exists>st' r. descend S p nms bufs st = Some (st', r) \<and> Inv st' \<and> img st' = img st \<and>
    (\<forall>x. r = Inr x \<longrightarrow> bufs_ok S (fst x))"
proof (induction nms arbitrary: p bufs st)
  case (Cons nm nms)
  show ?case
  proof (cases nms)
    case (Cons nm' nms')
    obtain st1 r where f: "find_dir_pair S p nm bufs st = Some (st1, r)" "Inv st1" "img st1 = img st" "\<forall>x. r = Inr x \<longrightarrow> bufs_ok S (fst x)"
      using find_dir_outcome [OF Cons.prems, of p nm] by blast
    show ?thesis
    proof (cases r)
      case (Inr x)
      obtain b q where x: "x = (b, q)" by fastforce
      have "bufs_ok S b" using f(4) Inr x by simp
      from Cons.IH [OF f(2) this, of q] show ?thesis using f(1,3) Inr x \<open>nms = nm' # nms'\<close> by (simp add: obind_def)
    qed (use f Cons in \<open>simp add: obind_def\<close>)
  qed (use Cons.prems in \<open>auto simp: olift_def\<close>)
qed (simp add: olift_def)

lemma resolve_outcome:
  assumes "Inv st"
  shows "\<exists>st' r. resolve S root path bufs st = Some (st', r) \<and> Inv st' \<and> img st' = img st \<and> (\<forall>x. r = Inr x \<longrightarrow> bufs_ok S (fst x))"
proof (cases "bufs_ok S bufs \<and> \<not> is_root path")
  case True
  obtain st1 r where d: "descend S root (components path) bufs st = Some (st1, r)" "Inv st1" "img st1 = img st" "\<forall>x. r = Inr x \<longrightarrow> bufs_ok S (fst x)"
    using descend_outcome [OF assms] True by blast
  show ?thesis
  proof (cases r)
    case (Inr y)
    obtain b p leaf where y: "y = (b, p, leaf)" by (cases y) auto
    have "Inv st1 \<and> img st1 = img st1" "bufs_ok S b" using d(2,4) Inr y by simp_all
    from resolve.chase_outcome [OF this, of leaf p] show ?thesis using True d(1,3) Inr y by (simp add: resolve_def obind_def)
  qed (use True d in \<open>simp add: resolve_def obind_def\<close>)
qed (use assms in \<open>auto simp: resolve_def olift_def\<close>)

end

text \<open>A chain of a device image: distinct pairs on the device, each a readable pair whose hard tail is
  the next one, the last without a hard tail.\<close>

definition is_chain :: "'s storage \<Rightarrow> (u32 \<Rightarrow> byte list) \<Rightarrow> block_pair list \<Rightarrow> bool" where
  "is_chain S im ps \<longleftrightarrow> ps \<noteq> [] \<and> distinct ps \<and> (\<forall>n < length ps. pair_in_bounds S (ps ! n) \<and>
     (\<exists>pair. pair_at im (ps ! n) = Inr pair \<and>
        hard_next (mp_reader pair) = (if Suc n < length ps then Some (ps ! Suc n) else None)))"

text \<open>The search over a chain as a list of pairs: the first pair that resolves the name answers.\<close>

fun seek_spec :: "(u32 \<Rightarrow> byte list) \<Rightarrow> byte list \<Rightarrow> block_pair list \<Rightarrow> chain_seek result" where
  "seek_spec im nm [] = Inl Corrupt"
| "seek_spec im nm (p # ps) =
     rbind (pair_at im p) (\<lambda>pair.
     rbind (lookup_checked pair nm) (\<lambda>hit.
     rbind (gather_live_slots pair) (\<lambda>(_, cnt).
       case hit of
         Some r \<Rightarrow> Inr (Found p (de_id (rs_entry r)) (de_kind (rs_entry r)))
       | None \<Rightarrow> if ps = [] then Inr (Absent p cnt) else seek_spec im nm ps)))"

text \<open>The listing of a chain: the entries of its pairs one after the other.\<close>

fun list_spec :: "(u32 \<Rightarrow> byte list) \<Rightarrow> block_pair list \<Rightarrow> dir_entry list result" where
  "list_spec im [] = Inr []"
| "list_spec im (p # ps) =
     rbind (pair_at im p) (\<lambda>pair.
       case live_entries pair collect_cb [] of
         (_, Inl e) \<Rightarrow> Inl e
       | (es, Inr _) \<Rightarrow> rbind (list_spec im ps) (\<lambda>es'. Inr (es @ es')))"

lemma emit_slots_fold:
  "emit_slots (\<lambda>e (c, m). ((f e c, m + 1), Inr ())) i slots (c, m) =
     ((fold f (listing i slots) c, m + length (listing i slots)), Inr ())"
  by (induction i slots arbitrary: c m rule: listing.induct) (simp_all add: io_bind_eq)

lemma live_entries_fold:
  "live_entries pair (\<lambda>e (c, m). ((f e c, m + 1), Inr ())) (c, m) =
     (case live_entries pair collect_cb [] of
        (_, Inl e) \<Rightarrow> ((c, m), Inl e)
      | (es, Inr n) \<Rightarrow> ((fold f es c, m + length es), Inr n))"
  using emit_slots_fold [of f] 
  by (cases "live_walk (iter_tags (mp_reader pair)) (replicate MAX_LIVE_ENTRIES None) 0")
     (auto simp: live_entries_def io_bind_eq emit_collect)

context walkable_flash
begin

lemma chain_next:
  assumes "is_chain S im ps" "n < length ps"
  obtains pair where "pair_in_bounds S (ps ! n)" "pair_at im (ps ! n) = Inr pair"
    "hard_next (mp_reader pair) = (if Suc n < length ps then Some (ps ! Suc n) else None)"
  using assms unfolding is_chain_def by blast

lemma chain_tails: "is_chain S im ps \<Longrightarrow> Suc n < length ps \<Longrightarrow> ps ! Suc n = tail_after S im (ps ! n)"
  using chain_next [of im ps n] by (metis Suc_lessD followed_tail)

lemma chain_Cons: "is_chain S im (p # q # ps) \<Longrightarrow> is_chain S im (q # ps)"
  unfolding is_chain_def
proof (intro conjI allI impI; (elim conjE)?)
  fix n assume c: "\<forall>n<length (p # q # ps). pair_in_bounds S ((p # q # ps) ! n) \<and> (\<exists>pair. pair_at im ((p # q # ps) ! n) = Inr pair \<and>
      hard_next (mp_reader pair) = (if Suc n < length (p # q # ps) then Some ((p # q # ps) ! Suc n) else None))"
    and n: "n < length (q # ps)"
  from spec [OF c, of "Suc n"] n
  show "pair_in_bounds S ((q # ps) ! n)" "\<exists>pair. pair_at im ((q # ps) ! n) = Inr pair \<and>
      hard_next (mp_reader pair) = (if Suc n < length (q # ps) then Some ((q # ps) ! Suc n) else None)"
    by (cases "n < length ps"; simp)+
qed auto

text \<open>On a live device a fetch of a chain's pair delivers it.\<close>

lemma fetch_live:
  assumes "live" "Inv st" "bufs_ok S bufs" "pair_in_bounds S p" "pair_at (img st) p = Inr pair"
  obtains st' bufs' where "fetch_pair S p bufs st = (st', Inr (bufs', pair))" "Inv st'" "img st' = img st" "bufs_ok S bufs'"
proof -
  note y = fetch_pair_yields [OF assms(2,3), of p, unfolded yields_def]
  obtain st' r where F: "fetch_pair S p bufs st = (st', r)" by fastforce
  then have r: "r = Inr ((img st (as_u32 (bp_a p)), img st (as_u32 (bp_b p))), pair)"
    using y assms(1,4,5) by simp
  from fetch_pair_cases [OF F assms(2,3)] r show thesis using that F by blast
qed

end

context walkable_flash
begin

lemma chain_head:
  assumes "is_chain S im (p # ps)"
  shows "\<exists>pair. pair_in_bounds S p \<and> pair_at im p = Inr pair \<and> hard_next (mp_reader pair) = (if ps = [] then None else Some (ps ! 0))"
proof -
  from assms have "\<forall>n < length (p # ps). pair_in_bounds S ((p # ps) ! n) \<and> (\<exists>pair. pair_at im ((p # ps) ! n) = Inr pair \<and>
      hard_next (mp_reader pair) = (if Suc n < length (p # ps) then Some ((p # ps) ! Suc n) else None))"
    unfolding is_chain_def by (elim conjE)
  from spec [OF this, of 0] show ?thesis by (auto split: if_splits)
qed

lemma seek_visit_eq:
  assumes "fetch_pair S p bufs st = (st1, Inr (bufs1, pair))"
  shows "seek_visit S nm p bufs st = (st1, rbind (lookup_checked pair nm) (\<lambda>hit. rbind (gather_live_slots pair) (\<lambda>(_, cnt).
    Inr (case hit of Some r \<Rightarrow> Done (bufs1, Found p (de_id (rs_entry r)) (de_kind (rs_entry r)))
      | None \<Rightarrow> (case hard_next (mp_reader pair) of Some t \<Rightarrow> Follow t bufs1 | None \<Rightarrow> Done (bufs1, Absent p cnt))))))"
proof -
  have "seek_visit S nm p bufs st = io_bind (io_lift (lookup_checked pair nm)) (\<lambda>hit.
      io_bind (io_lift (gather_live_slots pair)) (\<lambda>(_, cnt). io_return
      (case hit of Some r \<Rightarrow> Done (bufs1, Found p (de_id (rs_entry r)) (de_kind (rs_entry r)))
      | None \<Rightarrow> (case hard_next (mp_reader pair) of Some t \<Rightarrow> Follow t bufs1 | None \<Rightarrow> Done (bufs1, Absent p cnt))))) st1"
    unfolding seek_visit_def by (subst io_bind_Inr [where m = "fetch_pair S p bufs", OF assms]) simp
  then show ?thesis
    by (cases "lookup_checked pair nm"; cases "gather_live_slots pair") (simp_all add: io_bind_lift split: prod.splits)
qed

lemma list_visit_eq:
  assumes "fetch_pair S p bufs st = (st1, Inr (bufs1, pair))" "live_entries pair collect_cb [] = (es, r)"
  shows "list_visit S f p bufs (st, c, m) = (case r of Inl e \<Rightarrow> ((st1, c, m), Inl e)
     | Inr n \<Rightarrow> ((st1, fold f es c, m + length es),
         Inr (case hard_next (mp_reader pair) of Some t \<Rightarrow> Follow t bufs1 | None \<Rightarrow> Done ())))"
proof -
  have "on_device (fetch_pair S p bufs) (st, c, m) = ((st1, c, m), Inr (bufs1, pair))" by (simp add: on_device_def assms(1))
  then show ?thesis unfolding list_visit_def
    using live_entries_fold [of pair f c m, unfolded assms(2)]
    by (subst io_bind_Inr) (auto simp: on_caller_def io_bind_eq Let_def split: sum.splits)
qed

lemma seek_along:
  assumes "live" "is_chain S im ps" "Inv st" "img st = im" "bufs_ok S bufs"
  shows "\<exists>st' bufs'. Inv st' \<and> img st' = im \<and>
    walk_along (seek_visit S nm) ps bufs st = Some (st', rbind (seek_spec im nm ps) (\<lambda>a. Inr (bufs', a)))"
  using assms(2-)
proof (induction ps arbitrary: bufs st)
  case (Cons p ps)
  obtain pair where P: "pair_in_bounds S p" "pair_at im p = Inr pair"
    "hard_next (mp_reader pair) = (if ps = [] then None else Some (ps ! 0))"
    using chain_head [OF Cons.prems(1)] by blast
  obtain st1 bufs1 where F: "fetch_pair S p bufs st = (st1, Inr (bufs1, pair))" "Inv st1" "img st1 = im" "bufs_ok S bufs1"
    using fetch_live [OF assms(1) Cons.prems(2,4) P(1) P(2) [folded Cons.prems(3)]] unfolding Cons.prems(3) by blast
  note v = seek_visit_eq [OF F(1), of nm]
  show ?case
  proof (cases "lookup_checked pair nm")
    case (Inl e)
    then show ?thesis using P(2) v F by (intro exI [of _ st1] exI [of _ bufs1]) simp
  next
    case hit: (Inr hit)
    show ?thesis
    proof (cases "gather_live_slots pair")
      case (Inl e)
      then show ?thesis using P(2) v F hit by (intro exI [of _ st1] exI [of _ bufs1]) simp
    next
      case (Inr u)
      obtain sl cnt where u: "u = (sl, cnt)" by fastforce
      show ?thesis
      proof (cases "hit = None \<and> ps \<noteq> []")
        case True
        then obtain q qs where ps: "ps = q # qs" by (cases ps) auto
        have "is_chain S im ps" using chain_Cons Cons.prems(1) ps by blast
        from Cons.IH [OF this F(2,3,4)] obtain st2 bufs2 where "Inv st2" "img st2 = im"
          "walk_along (seek_visit S nm) ps bufs1 st1 = Some (st2, rbind (seek_spec im nm ps) (\<lambda>a. Inr (bufs2, a)))" by blast
        then show ?thesis using True P(2,3) v hit Inr u by (intro exI [of _ st2] exI [of _ bufs2]) simp
      next
        case False
        then show ?thesis using P(2,3) v F hit Inr u
          by (intro exI [of _ st1] exI [of _ bufs1]) (cases hit; simp)
      qed
    qed
  qed
qed (simp add: is_chain_def)

lemma list_along:
  assumes "live" "is_chain S im ps" "Inv st" "img st = im" "bufs_ok S bufs"
  shows "case list_spec im ps of
      Inr es \<Rightarrow> \<exists>st'. walk_along (list_visit S f) ps bufs (st, c, m) = Some ((st', fold f es c, m + length es), Inr ())
    | Inl e \<Rightarrow> \<exists>st'. walk_along (list_visit S f) ps bufs (st, c, m) = Some (st', Inl e)"
  using assms(2-)
proof (induction ps arbitrary: bufs st c m)
  case (Cons p ps)
  obtain pair where P: "pair_in_bounds S p" "pair_at im p = Inr pair"
    "hard_next (mp_reader pair) = (if ps = [] then None else Some (ps ! 0))"
    using chain_head [OF Cons.prems(1)] by blast
  obtain st1 bufs1 where F: "fetch_pair S p bufs st = (st1, Inr (bufs1, pair))" "Inv st1" "img st1 = im" "bufs_ok S bufs1"
    using fetch_live [OF assms(1) Cons.prems(2,4) P(1) P(2) [folded Cons.prems(3)]] unfolding Cons.prems(3) by blast
  obtain es r where L: "live_entries pair collect_cb [] = (es, r)" by fastforce
  note v = list_visit_eq [OF F(1) L, of f c m, unfolded P(3)]
  show ?case
  proof (cases "r \<in> range Inl \<or> ps = []")
    case True
    then show ?thesis using P(2) v L by (auto split: sum.splits)
  next
    case False
    then obtain n q qs where ps: "r = Inr n" "ps = q # qs" by (cases r; cases ps) auto
    have "is_chain S im ps" using chain_Cons Cons.prems(1) ps by blast
    from Cons.IH [OF this F(2,3,4), of "fold f es c" "m + length es"] show ?thesis
      using P(2) v L ps by (auto split: sum.splits simp: add.assoc)
  qed
qed (simp add: is_chain_def)

lemma chase_chain:
  assumes "is_chain S im ps" "Inv st" "img st = im" "bufs_ok S bufs"
  shows "seek_entry_in_chain S (List.hd ps) nm bufs st = walk_along (seek_visit S nm) ps bufs st"
    and "chase (list_visit S f) (brent_new (List.hd ps)) (List.hd ps) bufs (st, c, m) = walk_along (list_visit S f) ps bufs (st, c, m)"
proof -
  have c: "distinct ps" "ps \<noteq> []" using assms(1) by (simp_all add: is_chain_def)
  have "length ps - 1 < length ps" using c(2) by simp
  from chain_next [OF assms(1) this] obtain pair where L: "pair_in_bounds S (List.last ps)" "pair_at im (List.last ps) = Inr pair"
    "hard_next (mp_reader pair) = None" using c(2) by (auto simp: last_conv_nth)
  let ?l = "List.last ps"
  have stop: "\<exists>e. fetch_pair S ?l b s = (s', Inl e) \<or> (\<exists>b'. fetch_pair S ?l b s = (s', Inr (b', pair)))"
    if I: "Inv s \<and> img s = im" "bufs_ok S b" and F: "fetch_pair S ?l b s = (s', r)" for b s s' r
  proof (cases r)
    case (Inr x)
    obtain b' pair' where x: "x = (b', pair')" by fastforce
    then have "pair' = pair" using fetch_pair_cases(3) [OF F _ I(2), of b' pair'] I(1) L(2) Inr by simp
    then show ?thesis using F Inr x by blast
  qed (use F in blast)
  show "seek_entry_in_chain S (List.hd ps) nm bufs st = walk_along (seek_visit S nm) ps bufs st"
    unfolding seek_entry_in_chain_def
  proof (rule seek.chase_is_walk [OF c(1) chain_tails [OF assms(1)] c(2)])
    fix b s s' q b' assume I: "Inv s \<and> img s = im" "bufs_ok S b"
    obtain s1 r where F: "fetch_pair S ?l b s = (s1, r)" by fastforce
    show "seek_visit S nm ?l b s \<noteq> (s', Inr (Follow q b'))"
    proof (cases "\<exists>e. fetch_pair S ?l b s = (s1, Inl e)")
      case True
      then show ?thesis by (auto simp: seek_visit_def io_bind_Inl)
    next
      case False
      then obtain b1 where "fetch_pair S ?l b s = (s1, Inr (b1, pair))" using stop [OF I F] by blast
      from seek_visit_eq [OF this, of nm] L(3) show ?thesis by (auto split: option.splits prod.splits)
    qed
  qed (use assms in auto)
  show "chase (list_visit S f) (brent_new (List.hd ps)) (List.hd ps) bufs (st, c, m) = walk_along (list_visit S f) ps bufs (st, c, m)"
  proof (rule lister.chase_is_walk [OF c(1) chain_tails [OF assms(1)] c(2)])
    fix b and t :: "'a \<times> 'b \<times> nat" and t' q b' assume I: "case t of (st, c, n) \<Rightarrow> Inv st \<and> img st = im" "bufs_ok S b"
    obtain s c0 n where t: "t = (s, c0, n)" by (cases t) auto
    obtain s1 r where F: "fetch_pair S ?l b s = (s1, r)" by fastforce
    show "list_visit S f ?l b t \<noteq> (t', Inr (Follow q b'))"
    proof (cases "\<exists>e. fetch_pair S ?l b s = (s1, Inl e)")
      case True
      then show ?thesis using F by (auto simp: t list_visit_def on_device_def io_bind_eq)
    next
      case False
      then obtain b1 where F': "fetch_pair S ?l b s = (s1, Inr (b1, pair))" using stop [OF _ I(2) F] I(1) t by auto
      obtain es x where "live_entries pair collect_cb [] = (es, x)" by fastforce
      from list_visit_eq [OF F' this, of f c0 n] L(3) show ?thesis by (auto simp: t split: sum.splits)
    qed
  qed (use assms in auto)
qed

end

context walkable_flash
begin

lemma walkers_return:
  assumes "Inv st" "bufs_ok S bufs"
  shows "seek_entry_in_chain S start nm bufs st \<noteq> None" "list_pair_chain S f start bufs (st, c) \<noteq> None"
    "resolve_parent S root path bufs st \<noteq> None" "resolve S root path bufs st \<noteq> None"
proof -
  have I: "Inv st \<and> img st = img st" using assms(1) by simp
  show "seek_entry_in_chain S start nm bufs st \<noteq> None"
    unfolding seek_entry_in_chain_def by (rule seek.chase_returns [OF I assms(2)])
  have "case (st, c, 0 :: nat) of (s, _, _) \<Rightarrow> Inv s \<and> img s = img st" using assms(1) by simp
  from lister.chase_returns [OF this assms(2)] show "list_pair_chain S f start bufs (st, c) \<noteq> None"
    by (simp add: list_pair_chain_def)
  show "resolve_parent S root path bufs st \<noteq> None"
    using descend_outcome [OF assms, of root "components path"] by (auto simp: resolve_parent_def olift_def)
  show "resolve S root path bufs st \<noteq> None" using resolve_outcome [OF assms(1), of root path bufs] by auto
qed

lemma seek_on_chain:
  assumes "live" "is_chain S (img st) ps" "Inv st" "bufs_ok S bufs"
  shows "\<exists>st' bufs'. Inv st' \<and> img st' = img st \<and>
    seek_entry_in_chain S (List.hd ps) nm bufs st = Some (st', rbind (seek_spec (img st) nm ps) (\<lambda>a. Inr (bufs', a)))"
  using seek_along [OF assms(1,2,3) refl assms(4)] chase_chain(1) [OF assms(2,3) refl assms(4)] by simp

lemma list_on_chain:
  assumes "live" "is_chain S (img st) ps" "Inv st" "bufs_ok S bufs"
  shows "case list_spec (img st) ps of
      Inr es \<Rightarrow> \<exists>st'. list_pair_chain S f (List.hd ps) bufs (st, c) = Some ((st', fold f es c), Inr (length es))
    | Inl e \<Rightarrow> \<exists>st' c'. list_pair_chain S f (List.hd ps) bufs (st, c) = Some ((st', c'), Inl e)"
proof -
  note run = list_along [OF assms(1,2,3) refl assms(4), of f c 0, folded chase_chain(2) [OF assms(2,3) refl assms(4)]]
  show ?thesis
  proof (cases "list_spec (img st) ps")
    case (Inl e)
    then obtain t where "chase (list_visit S f) (brent_new (List.hd ps)) (List.hd ps) bufs (st, c, 0) = Some (t, Inl e)"
      using run by auto
    then show ?thesis using Inl by (cases t) (simp add: list_pair_chain_def)
  next
    case (Inr es)
    then show ?thesis using run by (auto simp: list_pair_chain_def)
  qed
qed

text \<open>A chain that never ends, searched for a name none of its pairs holds.\<close>

lemma seek_cyclic:
  assumes "live" "Inv st" "bufs_ok S bufs"
    and "\<And>n. \<exists>pair q u. pair_in_bounds S ((tail_after S (img st) ^^ n) start) \<and> pair_at (img st) ((tail_after S (img st) ^^ n) start) = Inr pair \<and>
      lookup_checked pair nm = Inr None \<and> gather_live_slots pair = Inr u \<and> hard_next (mp_reader pair) = Some q"
  shows "\<exists>st'. seek_entry_in_chain S start nm bufs st = Some (st', Inl Corrupt) \<and> Inv st' \<and> img st' = img st"
  unfolding seek_entry_in_chain_def
proof (rule seek.chase_cyclic [OF _ assms(3)])
  fix n b s assume I: "Inv s \<and> img s = img st" "bufs_ok S b"
  let ?p = "(tail_after S (img st) ^^ n) start"
  obtain pair q u where P: "pair_in_bounds S ?p" "pair_at (img s) ?p = Inr pair" "lookup_checked pair nm = Inr None"
    "gather_live_slots pair = Inr u" "hard_next (mp_reader pair) = Some q" using assms(4) [of n] I(1) by auto
  obtain s1 b1 where F: "fetch_pair S ?p b s = (s1, Inr (b1, pair))"
    using fetch_live [OF assms(1) _ I(2) P(1,2)] I(1) by blast
  show "\<exists>s' q' b'. seek_visit S nm ?p b s = (s', Inr (Follow q' b'))"
    using seek_visit_eq [OF F, of nm] P(3-5) by (simp split: prod.splits)
qed (use assms(2) in simp)

end

lemma walkableI: "readable_flash S Inv img live \<Longrightarrow> unat (BLOCK_COUNT S) < 2 ^ 31 \<Longrightarrow> walkable_flash S Inv img live"
  by (simp add: walkable_flash_def walkable_flash_axioms_def)

text \<open>Two devices for the witnesses: a root pair whose hard tail is a second pair, and one whose hard
  tail is itself.\<close>

definition link_block :: "byte \<Rightarrow> byte list" where
  "link_block t =
     (if t = 0 then [1, 0, 0, 0, 159, 224, 3, 247, 0, 0, 0, 0, 1, 0, 0, 0, 48, 16, 0, 12, 72, 51, 89, 159]
      else [1, 0, 0, 0, 159, 224, 3, 247, 2, 0, 0, 0, 3, 0, 0, 0, 48, 16, 0, 12, 170, 170, 71, 49]) @ replicate 232 0xFF"

definition loop_dev :: "byte list" where
  "loop_dev = link_block 0 @ link_block 0 @ replicate 1536 0xFF"

definition two_dev :: "byte list" where
  "two_dev = link_block 2 @ link_block 2 @ root_block @ root_block @ replicate 1024 0xFF"

abbreviation link_tag_list :: "block_pair \<Rightarrow> byte list \<Rightarrow> (tag_entry \<times> nat) list" where
  "link_tag_list p crc \<equiv> [(tent (Tag_new True HardTail ID_NONE 8) (pair_body p), 8), (tent (Tag_new True (CommitCrc 0) 0x3FF 4) crc, 20)]"

lemma link_readers:
  "\<exists>r. reader_new (link_block 0) = Inr r \<and> has_commits r \<and> hard_next r = Some ROOT_BLOCK_PAIR \<and>
     tags_at (reader_iter r) = link_tag_list ROOT_BLOCK_PAIR [72, 51, 89, 159]"
  "\<exists>r. reader_new (link_block 2) = Inr r \<and> has_commits r \<and> hard_next r = Some (pair_new (BlockAddress 2) (BlockAddress 3)) \<and>
     tags_at (reader_iter r) = link_tag_list (pair_new (BlockAddress 2) (BlockAddress 3)) [170, 170, 71, 49]"
proof -
  have "case reader_new (link_block 0) of Inl _ \<Rightarrow> False | Inr r \<Rightarrow> has_commits r \<and> hard_next r = Some ROOT_BLOCK_PAIR \<and>
     tags_at (reader_iter r) = link_tag_list ROOT_BLOCK_PAIR [72, 51, 89, 159]" by code_simp
  then show "\<exists>r. reader_new (link_block 0) = Inr r \<and> has_commits r \<and> hard_next r = Some ROOT_BLOCK_PAIR \<and>
     tags_at (reader_iter r) = link_tag_list ROOT_BLOCK_PAIR [72, 51, 89, 159]" by (simp split: sum.splits)
  have "case reader_new (link_block 2) of Inl _ \<Rightarrow> False | Inr r \<Rightarrow> has_commits r \<and> hard_next r = Some (pair_new (BlockAddress 2) (BlockAddress 3)) \<and>
     tags_at (reader_iter r) = link_tag_list (pair_new (BlockAddress 2) (BlockAddress 3)) [170, 170, 71, 49]" by code_simp
  then show "\<exists>r. reader_new (link_block 2) = Inr r \<and> has_commits r \<and> hard_next r = Some (pair_new (BlockAddress 2) (BlockAddress 3)) \<and>
     tags_at (reader_iter r) = link_tag_list (pair_new (BlockAddress 2) (BlockAddress 3)) [170, 170, 71, 49]" by (simp split: sum.splits)
qed

lemma link_empty:
  assumes "tags_at (reader_iter r) = link_tag_list p crc" "mp_reader pair = r"
  shows "lookup_checked pair nm = Inr None" "gather_live_slots pair = Inr (replicate MAX_LIVE_ENTRIES slot_EMPTY, 0)"
    "live_entries pair collect_cb [] = ([], Inr 0)"
proof -
  have t: "iter_tags r = [tent (Tag_new True HardTail ID_NONE 8) (pair_body p), tent (Tag_new True (CommitCrc 0) 0x3FF 4) crc]"
    using assms(1) tags_at_from [of "reader_iter r"] by (simp add: iter_tags_def)
  show "lookup_checked pair nm = Inr None" "gather_live_slots pair = Inr (replicate MAX_LIVE_ENTRIES slot_EMPTY, 0)"
    "live_entries pair collect_cb [] = ([], Inr 0)"
    using assms t
    by (simp_all add: lookup_checked_def gather_live_slots_def live_entries_def io_bind_eq splice_step_cases is_name_tag_def
      is_struct_type_def natural_type_def ID_NONE_def)
qed

lemma same_block_pair:
  assumes "reader_new b = Inr r" "has_commits r"
  shows "pair_parse x b y b = Inr \<lparr>active_block = x, alternate_block = y, mp_reader = r, alternate_valid = True\<rparr>"
  using assms by (simp add: pair_parse_def Let_def rev_scmp_def)

lemma dev_sizes: "length (link_block t) = 256" "length root_block = 256"
  by (simp_all add: link_block_def root_block_def tiny_block_def Let_def)

lemma loop_dev_facts: "mem_inv 256 8 loop_dev" "mem_img 256 loop_dev 0 = link_block 0" "mem_img 256 loop_dev 1 = link_block 0"
  using dev_sizes by (simp_all add: mem_inv_def mem_img_def loop_dev_def slice_def)

lemma two_dev_facts: "mem_inv 256 8 two_dev" "mem_img 256 two_dev 0 = link_block 2" "mem_img 256 two_dev 1 = link_block 2"
  "mem_img 256 two_dev 2 = root_block" "mem_img 256 two_dev 3 = root_block"
  using dev_sizes by (simp_all add: mem_inv_def mem_img_def two_dev_def slice_def)

abbreviation dev256 :: "byte list storage" where "dev256 \<equiv> mem_storage 256 16 8"

abbreviation bufs256 :: bufs where "bufs256 \<equiv> (replicate 256 0, replicate 256 0)"

lemma dev256_facts: "bufs_ok dev256 bufs256" "unat (BLOCK_COUNT dev256) < 2 ^ 31" "readable_flash dev256 (mem_inv 256 8) (mem_img 256) True"
  using mem256.readable_flash_axioms by (simp_all add: bufs_ok_def mem_storage_def)



abbreviation second_pair :: block_pair where "second_pair \<equiv> pair_new (BlockAddress 2) (BlockAddress 3)"

lemma two_pairs:
  obtains r s where "pair_at (mem_img 256 two_dev) ROOT_BLOCK_PAIR =
      Inr \<lparr>active_block = BlockAddress 0, alternate_block = BlockAddress 1, mp_reader = r, alternate_valid = True\<rparr>"
    "hard_next r = Some second_pair" "tags_at (reader_iter r) = link_tag_list second_pair [170, 170, 71, 49]"
    "pair_at (mem_img 256 two_dev) second_pair =
      Inr \<lparr>active_block = BlockAddress 2, alternate_block = BlockAddress 3, mp_reader = s, alternate_valid = True\<rparr>"
    "hard_next s = None" "crc_entries (iter_tags s)"
proof -
  obtain r where r: "reader_new (link_block 2) = Inr r" "has_commits r" "hard_next r = Some second_pair"
    "tags_at (reader_iter r) = link_tag_list second_pair [170, 170, 71, 49]" using link_readers(2) by blast
  obtain s where s: "reader_new root_block = Inr s" "has_commits s" "crc_entries (iter_tags s)" using root_block_reader by blast
  show thesis
  proof (rule that [OF _ r(3,4) _ _ s(3)])
    show "hard_next s = None" using crc_reader_empty(2) [OF s(1,3)] by (simp add: hard_next_def)
  qed (simp_all add: pair_at_def ROOT_BLOCK_PAIR_def two_dev_facts same_block_pair [OF r(1,2)] same_block_pair [OF s(1,2)])
qed

lemma two_chain: "is_chain dev256 (mem_img 256 two_dev) [ROOT_BLOCK_PAIR, second_pair]"
proof (rule two_pairs)
  fix r s assume p: "pair_at (mem_img 256 two_dev) ROOT_BLOCK_PAIR =
      Inr \<lparr>active_block = BlockAddress 0, alternate_block = BlockAddress 1, mp_reader = r, alternate_valid = True\<rparr>"
    "hard_next r = Some second_pair"
    "pair_at (mem_img 256 two_dev) second_pair =
      Inr \<lparr>active_block = BlockAddress 2, alternate_block = BlockAddress 3, mp_reader = s, alternate_valid = True\<rparr>"
    "hard_next s = None"
  have d: "ROOT_BLOCK_PAIR \<noteq> second_pair" by (simp add: ROOT_BLOCK_PAIR_def pair_new_def)
  have b: "pair_in_bounds dev256 ROOT_BLOCK_PAIR" "pair_in_bounds dev256 second_pair"
    by (simp_all add: pair_in_bounds_def ROOT_BLOCK_PAIR_def mem_storage_def)
  show ?thesis using p d b by (auto simp: is_chain_def less_Suc_eq)
qed

lemma crc_pair_empty:
  assumes "crc_entries (iter_tags r)" "mp_reader pair = r"
  shows "lookup_checked pair nm = Inr None"
  using assms lookup_walk_crc [OF assms(1)] by (simp add: lookup_checked_def)


lemma crc_live_walk: "crc_entries es \<Longrightarrow> live_walk es slots cnt = Inr (slots, cnt)"
proof (induction es)
  case (Cons e es)
  then have "tag_type (te_tag e) = ForwardCrc \<or> (\<exists>c. tag_type (te_tag e) = CommitCrc c)"
    by (auto simp: is_ccrc_iff_chunk ccrc_chunk_Some)
  then show ?case using Cons by (auto simp: splice_step_cases is_name_tag_def)
qed simp

lemma crc_listing:
  assumes "crc_entries (iter_tags r)" "mp_reader pair = r"
  shows "live_entries pair collect_cb [] = ([], Inr 0)"
  using assms crc_live_walk [OF assms(1)] by (simp add: live_entries_def io_bind_eq)

lemma crc_gather_slots: "crc_entries (map fst es) \<Longrightarrow> gather_slots es slots cnt = Inr (slots, cnt)"
proof (induction es)
  case (Cons e es)
  obtain t o1 where e: "e = (t, o1)" by fastforce
  then have "tag_type (te_tag t) = ForwardCrc \<or> (\<exists>c. tag_type (te_tag t) = CommitCrc c)"
    using Cons.prems by (auto simp: is_ccrc_iff_chunk ccrc_chunk_Some)
  then show ?case using Cons e by (auto simp: splice_step_cases is_name_tag_def is_struct_type_def)
qed simp

lemma crc_gather:
  assumes "crc_entries (iter_tags r)" "mp_reader pair = r"
  shows "\<exists>u. gather_live_slots pair = Inr u"
  using crc_gather_slots [of "tags_at (reader_iter r)"] assms tags_at_from [of "reader_iter r"]
  by (simp add: gather_live_slots_def iter_tags_def)

section \<open>Properties of the walks\<close>

text \<open>C16. Whatever the device holds, the chain walkers return: on any device of fewer than \<open>2^31\<close>
  blocks that keeps the read contract, listing a directory, searching a chain for a name, and
  resolving a path or its parent all end with an answer or an error, also when the tails form a cycle
  or lead off the device.\<close>

theorem chain_walks_return:
  assumes "readable_flash S Inv img live" and "unat (BLOCK_COUNT S) < 2 ^ 31" and "Inv st" and "bufs_ok S bufs"
  shows "list_pair_chain S f start bufs (st, c) \<noteq> None \<and> seek_entry_in_chain S start nm bufs st \<noteq> None \<and>
    resolve_parent S root path bufs st \<noteq> None \<and> resolve S root path bufs st \<noteq> None"
  by (intro conjI walkable_flash.walkers_return [OF walkableI [OF assms(1,2)] assms(3,4)])

theorem chain_walks_return_witness:
  "list_pair_chain dev256 (\<lambda>e n. n + 1 :: nat) ROOT_BLOCK_PAIR bufs256 (loop_dev, 0) \<noteq> None"
  by (rule conjunct1 [OF chain_walks_return [OF dev256_facts(3,2) loop_dev_facts(1) dev256_facts(1)]])

text \<open>C14. On a live device the search of a chain without a cycle is never stopped early: it answers
  with the first pair of the chain that resolves the name, or with the last pair and its entry count
  when none does, and it leaves the device contents as they were. An unreadable directory on the way
  is reported with its own error.\<close>

theorem seek_finds_first:
  assumes "readable_flash S Inv img True" and "unat (BLOCK_COUNT S) < 2 ^ 31" and "Inv st" and "bufs_ok S bufs"
    and "is_chain S (img st) ps"
  shows "\<exists>st' bufs'. Inv st' \<and> img st' = img st \<and>
    seek_entry_in_chain S (List.hd ps) nm bufs st = Some (st', rbind (seek_spec (img st) nm ps) (\<lambda>a. Inr (bufs', a)))"
  by (rule walkable_flash.seek_on_chain [OF walkableI [OF assms(1,2)] TrueI assms(5,3,4)])

theorem seek_finds_first_witness:
  "\<exists>st' bufs' n. seek_entry_in_chain dev256 ROOT_BLOCK_PAIR [97] bufs256 two_dev = Some (st', Inr (bufs', Absent second_pair n))"
proof (rule two_pairs)
  fix r s assume p: "pair_at (mem_img 256 two_dev) ROOT_BLOCK_PAIR =
      Inr \<lparr>active_block = BlockAddress 0, alternate_block = BlockAddress 1, mp_reader = r, alternate_valid = True\<rparr>"
    "tags_at (reader_iter r) = link_tag_list second_pair [170, 170, 71, 49]"
    "pair_at (mem_img 256 two_dev) second_pair =
      Inr \<lparr>active_block = BlockAddress 2, alternate_block = BlockAddress 3, mp_reader = s, alternate_valid = True\<rparr>"
    and s: "crc_entries (iter_tags s)"
  let ?q = "\<lparr>active_block = BlockAddress 2, alternate_block = BlockAddress 3, mp_reader = s, alternate_valid = True\<rparr>"
  obtain sl n where g: "gather_live_slots ?q = Inr (sl, n)" using crc_gather [OF s, of ?q] by auto
  have "seek_spec (mem_img 256 two_dev) [97] [ROOT_BLOCK_PAIR, second_pair] = Inr (Absent second_pair n)"
    using p(1,3) link_empty [OF p(2)] crc_pair_empty [OF s, of ?q] g by simp
  then show ?thesis
    using seek_finds_first [OF dev256_facts(3,2) two_dev_facts(1) dev256_facts(1) two_chain, of "[97]"] by auto
qed

text \<open>C15. Listing a chain without a cycle on a live device hands the callback every live entry of
  every pair, in chain order, and returns their number; it fails exactly when the listing of some
  pair does.\<close>

theorem list_chain_complete:
  assumes "readable_flash S Inv img True" and "unat (BLOCK_COUNT S) < 2 ^ 31" and "Inv st" and "bufs_ok S bufs"
    and "is_chain S (img st) ps"
  shows "case list_spec (img st) ps of
      Inr es \<Rightarrow> \<exists>st'. list_pair_chain S f (List.hd ps) bufs (st, c) = Some ((st', fold f es c), Inr (length es))
    | Inl e \<Rightarrow> \<exists>st' c'. list_pair_chain S f (List.hd ps) bufs (st, c) = Some ((st', c'), Inl e)"
  by (rule walkable_flash.list_on_chain [OF walkableI [OF assms(1,2)] TrueI assms(5,3,4)])

theorem list_chain_complete_witness:
  "list_spec (mem_img 256 two_dev) [ROOT_BLOCK_PAIR, second_pair] = Inr [] \<and>
   (\<exists>st'. list_pair_chain dev256 (\<lambda>e n. n + 1 :: nat) ROOT_BLOCK_PAIR bufs256 (two_dev, 0) = Some ((st', 0), Inr 0))"
proof (rule two_pairs)
  fix r s assume p: "pair_at (mem_img 256 two_dev) ROOT_BLOCK_PAIR =
      Inr \<lparr>active_block = BlockAddress 0, alternate_block = BlockAddress 1, mp_reader = r, alternate_valid = True\<rparr>"
    "tags_at (reader_iter r) = link_tag_list second_pair [170, 170, 71, 49]"
    "pair_at (mem_img 256 two_dev) second_pair =
      Inr \<lparr>active_block = BlockAddress 2, alternate_block = BlockAddress 3, mp_reader = s, alternate_valid = True\<rparr>"
    and s: "crc_entries (iter_tags s)"
  let ?q = "\<lparr>active_block = BlockAddress 2, alternate_block = BlockAddress 3, mp_reader = s, alternate_valid = True\<rparr>"
  have "live_entries ?q collect_cb [] = ([], Inr 0)" using crc_listing [OF s, of ?q] by simp
  then have l: "list_spec (mem_img 256 two_dev) [ROOT_BLOCK_PAIR, second_pair] = Inr []"
    using p(1,3) link_empty [OF p(2)] by simp
  then show ?thesis
    using list_chain_complete [OF dev256_facts(3,2) two_dev_facts(1) dev256_facts(1) two_chain, of "\<lambda>e n. n + 1 :: nat" 0, unfolded l] by simp
qed



end
