(* ===== verification/Forest.thy ===== *)
theory Forest
  imports Walks Gstates
begin

text \<open>
  The metadata pair forest (\<open>src/src/fs.rs\<close>): the gstate contribution of a pair, and the bounded
  walks from the root that mount, relocation and splitting rely on: \<open>accumulate_gstate\<close>,
  \<open>collect_live_tree_pairs\<close>, \<open>relocated_twin_in\<close>, \<open>find_thread_predecessor\<close> and
  \<open>find_parent_in_tree\<close>.

  The three breadth first walks keep a queue of at most \<open>MAX_QUEUED_PAIRS\<close> pairs, each physical pair
  once; what they compute is stated over the image of the device.
\<close>

section \<open>The gstate contribution of a pair\<close>

text \<open>The newest tag of the right type and size wins.\<close>

fun newest_body :: "tag_type \<Rightarrow> nat \<Rightarrow> tag_entry list \<Rightarrow> byte list" where
  "newest_body ty n [] = replicate n 0"
| "newest_body ty n (e # es) =
     (if tag_type (te_tag e) = ty \<and> length (te_body e) = n then te_body e else newest_body ty n es)"

definition scan_pair_move_state :: "metadata_pair \<Rightarrow> byte list" where
  "scan_pair_move_state pair = newest_body MoveState MOVE_STATE_BODY_SIZE (iter_tags_rev (mp_reader pair))"

definition scan_pair_relocate_state :: "metadata_pair \<Rightarrow> byte list" where
  "scan_pair_relocate_state pair = newest_body RelocateState RELOCATE_STATE_BODY_SIZE (iter_tags_rev (mp_reader pair))"


section \<open>The queue\<close>

text \<open>The buffer of the active block, \<open>if active_is_a { buf_a } else { buf_b }\<close>.\<close>

definition active_is_a :: "block_pair \<Rightarrow> metadata_pair \<Rightarrow> bool" where
  "active_is_a p pair \<longleftrightarrow> active_block pair = bp_a p"

definition source_of :: "bool \<Rightarrow> bufs \<Rightarrow> byte list" where
  "source_of ia bufs = (if ia then fst bufs else snd bufs)"

text \<open>The guard at every enqueue site: a pair off the device is corruption, a physical pair already
  queued is skipped, a full queue is an error.\<close>

definition forest_push :: "'s storage \<Rightarrow> block_pair list \<Rightarrow> block_pair \<Rightarrow> block_pair list result" where
  "forest_push S queue child =
     (if \<not> pair_in_bounds S child then Inl Corrupt
      else if contains_pair queue child then Inr queue
      else if length queue \<ge> MAX_QUEUED_PAIRS then Inl OutOfRange
      else Inr (queue @ [child]))"

fun forest_push_all :: "'s storage \<Rightarrow> block_pair list \<Rightarrow> block_pair list \<Rightarrow> block_pair list result" where
  "forest_push_all S queue [] = Inr queue"
| "forest_push_all S queue (c # cs) = rbind (forest_push S queue c) (\<lambda>queue. forest_push_all S queue cs)"

text \<open>The child a live \<open>DirStruct\<close> slot names.\<close>

definition slot_child :: "byte list \<Rightarrow> slot_offsets \<Rightarrow> block_pair option" where
  "slot_child source_buf s =
     (if struct_kind s = 2 \<and> struct_len s = 8 then Some (decode_pair source_buf (unat (struct_off s))) else None)"

definition slot_children :: "byte list \<Rightarrow> slot_offsets list \<Rightarrow> block_pair list" where
  "slot_children source_buf slots = List.map_filter (slot_child source_buf) slots"

lemma forest_push_length: "forest_push S queue c = Inr queue' \<Longrightarrow> length queue' \<le> max (length queue) MAX_QUEUED_PAIRS"
  by (auto simp: forest_push_def split: if_splits)

lemma forest_push_all_length:
  "forest_push_all S queue cs = Inr queue' \<Longrightarrow> length queue' \<le> max (length queue) MAX_QUEUED_PAIRS"
proof (induction cs arbitrary: queue)
  case (Cons c cs)
  then obtain q where "forest_push S queue c = Inr q" "forest_push_all S q cs = Inr queue'" by auto
  then show ?case using Cons.IH forest_push_length [of S queue c q] by fastforce
qed simp


section \<open>The walks\<close>

text \<open>The references a pair contributes to the queue: \<open>accumulate_gstate\<close> gathers the slots first and
  takes every tail, \<open>collect_live_tree_pairs\<close> takes a hard tail before it gathers.\<close>

definition gstate_refs :: "'s storage \<Rightarrow> block_pair \<Rightarrow> bufs \<Rightarrow> metadata_pair \<Rightarrow> block_pair list \<Rightarrow> block_pair list result" where
  "gstate_refs S p bufs pair queue =
     rbind (gather_live_slots pair) (\<lambda>(slots, cnt).
     rbind (case rd_tail (mp_reader pair) of None \<Rightarrow> Inr queue | Some t \<Rightarrow> forest_push S queue t) (\<lambda>queue.
     forest_push_all S queue (slot_children (source_of (active_is_a p pair) bufs) (take cnt slots))))"

definition tree_refs :: "'s storage \<Rightarrow> block_pair \<Rightarrow> bufs \<Rightarrow> metadata_pair \<Rightarrow> block_pair list \<Rightarrow> block_pair list result" where
  "tree_refs S p bufs pair queue =
     rbind (case hard_next (mp_reader pair) of None \<Rightarrow> Inr queue | Some t \<Rightarrow> forest_push S queue t) (\<lambda>queue.
     rbind (gather_live_slots pair) (\<lambda>(slots, cnt).
     forest_push_all S queue (slot_children (source_of (active_is_a p pair) bufs) (take cnt slots))))"

lemma push_option_length:
  "(case t of None \<Rightarrow> Inr queue | Some t \<Rightarrow> forest_push S queue t) = Inr queue' \<Longrightarrow> length queue' \<le> max (length queue) MAX_QUEUED_PAIRS"
  by (auto dest: forest_push_length split: option.splits)

lemma gstate_refs_length: "gstate_refs S p bufs pair queue = Inr queue' \<Longrightarrow> length queue' \<le> max (length queue) MAX_QUEUED_PAIRS"
  by (fastforce simp: gstate_refs_def dest!: push_option_length forest_push_all_length)

lemma tree_refs_length: "tree_refs S p bufs pair queue = Inr queue' \<Longrightarrow> length queue' \<le> max (length queue) MAX_QUEUED_PAIRS"
  by (fastforce simp: tree_refs_def dest!: push_option_length forest_push_all_length)

definition fold_contribution :: "gstate \<Rightarrow> metadata_pair \<Rightarrow> gstate" where
  "fold_contribution g pair = xor_relocate_body (xor_body g (scan_pair_move_state pair)) (scan_pair_relocate_state pair)"

function gstate_loop ::
  "'s storage \<Rightarrow> block_pair list \<Rightarrow> nat \<Rightarrow> gstate \<Rightarrow> bufs \<Rightarrow> ('s, gstate \<times> bufs) io" where
  "gstate_loop S queue head g bufs =
     (if head < length queue then
        io_bind (fetch_pair S (queue ! head) bufs) (\<lambda>(bufs, pair).
        io_bind (io_lift (gstate_refs S (queue ! head) bufs pair queue)) (\<lambda>queue1.
          gstate_loop S queue1 (head + 1) (fold_contribution g pair) bufs))
      else io_return (g, bufs))"
  by pat_completeness auto

termination
  by (relation "measure (\<lambda>(_, queue, head, _, _). max (length queue) MAX_QUEUED_PAIRS - head)")
    (auto dest!: gstate_refs_length)

declare gstate_loop.simps [simp del]

definition accumulate_gstate :: "'s storage \<Rightarrow> block_pair \<Rightarrow> bufs \<Rightarrow> ('s, gstate \<times> bufs) io" where
  "accumulate_gstate S root bufs = gstate_loop S [root] 0 gstate_ZERO bufs"

function tree_loop :: "'s storage \<Rightarrow> block_pair list \<Rightarrow> nat \<Rightarrow> bufs \<Rightarrow> ('s, block_pair list \<times> bufs) io" where
  "tree_loop S out head bufs =
     (if head < length out then
        io_bind (fetch_pair S (out ! head) bufs) (\<lambda>(bufs, pair).
        io_bind (io_lift (tree_refs S (out ! head) bufs pair out)) (\<lambda>out1. tree_loop S out1 (head + 1) bufs))
      else io_return (out, bufs))"
  by pat_completeness auto

termination
  by (relation "measure (\<lambda>(_, out, head, _). max (length out) MAX_QUEUED_PAIRS - head)")
    (auto dest!: tree_refs_length)

declare tree_loop.simps [simp del]

text \<open>The count is the length of the list.\<close>

definition collect_live_tree_pairs :: "'s storage \<Rightarrow> block_pair \<Rightarrow> bufs \<Rightarrow> ('s, block_pair list \<times> bufs) io" where
  "collect_live_tree_pairs S root bufs = tree_loop S [root] 0 bufs"

fun relocated_twin_in :: "'s storage \<Rightarrow> block_pair list \<Rightarrow> block_pair \<Rightarrow> bufs \<Rightarrow> ('s, block_pair option \<times> bufs) io" where
  "relocated_twin_in S [] stale bufs = io_return (None, bufs)"
| "relocated_twin_in S (t # ts) stale bufs =
     (if t = stale then relocated_twin_in S ts stale bufs
      else case (if bp_a t = bp_a stale \<or> bp_a t = bp_b stale then Some (bp_a t)
                 else if bp_b t = bp_a stale \<or> bp_b t = bp_b stale then Some (bp_b t) else None) of
        None \<Rightarrow> relocated_twin_in S ts stale bufs
      | Some shared \<Rightarrow>
          io_bind (fetch_pair S t bufs) (\<lambda>(bufs, p).
            if active_block p \<noteq> shared then io_return (Some t, bufs) else relocated_twin_in S ts stale bufs))"

text \<open>\<open>steps\<close> counts the fetches already made.\<close>

function predecessor_loop :: "'s storage \<Rightarrow> block_pair \<Rightarrow> nat \<Rightarrow> block_pair \<Rightarrow> bufs \<Rightarrow> ('s, (block_pair \<times> bool) option \<times> bufs) io" where
  "predecessor_loop S tgt steps cur bufs =
     (if steps + 1 > MAX_QUEUED_PAIRS then io_fail OutOfRange
      else io_bind (fetch_pair S cur bufs) (\<lambda>(bufs, p).
        case rd_tail (mp_reader p) of
          Some t \<Rightarrow> if t = tgt then io_return (Some (cur, is_hard_tail (mp_reader p)), bufs)
                   else predecessor_loop S tgt (steps + 1) t bufs
        | None \<Rightarrow> io_return (None, bufs)))"
  by pat_completeness auto

termination
  by (relation "measure (\<lambda>(_, _, steps, _, _). MAX_QUEUED_PAIRS - steps)") auto

declare predecessor_loop.simps [simp del]

definition find_thread_predecessor ::
  "'s storage \<Rightarrow> block_pair \<Rightarrow> block_pair \<Rightarrow> bufs \<Rightarrow> ('s, (block_pair \<times> bool) option \<times> bufs) io" where
  "find_thread_predecessor S root tgt bufs = predecessor_loop S tgt 0 root bufs"

text \<open>The slots of one pair: the id of the entry that points at the target, or the extended queue.\<close>

fun parent_slots ::
  "'s storage \<Rightarrow> byte list \<Rightarrow> block_pair \<Rightarrow> block_pair list \<Rightarrow> nat \<Rightarrow> slot_offsets list \<Rightarrow> (u16 option \<times> block_pair list) result" where
  "parent_slots S source_buf tgt queue i [] = Inr (None, queue)"
| "parent_slots S source_buf tgt queue i (s # ss) =
     (case slot_child source_buf s of
        None \<Rightarrow> parent_slots S source_buf tgt queue (i + 1) ss
      | Some child \<Rightarrow>
          if child = tgt then Inr (Some (of_nat i), queue)
          else rbind (forest_push S queue child) (\<lambda>queue. parent_slots S source_buf tgt queue (i + 1) ss))"

lemma parent_slots_length:
  "parent_slots S src tgt queue i ss = Inr (r, queue') \<Longrightarrow> length queue' \<le> max (length queue) MAX_QUEUED_PAIRS"
proof (induction S src tgt queue i ss rule: parent_slots.induct)
  case (2 S src tgt queue i s ss)
  show ?case
  proof (cases "\<exists>child. slot_child src s = Some child \<and> child \<noteq> tgt")
    case True
    then obtain child q where c: "slot_child src s = Some child" "child \<noteq> tgt" "forest_push S queue child = Inr q"
      "parent_slots S src tgt q (i + 1) ss = Inr (r, queue')" using 2(3) by auto
    have "length queue' \<le> max (length q) MAX_QUEUED_PAIRS" using 2(2) [OF c(1,2,3)] c(4) by simp
    then show ?thesis using forest_push_length [OF c(3)] by simp
  next
    case False
    then show ?thesis using 2 by (cases "slot_child src s") auto
  qed
qed simp

definition parent_refs ::
  "'s storage \<Rightarrow> block_pair \<Rightarrow> block_pair \<Rightarrow> bufs \<Rightarrow> metadata_pair \<Rightarrow> block_pair list \<Rightarrow> (u16 option \<times> block_pair list) result" where
  "parent_refs S tgt p bufs pair queue =
     rbind (gather_live_slots pair) (\<lambda>(slots, cnt).
     rbind (case rd_tail (mp_reader pair) of None \<Rightarrow> Inr queue | Some t \<Rightarrow> forest_push S queue t) (\<lambda>queue.
     parent_slots S (source_of (active_is_a p pair) bufs) tgt queue 0 (take cnt slots)))"

lemma parent_refs_length: "parent_refs S tgt p bufs pair queue = Inr (r, queue') \<Longrightarrow> length queue' \<le> max (length queue) MAX_QUEUED_PAIRS"
  by (fastforce simp: parent_refs_def dest!: push_option_length parent_slots_length)

function parent_loop ::
  "'s storage \<Rightarrow> block_pair \<Rightarrow> block_pair list \<Rightarrow> nat \<Rightarrow> bufs \<Rightarrow> ('s, (block_pair \<times> u16) option \<times> bufs) io" where
  "parent_loop S tgt queue head bufs =
     (if head < length queue then
        io_bind (fetch_pair S (queue ! head) bufs) (\<lambda>(bufs, pair).
        io_bind (io_lift (parent_refs S tgt (queue ! head) bufs pair queue)) (\<lambda>(hit, queue1).
          case hit of Some i \<Rightarrow> io_return (Some (queue ! head, i), bufs)
          | None \<Rightarrow> parent_loop S tgt queue1 (head + 1) bufs))
      else io_return (None, bufs))"
  by pat_completeness auto

termination
  by (relation "measure (\<lambda>(_, _, queue, head, _). max (length queue) MAX_QUEUED_PAIRS - head)")
    (auto dest!: parent_refs_length)

declare parent_loop.simps [simp del]

definition find_parent_in_tree ::
  "'s storage \<Rightarrow> block_pair \<Rightarrow> block_pair \<Rightarrow> bufs \<Rightarrow> ('s, (block_pair \<times> u16) option \<times> bufs) io" where
  "find_parent_in_tree S root tgt bufs =
     (if \<not> bufs_ok S bufs then io_fail GeometryMismatch else parent_loop S tgt [root] 0 bufs)"

fun path_is_strict_ancestor_of :: "byte list list \<Rightarrow> byte list list \<Rightarrow> bool" where
  "path_is_strict_ancestor_of (ac # a) (dc # d) \<longleftrightarrow> ac = dc \<and> path_is_strict_ancestor_of a d"
| "path_is_strict_ancestor_of [] (dc # d) \<longleftrightarrow> True"
| "path_is_strict_ancestor_of _ [] \<longleftrightarrow> False"

definition path_is_strict_ancestor :: "byte list \<Rightarrow> byte list \<Rightarrow> bool" where
  "path_is_strict_ancestor ancestor descendant = path_is_strict_ancestor_of (components ancestor) (components descendant)"

end
