(* ===== verification/Writes.thy ===== *)
theory Writes
  imports Forest Superblocks
begin

text \<open>
  The commit of one operation to a metadata pair (\<open>src/src/fs.rs\<close>, \<open>apply_op_to_pair_inner\<close> and what
  it calls): appending in place, compacting onto the alternate, splitting an overflowing directory
  over \<open>HardTail\<close> continuations, relocating a worn or levelled pair and propagating the new address
  to its parent and thread predecessor.

  A handle \<open>fs\<close> is the source's \<open>Fs\<close> with the device state as its first field. The two scratch
  buffers are arguments and results. Relocation and the commit call each other; the recursion is
  bounded by an explicit number of nested commits (\<open>apply_op_to_pair_inner\<close> below), \<open>None\<close> meaning
  that the bound was reached.
\<close>

section \<open>The handle\<close>

record move_record =
  pm_cur_pair :: block_pair
  pm_cur_id :: u16
  pm_delta :: "byte list"

record 's fs =
  fs_storage :: 's
  fs_superblock :: superblock
  fs_root :: block_pair
  used_cache :: "bitmap option"
  fs_pending_move :: "move_record option"

record inflight =
  in_blocks :: "block_address list"
  in_chain :: "(u32 \<times> u32) option"

definition inflight_NONE :: inflight where
  "inflight_NONE = \<lparr>in_blocks = [], in_chain = None\<rparr>"

definition MAX_BAD_BLOCK_RETRIES :: nat where "MAX_BAD_BLOCK_RETRIES = 8"

definition MAX_SPLIT_CUTS :: nat where "MAX_SPLIT_CUTS = 8"

text \<open>Device computations under a handle, the allocator on its device and cache.\<close>

definition on_storage :: "('s, 'a) io \<Rightarrow> ('s fs, 'a) io" where
  "on_storage m = (\<lambda>fs. case m (fs_storage fs) of (st, r) \<Rightarrow> (fs\<lparr>fs_storage := st\<rparr>, r))"

definition fs_alloc :: "'s storage \<Rightarrow> block_address list \<Rightarrow> (u32 \<times> u32) option \<Rightarrow> byte list \<Rightarrow> ('s fs, block_address \<times> byte list) io" where
  "fs_alloc S excluded chain buf = (\<lambda>fs.
     case alloc_one_block_cached_single_buf S (fs_root fs) excluded chain buf (fs_storage fs, used_cache fs) of
       ((st, cache), r) \<Rightarrow> (fs\<lparr>fs_storage := st, used_cache := cache\<rparr>, r))"

definition invalidate_alloc_cache :: "('s fs, unit) io" where
  "invalidate_alloc_cache = (\<lambda>fs. (fs\<lparr>used_cache := None\<rparr>, Inr ()))"

definition with_root :: "(block_pair \<Rightarrow> ('s fs, 'a) io) \<Rightarrow> ('s fs, 'a) io" where
  "with_root m = (\<lambda>fs. m (fs_root fs) fs)"


section \<open>Programming with read back\<close>

text \<open>The region after the read back, and whether it matches.\<close>

definition verify_programmed :: "'s storage \<Rightarrow> block_address \<Rightarrow> nat \<Rightarrow> byte list \<Rightarrow> 's \<Rightarrow> 's \<times> byte list \<times> bool" where
  "verify_programmed S block off region st =
     (let expected = crc_update crc_INIT region
      in case st_read_device S st (as_u32 block) (of_nat off) region of
           (st', region', ok) \<Rightarrow> (st', region', ok \<and> crc_update crc_INIT region' = expected))"

definition verify_programmed_bytes ::
  "'s storage \<Rightarrow> block_address \<Rightarrow> nat \<Rightarrow> byte list \<Rightarrow> byte list \<Rightarrow> 's \<Rightarrow> 's \<times> byte list \<times> bool" where
  "verify_programmed_bytes S block off expected scratch st =
     (let fin = off + length expected; lo = off - off mod READ_SIZE S; hi = next_multiple_of fin (READ_SIZE S)
      in if hi > BLOCK_SIZE S \<or> hi > length scratch then (st, scratch, False)
         else case st_read_device S st (as_u32 block) (of_nat lo) (slice scratch lo (hi - lo)) of
           (st', r, ok) \<Rightarrow> (let scratch' = splice scratch lo r
              in (st', scratch', ok \<and> slice scratch' off (length expected) = expected)))"

text \<open>Erase, program \<open>buf[..n]\<close> at the start, read it back: the buffer afterwards and whether all
  three succeeded.\<close>

definition rewrite_block :: "'s storage \<Rightarrow> block_address \<Rightarrow> byte list \<Rightarrow> nat \<Rightarrow> ('s, byte list \<times> bool) io" where
  "rewrite_block S block buf n = (\<lambda>st.
     case st_erase S st (as_u32 block) of
       (st, False) \<Rightarrow> (st, Inr (buf, False))
     | (st, True) \<Rightarrow>
         (case st_program S st (as_u32 block) 0 (take n buf) of
            (st, False) \<Rightarrow> (st, Inr (buf, False))
          | (st, True) \<Rightarrow>
              (case verify_programmed S block 0 (take n buf) st of
                 (st, region, ok) \<Rightarrow> (st, Inr (region @ drop n buf, ok)))))"

definition erase_ok :: "'s storage \<Rightarrow> block_address \<Rightarrow> ('s, bool) io" where
  "erase_ok S block = (\<lambda>st. case st_erase S st (as_u32 block) of (st, ok) \<Rightarrow> (st, Inr ok))"

definition build_of :: "bool \<Rightarrow> bufs \<Rightarrow> byte list" where
  "build_of ia bufs = (if ia then snd bufs else fst bufs)"

definition with_build :: "bool \<Rightarrow> bufs \<Rightarrow> byte list \<Rightarrow> bufs" where
  "with_build ia bufs b = (if ia then (fst bufs, b) else (b, snd bufs))"

definition with_source :: "bool \<Rightarrow> bufs \<Rightarrow> byte list \<Rightarrow> bufs" where
  "with_source ia bufs b = (if ia then (b, snd bufs) else (fst bufs, b))"

text \<open>\<open>self.storage.read(active_addr.as_u32(), 0, source_buf)\<close>.\<close>

definition reread_source :: "'s storage \<Rightarrow> block_address \<Rightarrow> bool \<Rightarrow> bufs \<Rightarrow> ('s fs, bufs) io" where
  "reread_source S active_addr ia bufs =
     io_bind (on_storage (dev_read S (as_u32 active_addr) 0 (source_of ia bufs))) (\<lambda>b. io_return (with_source ia bufs b))"


section \<open>Relocation\<close>

definition should_relocate :: "block_pair \<Rightarrow> block_pair \<Rightarrow> u32 \<Rightarrow> int \<Rightarrow> bool" where
  "should_relocate pair_addr root new_revision cycles =
     (if pair_addr = root then False
      else if cycles \<le> 0 then False
      else (let m = (word_of_int cycles + 1) OR 1 in new_revision mod m = 0))"

definition replace_block :: "block_pair \<Rightarrow> block_address \<Rightarrow> block_address \<Rightarrow> block_pair" where
  "replace_block p victim fresh =
     pair_new (if bp_a p = victim then fresh else bp_a p) (if bp_b p = victim then fresh else bp_b p)"

definition xor_bytes :: "byte list \<Rightarrow> byte list \<Rightarrow> byte list" where
  "xor_bytes = map2 (XOR)"

definition combine_rs :: "byte list option \<Rightarrow> byte list option \<Rightarrow> byte list option" where
  "combine_rs rs event =
     (case (rs, event) of
        (None, None) \<Rightarrow> None
      | (Some a, None) \<Rightarrow> Some a
      | (None, Some b) \<Rightarrow> Some b
      | (Some a, Some b) \<Rightarrow> (let out = xor_bytes a b in if out = replicate RELOCATE_STATE_BODY_SIZE 0 then None else Some out))"

text \<open>Filling a fixed array of excluded blocks.\<close>

fun push_blocks :: "nat \<Rightarrow> block_address list \<Rightarrow> block_address list \<Rightarrow> block_address list result" where
  "push_blocks cap xs [] = Inr xs"
| "push_blocks cap xs (b # bs) = (if length xs \<ge> cap then Inl OutOfRange else push_blocks cap (xs @ [b]) bs)"

text \<open>What a commit rebuilds: the revision, the gathered slots, the operation.\<close>

record rebuild =
  rb_revision :: u32
  rb_slots :: "slot_offsets list"
  rb_count :: nat
  rb_op :: write_op

definition build_range ::
  "'s storage \<Rightarrow> bool \<Rightarrow> u32 \<Rightarrow> rebuild \<Rightarrow> nat \<Rightarrow> nat \<Rightarrow> byte list option \<Rightarrow> byte list option \<Rightarrow>
   (block_pair \<times> bool) option \<Rightarrow> bufs \<Rightarrow> (byte list \<times> nat) result" where
  "build_range S ia rev0 rb lo hi ms rs link bufs =
     build_compact_commit (build_of ia bufs) (source_of ia bufs) rev0 (rb_slots rb) (rb_count rb) (rb_op rb) lo hi
       (PROG_SIZE S) (BLOCK_SIZE S) ms rs link"

definition relocate_cap :: nat where
  "relocate_cap = 2 + 2 + MAX_QUEUED_PAIRS + 2 * MAX_SPLIT_CUTS + 2 * MAX_BAD_BLOCK_RETRIES"

function relocate_loop ::
  "'s storage \<Rightarrow> block_pair \<Rightarrow> block_address \<Rightarrow> bool \<Rightarrow> rebuild \<Rightarrow> nat \<Rightarrow> nat \<Rightarrow> byte list option \<Rightarrow> byte list option \<Rightarrow>
   (block_pair \<times> bool) option \<Rightarrow> (u32 \<times> u32) option \<Rightarrow> block_address list \<Rightarrow> block_address option \<Rightarrow> nat \<Rightarrow> bufs \<Rightarrow>
   ('s fs, block_pair \<times> bufs) io" where
  "relocate_loop S pair_addr victim ia rb lo hi ms rs link chain excluded seed tries bufs =
     io_bind (case seed of Some s \<Rightarrow> io_return (s, build_of ia bufs)
              | None \<Rightarrow> fs_alloc S excluded chain (build_of ia bufs)) (\<lambda>(fresh, bld).
       let bufs1 = with_build ia bufs bld;
           new_pair = replace_block pair_addr victim fresh;
           combined = combine_rs rs (Some (build_relocate_body pair_addr new_pair))
       in io_bind (io_lift (build_range S ia (rb_revision rb) rb lo hi ms combined link bufs1)) (\<lambda>(bld, new_end).
          io_bind (on_storage (rewrite_block S fresh bld new_end)) (\<lambda>(bld, ok).
          io_bind invalidate_alloc_cache (\<lambda>_.
            let bufs2 = with_build ia bufs1 bld
            in if ok then io_return (new_pair, bufs2)
               else if tries + 1 \<ge> MAX_BAD_BLOCK_RETRIES \<or> length excluded \<ge> relocate_cap then io_fail Io
               else relocate_loop S pair_addr victim ia rb lo hi ms rs link chain (excluded @ [fresh]) None (tries + 1) bufs2))))"
  by pat_completeness auto

termination
  by (relation "measure (\<lambda>(S, pair_addr, victim, ia, rb, lo, hi, ms, rs, link, chain, excluded, seed, tries, bufs).
        MAX_BAD_BLOCK_RETRIES - tries)") auto

declare relocate_loop.simps [simp del]

definition relocate_compact_to_fresh ::
  "'s storage \<Rightarrow> block_pair \<Rightarrow> block_address \<Rightarrow> bool \<Rightarrow> rebuild \<Rightarrow> nat \<Rightarrow> nat \<Rightarrow> byte list option \<Rightarrow> byte list option \<Rightarrow>
   (block_pair \<times> bool) option \<Rightarrow> inflight \<Rightarrow> block_address option \<Rightarrow> bufs \<Rightarrow> ('s fs, block_pair \<times> bufs) io" where
  "relocate_compact_to_fresh S pair_addr victim ia rb lo hi ms rs link infl seed bufs =
     io_bind (io_lift (push_blocks relocate_cap [bp_a pair_addr, bp_b pair_addr] (in_blocks infl))) (\<lambda>excluded.
       relocate_loop S pair_addr victim ia rb lo hi ms rs link (in_chain infl) excluded seed 0 bufs)"


section \<open>Splitting\<close>

definition split_cap :: nat where
  "split_cap = 2 + MAX_QUEUED_PAIRS + 2 * MAX_SPLIT_CUTS + MAX_BAD_BLOCK_RETRIES + 1"

text \<open>One continuation pair: the blocks excluded on return include the worn candidates met.\<close>

function program_split_continuation ::
  "'s storage \<Rightarrow> bool \<Rightarrow> rebuild \<Rightarrow> nat \<Rightarrow> nat \<Rightarrow> (block_pair \<times> bool) option \<Rightarrow> (u32 \<times> u32) option \<Rightarrow>
   block_address list \<Rightarrow> nat \<Rightarrow> bufs \<Rightarrow> ('s fs, block_pair \<times> block_address list \<times> nat \<times> bufs) io" where
  "program_split_continuation S ia rb lo hi link chain excluded tries bufs =
     io_bind (fs_alloc S excluded chain (build_of ia bufs)) (\<lambda>(ca, bld).
       if length excluded \<ge> split_cap then io_fail OutOfRange
       else io_bind (fs_alloc S (excluded @ [ca]) chain bld) (\<lambda>(cb, bld).
         let bufs1 = with_build ia bufs bld
         in io_bind (io_lift (build_range S ia 1 rb lo hi None None link bufs1)) (\<lambda>(bld, cont_len).
            io_bind (on_storage (rewrite_block S ca bld cont_len)) (\<lambda>(bld, a_ok).
            io_bind (if a_ok then on_storage (erase_ok S cb) else io_return False) (\<lambda>b_ok.
              let bufs2 = with_build ia bufs1 bld
              in if a_ok \<and> b_ok then io_return (pair_new ca cb, excluded, tries, bufs2)
                 else io_bind invalidate_alloc_cache (\<lambda>_.
                   if tries + 1 \<ge> MAX_BAD_BLOCK_RETRIES \<or> length excluded + 1 \<ge> split_cap then io_fail Io
                   else program_split_continuation S ia rb lo hi link chain (excluded @ [if a_ok then cb else ca])
                          (tries + 1) bufs2))))))"
  by pat_completeness auto

termination
  by (relation "measure (\<lambda>(S, ia, rb, lo, hi, link, chain, excluded, tries, bufs). MAX_BAD_BLOCK_RETRIES - tries)") auto

declare program_split_continuation.simps [simp del]

function cut_loop ::
  "'s storage \<Rightarrow> bool \<Rightarrow> rebuild \<Rightarrow> nat \<Rightarrow> nat \<Rightarrow> (block_pair \<times> bool) option \<Rightarrow> (u32 \<times> u32) option \<Rightarrow>
   block_address list \<Rightarrow> nat \<Rightarrow> nat \<Rightarrow> nat \<Rightarrow> bufs \<Rightarrow> ('s fs, block_pair \<times> nat \<times> block_address list \<times> bufs) io" where
  "cut_loop S ia rb start fin pending chain excluded cuts max_cuts tries bufs =
     io_bind (program_split_continuation S ia rb start fin pending chain excluded tries bufs) (\<lambda>(cont, excluded1, tries1, bufs1).
       if length excluded1 + 2 > split_cap then io_fail OutOfRange
       else
         let excluded2 = excluded1 @ [bp_a cont, bp_b cont]
         in if cuts + 1 \<ge> max_cuts then io_return (cont, start, excluded2, bufs1)
            else io_bind (io_lift (compute_split_index S (source_of ia bufs1) (rb_slots rb) (rb_count rb) (rb_op rb) 0 start)) (\<lambda>nxt.
              if nxt = 0 then io_return (cont, start, excluded2, bufs1)
              else cut_loop S ia rb nxt start (Some (cont, True)) chain excluded2 (cuts + 1) max_cuts tries1 bufs1))"
  by pat_completeness auto

termination
  by (relation "measure (\<lambda>(S, ia, rb, cut, fin, pending, chain, excluded, cuts, max_cuts, tries, bufs). max_cuts - cuts)") auto

declare cut_loop.simps [simp del]

definition dev_sync_fs :: "'s storage \<Rightarrow> ('s fs, unit) io" where
  "dev_sync_fs S = on_storage (dev_sync S)"

definition finish_split_lower_half ::
  "'s storage \<Rightarrow> block_pair \<Rightarrow> block_address \<Rightarrow> bool \<Rightarrow> rebuild \<Rightarrow> nat \<Rightarrow> block_pair \<Rightarrow> byte list option \<Rightarrow> byte list option \<Rightarrow>
   inflight \<Rightarrow> block_address list \<Rightarrow> bufs \<Rightarrow> ('s fs, block_pair option \<times> bufs) io" where
  "finish_split_lower_half S pair_addr alternate_addr ia rb split cont ms rs infl excluded_conts bufs =
     io_bind (dev_sync_fs S) (\<lambda>_.
     io_bind (io_lift (build_range S ia (rb_revision rb) rb 0 split ms rs (Some (cont, True)) bufs)) (\<lambda>(bld, low_len).
     io_bind (on_storage (rewrite_block S alternate_addr bld low_len)) (\<lambda>(bld, low_ok).
       let bufs1 = with_build ia bufs bld
       in if low_ok then io_bind invalidate_alloc_cache (\<lambda>_. io_return (None, bufs1))
          else with_root (\<lambda>root.
            if pair_addr = root then io_fail Io
            else io_bind (relocate_compact_to_fresh S pair_addr alternate_addr ia rb 0 split ms rs (Some (cont, True))
                           \<lparr>in_blocks = excluded_conts, in_chain = in_chain infl\<rparr> None bufs1) (\<lambda>(new_pair, bufs2).
                 io_bind invalidate_alloc_cache (\<lambda>_. io_return (Some new_pair, bufs2)))))))"

definition split_directory_pair ::
  "'s storage \<Rightarrow> block_pair \<Rightarrow> block_address \<Rightarrow> block_address \<Rightarrow> bool \<Rightarrow> rebuild \<Rightarrow> nat \<Rightarrow> nat \<Rightarrow> nat \<Rightarrow>
   (block_pair \<times> bool) option \<Rightarrow> byte list option \<Rightarrow> byte list option \<Rightarrow> inflight \<Rightarrow> bufs \<Rightarrow>
   ('s fs, block_pair option \<times> bufs) io" where
  "split_directory_pair S pair_addr active_addr alternate_addr ia rb split tot max_cuts inherited_tail ms rs infl bufs =
     io_bind (io_lift (push_blocks split_cap [active_addr, alternate_addr] (in_blocks infl))) (\<lambda>excluded.
     io_bind (cut_loop S ia rb split tot inherited_tail (in_chain infl) excluded 0 max_cuts 0 bufs) (\<lambda>(cont, fin, excluded1, bufs1).
       finish_split_lower_half S pair_addr alternate_addr ia rb fin cont ms rs infl excluded1 bufs1))"

section \<open>Compaction\<close>

text \<open>A commit that the recursion calls again: the operation, the move and relocate deltas, the tail
  override, the blocks in flight.\<close>

type_synonym 's committer =
  "block_pair \<Rightarrow> write_op \<Rightarrow> byte list option \<Rightarrow> byte list option \<Rightarrow> (block_pair \<times> bool) option \<Rightarrow> inflight \<Rightarrow> bufs \<Rightarrow>
   's fs \<Rightarrow> ('s fs \<times> bufs result) option"

text \<open>How many continuations a split at \<open>split\<close> may cut, \<open>None\<close> when it must not split: the pairs
  still admitted to the forest and, for the root, the free blocks above an eighth of the device.\<close>

definition split_allowance ::
  "'s storage \<Rightarrow> block_pair \<Rightarrow> block_address \<Rightarrow> bool \<Rightarrow> nat \<Rightarrow> bufs \<Rightarrow> ('s fs, nat option \<times> bufs) io" where
  "split_allowance S pair_addr active_addr ia split bufs =
     (if split = 0 then io_return (None, bufs)
      else with_root (\<lambda>root.
        io_bind (on_storage (collect_live_tree_pairs S root bufs)) (\<lambda>(tree, bufs1).
        io_bind (reread_source S active_addr ia bufs1) (\<lambda>bufs2.
          if length tree \<ge> MAX_QUEUED_PAIRS then io_return (None, bufs2)
          else
            let cuts = min MAX_SPLIT_CUTS (MAX_QUEUED_PAIRS - length tree)
            in if pair_addr \<noteq> root then io_return (Some cuts, bufs2)
               else io_bind (on_storage (scan_used_blocks S root bitmap_EMPTY (fst bufs2) (snd bufs2))) (\<lambda>(used, ba, bb).
                    io_bind (reread_source S active_addr ia (ba, bb)) (\<lambda>bufs3.
                      let free = length (filter (\<lambda>b. \<not> bitmap_is_set used b) (addresses (BLOCK_COUNT S)));
                          floor = unat (BLOCK_COUNT S) div 8
                      in io_return (if free \<le> floor then None else Some (min cuts ((free - floor + 1) div 2)), bufs3)))))))"

text \<open>The fresh block of a wear levelling relocation, with the new address.\<close>

definition wear_target ::
  "'s storage \<Rightarrow> block_pair \<Rightarrow> block_address \<Rightarrow> block_address \<Rightarrow> bool \<Rightarrow> u32 \<Rightarrow> inflight \<Rightarrow> bufs \<Rightarrow>
   ('s fs, (block_address \<times> block_pair) option \<times> bufs) io" where
  "wear_target S pair_addr active_addr alternate_addr ia new_revision infl bufs =
     with_root (\<lambda>root.
       if should_relocate pair_addr root new_revision (BLOCK_CYCLES S) then
         io_bind (io_lift (push_blocks (2 + MAX_QUEUED_PAIRS) [active_addr, alternate_addr] (in_blocks infl))) (\<lambda>excluded.
         io_bind (fs_alloc S excluded (in_chain infl) (build_of ia bufs)) (\<lambda>(fresh, bld).
           io_return (Some (fresh, replace_block pair_addr alternate_addr fresh), with_build ia bufs bld)))
       else io_return (None, bufs))"

text \<open>The whole live set onto the alternate, then onto the fresh block when wear levelling fired. The
  boolean asks the caller to cancel the abandoned relocation.\<close>

datatype compacted = InPlace | Moved block_pair | Abandoned "byte list"

definition compact_whole ::
  "'s storage \<Rightarrow> block_pair \<Rightarrow> block_address \<Rightarrow> block_address \<Rightarrow> bool \<Rightarrow> rebuild \<Rightarrow> nat \<Rightarrow> byte list option \<Rightarrow> byte list option \<Rightarrow>
   (block_pair \<times> bool) option \<Rightarrow> inflight \<Rightarrow> bufs \<Rightarrow> ('s fs, compacted \<times> bufs) io" where
  "compact_whole S pair_addr active_addr alternate_addr ia rb tot ms rs link infl bufs =
     io_bind (wear_target S pair_addr active_addr alternate_addr ia (rb_revision rb) infl bufs) (\<lambda>(fresh_opt, bufs1).
       let event = map_option (\<lambda>(_, new_pair). build_relocate_body pair_addr new_pair) fresh_opt
       in io_bind (io_lift (build_range S ia (rb_revision rb) rb 0 tot ms (combine_rs rs event) link bufs1)) (\<lambda>(bld, new_end).
          io_bind (on_storage (rewrite_block S alternate_addr bld new_end)) (\<lambda>(bld, alt_write_ok).
            let bufs2 = with_build ia bufs1 bld
            in if \<not> alt_write_ok then
                 with_root (\<lambda>root.
                   if pair_addr = root then io_fail Io
                   else io_bind (relocate_compact_to_fresh S pair_addr alternate_addr ia rb 0 tot ms rs link infl
                                  (map_option fst fresh_opt) bufs2) (\<lambda>(new_pair, bufs3). io_return (Moved new_pair, bufs3)))
               else
                 (case fresh_opt of
                    None \<Rightarrow> io_return (InPlace, bufs2)
                  | Some (fresh, new_pair) \<Rightarrow>
                      io_bind (on_storage (rewrite_block S fresh bld new_end)) (\<lambda>(bld, fresh_write_ok).
                        io_return (if fresh_write_ok then Moved new_pair else Abandoned (build_relocate_body pair_addr new_pair),
                                   with_build ia bufs2 bld))))))"

definition finish_compact ::
  "'s committer \<Rightarrow> block_pair \<Rightarrow> inflight \<Rightarrow> compacted \<times> bufs \<Rightarrow> 's fs \<Rightarrow> ('s fs \<times> (block_pair option \<times> bufs) result) option" where
  "finish_compact again pair_addr infl = (\<lambda>(c, bufs).
     case c of
       InPlace \<Rightarrow> olift (io_return (None, bufs))
     | Moved new_pair \<Rightarrow> olift (io_return (Some new_pair, bufs))
     | Abandoned body \<Rightarrow>
         obind (again pair_addr OpNoop None (Some body) None infl bufs) (\<lambda>bufs1. olift (io_return (None, bufs1))))"

text \<open>A split that finds no free block (\<open>OutOfRange\<close>) degrades to the compaction of one block, after
  the source was read again; the build buffer is filled before its next use.\<close>

definition compact_and_program ::
  "'s storage \<Rightarrow> 's committer \<Rightarrow> block_pair \<Rightarrow> block_address \<Rightarrow> block_address \<Rightarrow> bool \<Rightarrow> rebuild \<Rightarrow> byte list option \<Rightarrow>
   byte list option \<Rightarrow> (block_pair \<times> bool) option \<Rightarrow> inflight \<Rightarrow> block_address option \<Rightarrow> bufs \<Rightarrow>
   's fs \<Rightarrow> ('s fs \<times> (block_pair option \<times> bufs) result) option" where
  "compact_and_program S again pair_addr active_addr alternate_addr ia rb ms rs link infl forced_victim bufs =
     (let tot = rb_count rb + (if op_adds_entry (rb_op rb) then 1 else 0);
          whole = (\<lambda>bufs. obind (olift (compact_whole S pair_addr active_addr alternate_addr ia rb tot ms rs link infl bufs))
                             (finish_compact again pair_addr infl))
      in case forced_victim of
           Some victim \<Rightarrow>
             olift (with_root (\<lambda>root.
               if pair_addr = root then io_fail Io
               else io_bind (relocate_compact_to_fresh S pair_addr victim ia rb 0 tot ms rs link infl None bufs) (\<lambda>(new_pair, bufs1).
                    io_return (Some new_pair, bufs1))))
         | None \<Rightarrow>
             obind (olift (io_lift (compute_split_index S (source_of ia bufs) (rb_slots rb) (rb_count rb) (rb_op rb) 0 tot))) (\<lambda>split.
             obind (olift (split_allowance S pair_addr active_addr ia split bufs)) (\<lambda>(cuts, bufs1).
               case cuts of
                 None \<Rightarrow> whole bufs1
               | Some max_cuts \<Rightarrow> (\<lambda>fs.
                   case split_directory_pair S pair_addr active_addr alternate_addr ia rb split tot max_cuts link ms rs infl bufs1 fs of
                     (fs1, Inr res) \<Rightarrow> Some (fs1, Inr res)
                   | (fs1, Inl OutOfRange) \<Rightarrow> obind (olift (reread_source S active_addr ia bufs1)) whole fs1
                   | (fs1, Inl e) \<Rightarrow> Some (fs1, Inl e)))))"


section \<open>Propagating a new address\<close>

definition remap_pending :: "block_pair \<Rightarrow> block_pair \<Rightarrow> ('s fs, unit) io" where
  "remap_pending old_pair new_pair = (\<lambda>fs.
     (fs\<lparr>fs_pending_move := map_option (\<lambda>pm. if pm_cur_pair pm = old_pair then pm\<lparr>pm_cur_pair := new_pair\<rparr> else pm) (fs_pending_move fs)\<rparr>,
      Inr ()))"

definition propagate_relocation ::
  "'s storage \<Rightarrow> 's committer \<Rightarrow> block_pair \<Rightarrow> block_pair \<Rightarrow> inflight \<Rightarrow> bufs \<Rightarrow> 's fs \<Rightarrow> ('s fs \<times> bufs result) option" where
  "propagate_relocation S again old_pair new_pair infl bufs = (\<lambda>fs.
     if old_pair = fs_root fs then Some (fs, Inr bufs)
     else obind (olift (remap_pending old_pair new_pair)) (\<lambda>_.
       let relocate_body = build_relocate_body old_pair new_pair;
           fresh = (if bp_a old_pair = bp_a new_pair then bp_b new_pair else bp_a new_pair)
       in obind (olift (io_lift (push_blocks MAX_QUEUED_PAIRS [] (in_blocks infl @ [fresh])))) (\<lambda>next_inflight.
          let infl1 = \<lparr>in_blocks = next_inflight, in_chain = in_chain infl\<rparr>
          in obind (olift (with_root (\<lambda>root. on_storage (find_thread_predecessor S root old_pair bufs)))) (\<lambda>(pred, bufs1).
             obind (olift (with_root (\<lambda>root. on_storage (find_parent_in_tree S root old_pair bufs1)))) (\<lambda>(parent, bufs2).
               case parent of
                 Some (parent_pair, parent_id) \<Rightarrow>
                   obind (again parent_pair (OpUpdateDirStruct parent_id new_pair) None (Some relocate_body)
                            (case pred of Some (p, is_hard) \<Rightarrow> if p = parent_pair then Some (new_pair, is_hard) else None | None \<Rightarrow> None)
                            infl1 bufs2) (\<lambda>bufs3.
                     case pred of
                       Some (pred_pair, is_hard) \<Rightarrow>
                         if pred_pair \<noteq> parent_pair
                         then again pred_pair OpNoop None None (Some (new_pair, is_hard)) inflight_NONE bufs3
                         else olift (io_return bufs3)
                     | None \<Rightarrow> olift (io_return bufs3))
               | None \<Rightarrow>
                   (case pred of
                      None \<Rightarrow> olift (io_fail Corrupt)
                    | Some (pred_pair, is_hard) \<Rightarrow>
                        again pred_pair OpNoop None (Some relocate_body) (Some (new_pair, is_hard)) infl1 bufs2))))) fs)"


section \<open>The commit\<close>

text \<open>What the first parse of the pair captures.\<close>

record captured =
  cp_pair :: metadata_pair
  cp_ia :: bool
  cp_slots :: "slot_offsets list"
  cp_count :: nat
  cp_ms :: "byte list"
  cp_rs :: "byte list"

definition capture :: "'s storage \<Rightarrow> block_pair \<Rightarrow> bufs \<Rightarrow> ('s, bufs \<times> captured) io" where
  "capture S pair_addr bufs =
     io_bind (fetch_pair S pair_addr bufs) (\<lambda>(bufs, pair).
     io_bind (io_lift (gather_live_slots pair)) (\<lambda>(slots, cnt).
       io_return (bufs, \<lparr>cp_pair = pair, cp_ia = active_is_a pair_addr pair, cp_slots = slots, cp_count = cnt,
                         cp_ms = scan_pair_move_state pair, cp_rs = scan_pair_relocate_state pair\<rparr>)))"

definition clears_tail :: "(block_pair \<times> bool) option \<Rightarrow> bool" where
  "clears_tail new_tail = (case new_tail of Some (p, _) \<Rightarrow> pair_is_null p | None \<Rightarrow> False)"

definition commit_size :: "write_op \<Rightarrow> byte list option \<Rightarrow> byte list option \<Rightarrow> (block_pair \<times> bool) option \<Rightarrow> nat" where
  "commit_size op ms_delta rs_delta new_tail =
     op_dsize_of op + (if ms_delta = None then 0 else 4 + MOVE_STATE_BODY_SIZE) +
     (if rs_delta = None then 0 else 4 + RELOCATE_STATE_BODY_SIZE) + (if new_tail = None then 0 else 4 + 8)"

definition can_append :: "'s storage \<Rightarrow> captured \<Rightarrow> write_op \<Rightarrow> byte list option \<Rightarrow> byte list option \<Rightarrow> (block_pair \<times> bool) option \<Rightarrow> bool" where
  "can_append S cp op ms_delta rs_delta new_tail =
     (let r = mp_reader (cp_pair cp)
      in rd_erased r \<and> committed_end r mod PROG_SIZE S = 0 \<and>
         committed_end r + commit_size op ms_delta rs_delta new_tail \<le> BLOCK_SIZE S \<and> \<not> clears_tail new_tail)"

text \<open>The append in place: whether it is durable and verified, and the active buffer it leaves.\<close>

definition try_append ::
  "'s storage \<Rightarrow> captured \<Rightarrow> write_op \<Rightarrow> byte list option \<Rightarrow> byte list option \<Rightarrow> (block_pair \<times> bool) option \<Rightarrow> bufs \<Rightarrow>
   ('s, bufs \<times> bool) io" where
  "try_append S cp op ms_delta rs_delta new_tail bufs =
     (let r = mp_reader (cp_pair cp); ia = cp_ia cp; start = committed_end r; addr = active_block (cp_pair cp)
      in io_bind (io_lift (append_commit (source_of ia bufs) start (next_ptag r) op
                    (map_option (xor_bytes (cp_ms cp)) ms_delta) (map_option (xor_bytes (cp_rs cp)) rs_delta)
                    new_tail (PROG_SIZE S) (BLOCK_SIZE S))) (\<lambda>c. (\<lambda>st.
           let region = slice (cm_buf c) start (bytes_written c - start)
           in case st_program S st (as_u32 addr) (of_nat start) region of
                (st1, False) \<Rightarrow> (st1, Inr (with_source ia bufs (cm_buf c), False))
              | (st1, True) \<Rightarrow>
                  (case verify_programmed S addr start region st1 of
                     (st2, region', ok) \<Rightarrow> (st2, Inr (with_source ia bufs (splice (cm_buf c) start region'), ok))))))"

text \<open>The net gstate of a compaction, an all zero total dropped.\<close>

definition net_body :: "nat \<Rightarrow> byte list \<Rightarrow> byte list option \<Rightarrow> byte list option" where
  "net_body n existing delta =
     (let net = (case delta of None \<Rightarrow> existing | Some d \<Rightarrow> xor_bytes existing d)
      in if net = replicate n 0 then None else Some net)"

definition apply_body :: "'s storage \<Rightarrow> 's committer \<Rightarrow> 's committer" where
  "apply_body S again pair_addr op ms_delta rs_delta new_tail infl bufs =
     obind (olift (on_storage (capture S pair_addr bufs))) (\<lambda>(bufs, cp).
       let pair = cp_pair cp; r = mp_reader pair; appendable = can_append S cp op ms_delta rs_delta new_tail
       in obind (olift (if appendable then on_storage (try_append S cp op ms_delta rs_delta new_tail bufs) else io_return (bufs, False)))
            (\<lambda>(bufs, did_append).
          obind (if did_append then olift (io_return bufs)
                 else obind (compact_and_program S again pair_addr (active_block pair) (alternate_block pair) (cp_ia cp)
                        \<lparr>rb_revision = revision r + 1, rb_slots = cp_slots cp, rb_count = cp_count cp, rb_op = op\<rparr>
                        (net_body MOVE_STATE_BODY_SIZE (cp_ms cp) ms_delta) (net_body RELOCATE_STATE_BODY_SIZE (cp_rs cp) rs_delta)
                        (case new_tail of Some t \<Rightarrow> Some t | None \<Rightarrow> map_option (\<lambda>t. (t, is_hard_tail r)) (rd_tail r))
                        infl (if appendable then Some (active_block pair) else None) bufs) (\<lambda>(relocated, bufs).
                      case relocated of None \<Rightarrow> olift (io_return bufs)
                      | Some new_pair \<Rightarrow> propagate_relocation S again pair_addr new_pair infl bufs))
            (\<lambda>bufs. obind (olift (dev_sync_fs S)) (\<lambda>_. olift (io_return bufs)))))"

primrec apply_op_to_pair_inner :: "nat \<Rightarrow> 's storage \<Rightarrow> 's committer" where
  "apply_op_to_pair_inner 0 S = (\<lambda>pair_addr op ms rs new_tail infl bufs fs. None)"
| "apply_op_to_pair_inner (Suc n) S = apply_body S (apply_op_to_pair_inner n S)"

definition apply_op_to_pair_with_movestate ::
  "nat \<Rightarrow> 's storage \<Rightarrow> block_pair \<Rightarrow> write_op \<Rightarrow> byte list option \<Rightarrow> bufs \<Rightarrow> 's fs \<Rightarrow> ('s fs \<times> bufs result) option" where
  "apply_op_to_pair_with_movestate n S pair_addr op ms bufs =
     apply_op_to_pair_inner n S pair_addr op ms None None inflight_NONE bufs"

definition apply_op_to_pair :: "nat \<Rightarrow> 's storage \<Rightarrow> block_pair \<Rightarrow> write_op \<Rightarrow> bufs \<Rightarrow> 's fs \<Rightarrow> ('s fs \<times> bufs result) option" where
  "apply_op_to_pair n S pair_addr op bufs = apply_op_to_pair_with_movestate n S pair_addr op None bufs"

definition update_inline_at_id ::
  "nat \<Rightarrow> 's storage \<Rightarrow> block_pair \<Rightarrow> u16 \<Rightarrow> byte list \<Rightarrow> bufs \<Rightarrow> 's fs \<Rightarrow> ('s fs \<times> bufs result) option" where
  "update_inline_at_id n S parent i content bufs = apply_op_to_pair n S parent (OpUpdate i content) bufs"

end
