(* ===== verification/Applied.thy ===== *)
theory Applied
  imports Writes
begin

text \<open>
  What the commit of one operation (\<open>apply_op_to_pair_inner\<close>, src/fs.rs) means on a device that does
  what it is told.  \<open>pair_view\<close> is the abstract content of a metadata pair: its directory, its own
  tail, and its share of the move state and of the superblock's relocation state; \<open>commit_view\<close> is the
  effect of a commit on it.  \<open>reliable_flash\<close> is the contract of such a device, discharged for the RAM
  device of the tests.  The operation then either fails without reaching the directory or leaves the
  pair with exactly the view the operation means, whether it was appended, compacted in place or split;
  and a commit that fits behind the log is appended, without touching the other block.  The last part
  is about power loss: an append or a compaction cut short leaves the old view in place.
\<close>

section \<open>Reliable devices\<close>

text \<open>A device none of whose legal calls fails and whose \<open>read_device\<close> answers as \<open>read\<close> does.\<close>

locale reliable_flash = flash S Inv img True for S :: "'s storage" and Inv img +
  assumes program_total: "Inv st \<Longrightarrow> b < BLOCK_COUNT S \<Longrightarrow>
      PROG_SIZE S dvd unat off \<Longrightarrow> PROG_SIZE S dvd length data \<Longrightarrow>
      unat off + length data \<le> BLOCK_SIZE S \<Longrightarrow>
      clears (slice (img st b) (unat off) (length data)) data \<Longrightarrow>
      st_program S st b off data = (st', ok) \<Longrightarrow> ok"
    and erase_total: "Inv st \<Longrightarrow> b < BLOCK_COUNT S \<Longrightarrow> st_erase S st b = (st', ok) \<Longrightarrow> ok"
    and sync_total: "Inv st \<Longrightarrow> st_sync S st = (st', ok) \<Longrightarrow> ok"
    and read_device_law: "Inv st \<Longrightarrow> b < BLOCK_COUNT S \<Longrightarrow>
      READ_SIZE S dvd unat off \<Longrightarrow> READ_SIZE S dvd length buf \<Longrightarrow>
      unat off + length buf \<le> BLOCK_SIZE S \<Longrightarrow> st_read_device S st b off buf = (st', buf', ok) \<Longrightarrow>
      Inv st' \<and> img st' = img st \<and> ok \<and> buf' = slice (img st b) (unat off) (length buf)"
begin

lemma units: "0 < PROG_SIZE S" "READ_SIZE S dvd PROG_SIZE S" "PROG_SIZE S dvd BLOCK_SIZE S" "BLOCK_SIZE S < 2 ^ 32"
  using geometry by (auto simp: fault_for_None_iff)

lemma unat_off: "n \<le> BLOCK_SIZE S \<Longrightarrow> unat (of_nat n :: u32) = n"
  using units(4) by (simp add: unat_of_nat)

text \<open>Erased cells take any byte.\<close>

lemma program_ok:
  assumes "Inv st" "b < BLOCK_COUNT S" "PROG_SIZE S dvd off" "PROG_SIZE S dvd length data"
    and "off + length data \<le> BLOCK_SIZE S" "slice (img st b) off (length data) = replicate (length data) 0xFF"
  obtains st' where "st_program S st b (of_nat off) data = (st', True)" "Inv st'"
    "img st' = (img st)(b := splice (img st b) off data)"
proof -
  have o: "unat (of_nat off :: u32) = off" using assms(5) by (intro unat_off) simp
  have "\<And>d :: byte. 0xFF AND d = d"
  proof -
    fix d :: byte
    have "(0xFF :: byte) = - 1" by simp
    then show "0xFF AND d = d" by (simp only: and.left_neutral)
  qed
  then have cl: "clears (slice (img st b) (unat (of_nat off :: u32)) (length data)) data"
    unfolding o assms(6) by (auto simp: clears_def list_all2_conv_all_nth)
  obtain st' k where p: "st_program S st b (of_nat off) data = (st', k)" by fastforce
  have k: k using program_total [OF assms(1,2) _ assms(4) _ cl p] assms(3,5) o by simp
  have "Inv st' \<and> (\<forall>b'. b' \<noteq> b \<longrightarrow> img st' b' = img st b') \<and> (k \<longrightarrow> img st' b = splice (img st b) off data)"
    using program_law [OF assms(1,2) _ assms(4) _ cl p] assms(3,5) o by simp
  then show thesis using that p k by (auto simp: fun_eq_iff)
qed

lemma erase_image:
  assumes "Inv st" "b < BLOCK_COUNT S"
  obtains st' where "st_erase S st b = (st', True)" "Inv st'" "img st' = (img st)(b := replicate (BLOCK_SIZE S) 0xFF)"
proof -
  obtain st' k where e: "st_erase S st b = (st', k)" by fastforce
  show thesis using that erase_total [OF assms e] erase_law [OF assms e] e by (auto simp: fun_eq_iff)
qed

lemma sync_image:
  assumes "Inv st"
  obtains st' where "st_sync S st = (st', True)" "Inv st'" "img st' = img st"
proof -
  obtain st' k where s: "st_sync S st = (st', k)" by fastforce
  show thesis using that sync_total [OF assms s] sync_law [OF assms s] s by simp
qed

text \<open>The read back of what the block holds succeeds.\<close>

lemma verify_ok:
  assumes "Inv st" "as_u32 blk < BLOCK_COUNT S" "PROG_SIZE S dvd off" "PROG_SIZE S dvd length region"
    and "off + length region \<le> BLOCK_SIZE S" "slice (img st (as_u32 blk)) off (length region) = region"
  obtains st' where "verify_programmed S blk off region st = (st', region, True)" "Inv st'" "img st' = img st"
proof -
  have o: "unat (of_nat off :: u32) = off" using assms(5) by (intro unat_off) simp
  obtain st' r k where d: "st_read_device S st (as_u32 blk) (of_nat off) region = (st', r, k)" by (rule prod_cases3)
  have "Inv st' \<and> img st' = img st \<and> k \<and> r = region"
    using read_device_law [OF assms(1,2) _ _ _ d] assms(3-6) o units(2) by (auto intro: dvd_trans)
  then show thesis using that d by (simp add: verify_programmed_def Let_def)
qed

lemma rewrite_ok:
  assumes "Inv st" "as_u32 blk < BLOCK_COUNT S" "n \<le> length buf" "length buf = BLOCK_SIZE S" "PROG_SIZE S dvd n"
    and "drop n buf = replicate (length buf - n) 0xFF"
  obtains st' where "rewrite_block S blk buf n st = (st', Inr (buf, True))" "Inv st'" "img st' = (img st)(as_u32 blk := buf)"
proof -
  let ?b = "as_u32 blk" and ?d = "take n buf"
  have dl: "length ?d = n" using assms(3) by simp
  obtain s1 where s1: "st_erase S st ?b = (s1, True)" "Inv s1" "img s1 = (img st)(?b := replicate (BLOCK_SIZE S) 0xFF)"
    by (rule erase_image [OF assms(1,2)])
  have "splice (replicate (BLOCK_SIZE S) 0xFF) 0 ?d = buf"
    using assms(3,4,6) by (metis append_take_drop_id append_Nil dl add_0 drop_replicate splice_def take0)
  moreover obtain s2 where "st_program S s1 ?b (of_nat 0) ?d = (s2, True)" "Inv s2" "img s2 = (img s1)(?b := splice (img s1 ?b) 0 ?d)"
    by (rule program_ok [OF s1(2) assms(2), of 0 ?d]) (use assms(3-5) s1(3) in \<open>simp_all add: slice_def\<close>)
  ultimately have s2: "st_program S s1 ?b 0 ?d = (s2, True)" "Inv s2" "img s2 = (img st)(?b := buf)"
    using s1(3) by simp_all
  obtain s3 where "verify_programmed S blk 0 ?d s2 = (s3, ?d, True)" "Inv s3" "img s3 = img s2"
    by (rule verify_ok [OF s2(2) assms(2), of 0 ?d]) (use assms(3-5) s2(3) in \<open>simp_all add: slice_def\<close>)
  then show thesis using that s1(1) s2 by (simp add: rewrite_block_def)
qed

text \<open>A fetch fills the buffers with the two blocks.\<close>

lemma fetch_ok:
  assumes "Inv st" "bufs_ok S bufs" "pair_in_bounds S p" "pair_at (img st) p = Inr pair"
  obtains st' where "fetch_pair S p bufs st = (st', Inr ((img st (as_u32 (bp_a p)), img st (as_u32 (bp_b p))), pair))"
    "Inv st'" "img st' = img st"
proof -
  obtain st' r where F: "fetch_pair S p bufs st = (st', r)" by fastforce
  have "r = Inr ((img st (as_u32 (bp_a p)), img st (as_u32 (bp_b p))), pair)"
    using fetch_pair_yields [OF assms(1,2), of p] F assms(3,4) by (simp add: yields_def)
  then show thesis using that F fetch_pair_cases(1,2) [OF F assms(1,2)] by simp
qed

end

text \<open>The RAM devices of the test suites are reliable.\<close>

lemma mem_reliable:
  assumes "fault_for IO IO BS BC = None"
  shows "reliable_flash (mem_storage BS IO BC) (mem_inv BS BC) (mem_img BS)"
proof (intro reliable_flash.intro reliable_flash_axioms.intro)
  show "flash (mem_storage BS IO BC) (mem_inv BS BC) (mem_img BS) True" by (rule mem_flash [OF assms])
  have ext: "mem_inv BS BC data \<Longrightarrow> b < BC \<Longrightarrow> unat b * BS + BS \<le> length data" for b data
    by (simp add: mem_inv_def block_extent)
  show ok
    if "mem_inv BS BC st" "b < BLOCK_COUNT (mem_storage BS IO BC)"
      "unat off + length data \<le> BLOCK_SIZE (mem_storage BS IO BC)"
      "st_program (mem_storage BS IO BC) st b off data = (st', ok)" for st b off data st' ok
    using that ext [of st b] by (auto simp: mem_program_def Let_def split: if_splits)
  show ok if "mem_inv BS BC st" "b < BLOCK_COUNT (mem_storage BS IO BC)" "st_erase (mem_storage BS IO BC) st b = (st', ok)" for st b st' ok
    using that ext [of st b] by (auto simp: mem_erase_def Let_def split: if_splits)
  show "mem_inv BS BC st' \<and> mem_img BS st' = mem_img BS st \<and> ok \<and>
      buf' = slice (mem_img BS st b) (unat off) (length buf)"
    if "mem_inv BS BC st" "b < BLOCK_COUNT (mem_storage BS IO BC)"
      "unat off + length buf \<le> BLOCK_SIZE (mem_storage BS IO BC)"
      "st_read_device (mem_storage BS IO BC) st b off buf = (st', buf', ok)" for st b off buf st' buf' ok
    using that ext [of st b] by (auto simp: mem_read_def mem_img_def slice_slice Let_def split: if_splits)
qed (simp add: mem_storage_def)

interpretation rel256: reliable_flash "mem_storage 256 16 8" "mem_inv 256 8" "mem_img 256"
  by (rule mem_reliable) (simp add: fault_for_def BLOCK_SIZE_MIN_def BLOCK_COUNT_MIN_def)

interpretation rel4k: reliable_flash "mem_storage 4096 256 16" "mem_inv 4096 16" "mem_img 4096"
  by (rule mem_reliable) (simp add: fault_for_def BLOCK_SIZE_MIN_def BLOCK_COUNT_MIN_def)

section \<open>What a pair holds\<close>

text \<open>The abstract content of a metadata pair and the effect of a commit on it: the operation on the
  entries, the deltas folded into the gstate totals, the tail replaced when the caller names one (the
  null pair clears it).\<close>

record pair_view =
  pv_entries :: "abs_entry list"
  pv_tail :: "block_pair option \<times> bool"
  pv_move :: "byte list"
  pv_relocate :: "byte list"

definition view_of :: "metadata_pair \<Rightarrow> pair_view result" where
  "view_of pair =
     rbind (log_dir (iter_tags (mp_reader pair))) (\<lambda>xs.
       Inr \<lparr>pv_entries = xs, pv_tail = (rd_tail (mp_reader pair), is_hard_tail (mp_reader pair)),
            pv_move = scan_pair_move_state pair, pv_relocate = scan_pair_relocate_state pair\<rparr>)"

definition folded :: "byte list \<Rightarrow> byte list option \<Rightarrow> byte list" where
  "folded existing delta = (case delta of None \<Rightarrow> existing | Some d \<Rightarrow> xor_bytes existing d)"

definition commit_view ::
  "write_op \<Rightarrow> byte list option \<Rightarrow> byte list option \<Rightarrow> (block_pair \<times> bool) option \<Rightarrow> pair_view \<Rightarrow> pair_view" where
  "commit_view op ms rs new_tail v =
     \<lparr>pv_entries = apply_op op (pv_entries v),
      pv_tail = (case new_tail of None \<Rightarrow> pv_tail v | Some t \<Rightarrow> live_tail (Some t)),
      pv_move = folded (pv_move v) ms, pv_relocate = folded (pv_relocate v) rs\<rparr>"

text \<open>The deltas are arrays of the record sizes.\<close>

definition delta_ok :: "nat \<Rightarrow> byte list option \<Rightarrow> bool" where
  "delta_ok n delta \<longleftrightarrow> (case delta of None \<Rightarrow> True | Some d \<Rightarrow> length d = n)"

lemma newest_body_length [simp]: "length (newest_body ty n es) = n"
  by (induction es) auto

lemma newest_body_skip: "(\<And>e. e \<in> set es \<Longrightarrow> tag_type (te_tag e) \<noteq> ty) \<Longrightarrow> newest_body ty n (es @ fs) = newest_body ty n fs"
  by (induction es) auto

lemma length_folded: "delta_ok n delta \<Longrightarrow> length e = n \<Longrightarrow> length (folded e delta) = n"
  by (auto simp: folded_def delta_ok_def xor_bytes_def split: option.splits)

lemma plain_types:
  assumes "list_all plain es" "e \<in> set es"
  shows "tag_type (te_tag e) \<notin> {HardTail, SoftTail, MoveState, RelocateState}"
  using assms by (auto simp: list_all_iff plain_def)

lemma crc_types:
  assumes "crc_entries es" "e \<in> set es"
  shows "tag_type (te_tag e) \<notin> {HardTail, SoftTail, MoveState, RelocateState}"
  using assms by (auto simp: list_all_iff is_ccrc_def)

lemma tail_tag_types: "e \<in> set (tail_tags link) \<Longrightarrow> tag_type (te_tag e) = HardTail \<or> tag_type (te_tag e) = SoftTail"
  by (auto simp: tail_tags_def split: option.splits if_splits)

text \<open>The newest gstate body behind a log: the one of the commit, or the older one.\<close>

lemma newest_gstate:
  fixes old :: "tag_entry list" and link :: "(block_pair \<times> bool) option"
  assumes "list_all plain es" "crc_entries fs"
    and "\<And>b. mb = Some b \<Longrightarrow> length b = MOVE_STATE_BODY_SIZE" "\<And>b. qb = Some b \<Longrightarrow> length b = RELOCATE_STATE_BODY_SIZE"
  defines "log \<equiv> old @ es @ gstate_tags mb qb link @ fs"
  shows "newest_body MoveState MOVE_STATE_BODY_SIZE (rev log) =
      (case mb of None \<Rightarrow> newest_body MoveState MOVE_STATE_BODY_SIZE (rev old) | Some b \<Rightarrow> b)"
    "newest_body RelocateState RELOCATE_STATE_BODY_SIZE (rev log) =
      (case qb of None \<Rightarrow> newest_body RelocateState RELOCATE_STATE_BODY_SIZE (rev old) | Some b \<Rightarrow> b)"
proof -
  have sk: "newest_body ty n (rev xs @ ys) = newest_body ty n ys"
    if "\<And>e. e \<in> set xs \<Longrightarrow> tag_type (te_tag e) \<noteq> ty" for ty n xs ys
    using that by (intro newest_body_skip) simp
  have ty: "tag_type (te_tag e) = t" if "e \<in> set (body_tags t n b)" "natural_type t" for e t n b
    using that by (auto simp: body_tags_def split: option.splits)
  have nat: "natural_type MoveState" "natural_type RelocateState" by (simp_all add: natural_type_def)
  have L: "rev log = rev fs @ rev (tail_tags link) @ rev (body_tags RelocateState RELOCATE_STATE_BODY_SIZE qb)
      @ rev (body_tags MoveState MOVE_STATE_BODY_SIZE mb) @ rev es @ rev old"
    by (simp add: log_def)
  have f: "newest_body ty n (rev fs @ ys) = newest_body ty n ys" if "ty = MoveState \<or> ty = RelocateState" for ty n ys
    using that crc_types [OF assms(2)] by (intro sk) auto
  have tl: "newest_body ty n (rev (tail_tags link) @ ys) = newest_body ty n ys" if "ty = MoveState \<or> ty = RelocateState" for ty n ys
    using that tail_tag_types [of _ link] by (intro sk) force
  have q: "newest_body MoveState n (rev (body_tags RelocateState m qb) @ ys) = newest_body MoveState n ys" for n m ys
    using ty [OF _ nat(2)] by (intro sk) force
  have t1: "newest_body MoveState n (rev log) = newest_body MoveState n (rev (body_tags MoveState MOVE_STATE_BODY_SIZE mb) @ rev es @ rev old)" for n
    unfolding L by (simp add: f tl q del: append_assoc)
  have t2: "newest_body RelocateState n (rev log) = newest_body RelocateState n (rev (body_tags RelocateState RELOCATE_STATE_BODY_SIZE qb)
      @ rev (body_tags MoveState MOVE_STATE_BODY_SIZE mb) @ rev es @ rev old)" for n
    unfolding L by (simp add: f tl del: append_assoc)
  have es: "newest_body MoveState n (rev es @ ys) = newest_body MoveState n ys"
      "newest_body RelocateState n (rev es @ ys) = newest_body RelocateState n ys" for n ys
    using plain_types [OF assms(1)] by (auto intro: sk)
  have mv: "newest_body RelocateState n (rev (body_tags MoveState m mb) @ ys) = newest_body RelocateState n ys" for n m ys
    using ty [OF _ nat(1)] by (intro sk) force
  show "newest_body MoveState MOVE_STATE_BODY_SIZE (rev log) =
      (case mb of None \<Rightarrow> newest_body MoveState MOVE_STATE_BODY_SIZE (rev old) | Some b \<Rightarrow> b)"
    unfolding t1 using assms(3) es(1) by (auto simp: body_tags_def split: option.split)
  show "newest_body RelocateState RELOCATE_STATE_BODY_SIZE (rev log) =
      (case qb of None \<Rightarrow> newest_body RelocateState RELOCATE_STATE_BODY_SIZE (rev old) | Some b \<Rightarrow> b)"
    unfolding t2 using assms(4) es(2) mv by (auto simp: body_tags_def split: option.split)
qed

lemma op_tags_plain: "op_in_range op n \<Longrightarrow> list_all plain (op_tags op)"
  by (cases op) (auto simp: plain_def attr_tags_def list_all_iff op_in_range_def name_type_ok_def)

text \<open>The tail of a longer log.\<close>

lemma tail_of_longer:
  assumes "list_all plain es" "crc_entries fs" "\<not> clears_tail new_tail"
  shows "tail_of (old @ es @ (body_tags MoveState n mb @ body_tags RelocateState m qb @ tail_tags new_tail) @ fs) =
    (case new_tail of None \<Rightarrow> tail_of old | Some t \<Rightarrow> live_tail (Some t))"
proof -
  have none: "filter is_tail_entry xs = []" if "\<And>e. e \<in> set xs \<Longrightarrow> tag_type (te_tag e) \<notin> {HardTail, SoftTail}" for xs
    using that by (auto simp: filter_empty_conv is_tail_entry_def)
  have e: "filter is_tail_entry es = []" "filter is_tail_entry fs = []"
    using plain_types [OF assms(1)] crc_types [OF assms(2)] by (auto intro: none)
  have b: "filter is_tail_entry (body_tags ty k x) = []" if "ty = MoveState \<or> ty = RelocateState" for ty k x
    using that by (auto simp: body_tags_def is_tail_entry_def split: option.split)
  have "body_len (Tag_new True ty ID_NONE 8) = 8" for ty using body_len_Tag_new [of 8] by simp
  then have it: "is_tail_entry (tent (Tag_new True HardTail ID_NONE 8) x)" "is_tail_entry (tent (Tag_new True SoftTail ID_NONE 8) x)" for x
    by (simp_all add: is_tail_entry_def)
  have t: "filter is_tail_entry (tail_tags l) = tail_tags l" for l
    using it by (auto simp: tail_tags_def split: option.split)
  show ?thesis using assms(3)
    by (auto simp: tail_of_def Let_def e b t it tail_tags_def live_tail_def decode_pair_body clears_tail_def split: option.split)
qed

text \<open>Both ways of writing a commit have the abstract effect.\<close>

lemma view_of_Inr:
  assumes "view_of pair = Inr v"
  shows "log_dir (iter_tags (mp_reader pair)) = Inr (pv_entries v)"
    "pv_tail v = (rd_tail (mp_reader pair), is_hard_tail (mp_reader pair))"
    "pv_move v = scan_pair_move_state pair" "pv_relocate v = scan_pair_relocate_state pair"
  using assms by (auto simp: view_of_def)

lemma reader_facts:
  assumes "reader_new b = Inr r"
  shows "iter_tags_rev r = rev (iter_tags r)" "(rd_tail r, is_hard_tail r) = tail_of (iter_tags r)"
    "rd_block r = b" "committed_end r \<le> length b"
  by (rule reader_new_path [OF assms]; simp)+

lemma append_view:
  assumes "reader_new buf = Inr (mp_reader pair)" and "has_commits (mp_reader pair)"
    and "erased_from buf (committed_end (mp_reader pair))" and "view_of pair = Inr v"
    and "append_commit buf (committed_end (mp_reader pair)) (next_ptag (mp_reader pair)) op
      (map_option (xor_bytes (scan_pair_move_state pair)) ms) (map_option (xor_bytes (scan_pair_relocate_state pair)) rs) new_tail p bs = Inr c"
    and "op_in_range op (length (pv_entries v))" "\<not> clears_tail new_tail"
    and "delta_ok MOVE_STATE_BODY_SIZE ms" "delta_ok RELOCATE_STATE_BODY_SIZE rs"
  obtains r where "reader_new (cm_buf c) = Inr r" "revision r = revision (mp_reader pair)" "committed_end r = cm_offset c"
    "\<forall>pair'. mp_reader pair' = r \<longrightarrow> view_of pair' = Inr (commit_view op ms rs new_tail v)"
proof -
  note v = view_of_Inr [OF assms(4)]
  let ?old = "iter_tags (mp_reader pair)"
  obtain r fs where r: "reader_new (cm_buf c) = Inr r" "revision r = revision (mp_reader pair)" "committed_end r = cm_offset c"
    "iter_tags r = ?old @ op_tags op @ gstate_tags (map_option (xor_bytes (scan_pair_move_state pair)) ms)
       (map_option (xor_bytes (scan_pair_relocate_state pair)) rs) new_tail @ fs" "crc_entries fs"
    "log_dir (iter_tags r) = Inr (apply_op op (pv_entries v))"
    by (rule append_commit_dir [OF assms(1-3,5) v(1) assms(6)])
  note pl = op_tags_plain [OF assms(6)]
  note old = reader_facts [OF assms(1)] and new = reader_facts [OF r(1)]
  have len: "length b = MOVE_STATE_BODY_SIZE" if "map_option (xor_bytes (scan_pair_move_state pair)) ms = Some b" for b
    using that assms(8) by (auto simp: delta_ok_def xor_bytes_def scan_pair_move_state_def)
  have len': "length b = RELOCATE_STATE_BODY_SIZE" if "map_option (xor_bytes (scan_pair_relocate_state pair)) rs = Some b" for b
    using that assms(9) by (auto simp: delta_ok_def xor_bytes_def scan_pair_relocate_state_def)
  have "newest_body MoveState MOVE_STATE_BODY_SIZE (rev (iter_tags r)) =
      (case map_option (xor_bytes (scan_pair_move_state pair)) ms of None \<Rightarrow> newest_body MoveState MOVE_STATE_BODY_SIZE (rev ?old) | Some b \<Rightarrow> b)"
    unfolding r(4) by (rule newest_gstate(1) [OF pl r(5)]) (fact len len')+
  moreover have "newest_body RelocateState RELOCATE_STATE_BODY_SIZE (rev (iter_tags r)) =
      (case map_option (xor_bytes (scan_pair_relocate_state pair)) rs of None \<Rightarrow> newest_body RelocateState RELOCATE_STATE_BODY_SIZE (rev ?old) | Some b \<Rightarrow> b)"
    unfolding r(4) by (rule newest_gstate(2) [OF pl r(5)]) (fact len len')+
  ultimately have gs: "scan_pair_move_state pair' = folded (pv_move v) ms" "scan_pair_relocate_state pair' = folded (pv_relocate v) rs"
    if "mp_reader pair' = r" for pair'
    using that v(3,4) new(1) old(1)
    by (auto simp: scan_pair_move_state_def scan_pair_relocate_state_def folded_def split: option.splits)
  have "tail_of (iter_tags r) = (case new_tail of None \<Rightarrow> pv_tail v | Some t \<Rightarrow> live_tail (Some t))"
    unfolding r(4) v(2) old(2) using tail_of_longer [OF pl r(5) assms(7)] by simp
  then show thesis using that [OF r(1-3)] r(6) new(2) gs by (simp add: view_of_def commit_view_def)
qed

lemma net_body_folded:
  assumes "length e = n" "delta_ok n d"
  shows "(case some_body n (net_body n e d) of None \<Rightarrow> replicate n 0 | Some b \<Rightarrow> b) = folded e d"
    "some_body n (net_body n e d) = Some b \<Longrightarrow> length b = n"
  using length_folded [OF assms(2,1)]
  by (auto simp: net_body_def folded_def some_body_def Let_def split: option.splits if_splits)

definition kept_tail :: "(block_pair \<times> bool) option \<Rightarrow> reader \<Rightarrow> (block_pair \<times> bool) option" where
  "kept_tail new_tail r = (case new_tail of Some t \<Rightarrow> Some t | None \<Rightarrow> map_option (\<lambda>t. (t, is_hard_tail r)) (rd_tail r))"

lemma kept_tail_case: "(case new_tail of None \<Rightarrow> map_option (\<lambda>t. (t, is_hard_tail r)) (rd_tail r) | Some x \<Rightarrow> Some x) = kept_tail new_tail r"
  by (simp add: kept_tail_def split: option.split)

lemma live_kept_tail:
  assumes "reader_new b = Inr r"
  shows "live_tail (kept_tail new_tail r) = (case new_tail of None \<Rightarrow> (rd_tail r, is_hard_tail r) | Some t \<Rightarrow> live_tail (Some t))"
proof -
  have t: "tail_of (iter_tags r) = (rd_tail r, is_hard_tail r)" using reader_facts(2) [OF assms] by simp
  then have "rd_tail r = None \<Longrightarrow> \<not> is_hard_tail r" by (auto simp: tail_of_def Let_def split: if_splits)
  then show ?thesis using tail_of_not_null [of "iter_tags r"] t
    by (auto simp: kept_tail_def live_tail_def split: option.splits)
qed

lemma compact_view:
  assumes "reader_new src = Inr (mp_reader pair)" and "gather_live_slots pair = Inr (slots, cnt)"
    and "build_compact_commit alt src rv slots cnt op 0 hi p bs (net_body MOVE_STATE_BODY_SIZE (scan_pair_move_state pair) ms)
      (net_body RELOCATE_STATE_BODY_SIZE (scan_pair_relocate_state pair) rs) (kept_tail new_tail (mp_reader pair)) = Inr (buf, n)"
    and "cnt \<le> hi" and "view_of pair = Inr v" and "op_in_range op (length (pv_entries v))"
    and "op_adds_entry op \<longrightarrow> cnt < hi \<and> op_target op = Some (of_nat cnt)"
    and "delta_ok MOVE_STATE_BODY_SIZE ms" "delta_ok RELOCATE_STATE_BODY_SIZE rs"
  obtains r where "reader_new buf = Inr r" "revision r = rv" "committed_end r = n"
    "\<forall>pair'. mp_reader pair' = r \<longrightarrow> view_of pair' = Inr (commit_view op ms rs new_tail v)"
proof -
  note v = view_of_Inr [OF assms(5)]
  let ?m = "net_body MOVE_STATE_BODY_SIZE (scan_pair_move_state pair) ms"
  let ?q = "net_body RELOCATE_STATE_BODY_SIZE (scan_pair_relocate_state pair) rs"
  let ?t = "kept_tail new_tail (mp_reader pair)"
  obtain r es fs where r: "reader_new buf = Inr r" "revision r = rv" "committed_end r = n"
    "log_dir (iter_tags r) = Inr (apply_op op (pv_entries v))" "(rd_tail r, is_hard_tail r) = live_tail ?t"
    "iter_tags r = es @ link_tags ?m ?q ?t @ fs" "list_all plain es" "crc_entries fs"
    by (rule compact_commit_dir [OF assms(1) refl assms(2,3,4) v(1) assms(6,7)])
  have nm: "length (scan_pair_move_state pair) = MOVE_STATE_BODY_SIZE" "length (scan_pair_relocate_state pair) = RELOCATE_STATE_BODY_SIZE"
    by (simp_all add: scan_pair_move_state_def scan_pair_relocate_state_def)
  note f = net_body_folded [OF nm(1) assms(8)] and g = net_body_folded [OF nm(2) assms(9)]
  have l: "iter_tags r = [] @ es @ gstate_tags (some_body MOVE_STATE_BODY_SIZE ?m) (some_body RELOCATE_STATE_BODY_SIZE ?q) (some_tail ?t) @ fs"
    using r(6) by simp
  have "newest_body MoveState MOVE_STATE_BODY_SIZE (rev (iter_tags r)) = folded (scan_pair_move_state pair) ms"
    unfolding l using f(1) by (subst newest_gstate(1) [OF r(7,8)]) (simp_all add: f(2) g(2) cong: option.case_cong)
  moreover have "newest_body RelocateState RELOCATE_STATE_BODY_SIZE (rev (iter_tags r)) = folded (scan_pair_relocate_state pair) rs"
    unfolding l using g(1) by (subst newest_gstate(2) [OF r(7,8)]) (simp_all add: f(2) g(2) cong: option.case_cong)
  ultimately have "scan_pair_move_state pair' = folded (pv_move v) ms" "scan_pair_relocate_state pair' = folded (pv_relocate v) rs"
    if "mp_reader pair' = r" for pair'
    using that v(3,4) reader_facts(1) [OF r(1)]
    by (simp_all add: scan_pair_move_state_def scan_pair_relocate_state_def)
  moreover have "live_tail ?t = (case new_tail of None \<Rightarrow> pv_tail v | Some t \<Rightarrow> live_tail (Some t))"
    unfolding v(2) by (rule live_kept_tail [OF assms(1)])
  ultimately show thesis using that [OF r(1-3)] r(4,5) by (simp add: view_of_def commit_view_def)
qed

section \<open>The pair after a commit\<close>

text \<open>A pair that a commit can be written to: it parses, and its active block is erased behind the
  committed log. \<open>pair_holds\<close> relates a device image to the abstract content of a pair.\<close>

definition pair_ready :: "(u32 \<Rightarrow> byte list) \<Rightarrow> block_pair \<Rightarrow> metadata_pair \<Rightarrow> bool" where
  "pair_ready im p pair \<longleftrightarrow>
     pair_at im p = Inr pair \<and> erased_from (im (as_u32 (active_block pair))) (committed_end (mp_reader pair))"

definition pair_holds :: "(u32 \<Rightarrow> byte list) \<Rightarrow> block_pair \<Rightarrow> pair_view \<Rightarrow> bool" where
  "pair_holds im p v \<longleftrightarrow> (\<exists>pair. pair_ready im p pair \<and> view_of pair = Inr v)"

definition op_fits :: "write_op \<Rightarrow> pair_view \<Rightarrow> bool" where
  "op_fits op v \<longleftrightarrow> op_in_range op (length (pv_entries v)) \<and>
     (op_adds_entry op \<longrightarrow> op_target op = Some (of_nat (length (pv_entries v))))"

lemma pair_at_readers:
  assumes "pair_at im p = Inr pair"
  obtains ra rb where "reader_new (im (as_u32 (bp_a p))) = Inr ra" "reader_new (im (as_u32 (bp_b p))) = Inr rb"
    "has_commits ra \<and> (has_commits rb \<longrightarrow> rev_scmp (revision ra) (revision rb) \<ge> 0) \<and>
       pair = \<lparr>active_block = bp_a p, alternate_block = bp_b p, mp_reader = ra, alternate_valid = has_commits rb\<rparr> \<or>
     has_commits rb \<and> \<not> (has_commits ra \<and> rev_scmp (revision ra) (revision rb) \<ge> 0) \<and>
       pair = \<lparr>active_block = bp_b p, alternate_block = bp_a p, mp_reader = rb, alternate_valid = has_commits ra\<rparr>"
proof -
  obtain ra rb where r: "reader_new (im (as_u32 (bp_a p))) = Inr ra" "reader_new (im (as_u32 (bp_b p))) = Inr rb"
    using assms by (cases "reader_new (im (as_u32 (bp_a p)))"; cases "reader_new (im (as_u32 (bp_b p)))")
      (simp_all add: pair_at_def pair_parse_def)
  show thesis
    by (rule that [OF r]) (use assms in \<open>simp add: pair_at_def pair_parse_active [OF r] split: if_splits; blast\<close>)
qed

lemma pair_at_cases:
  assumes "pair_at im p = Inr pair"
  obtains "active_block pair = bp_a p" "alternate_block pair = bp_b p"
  | "active_block pair = bp_b p" "alternate_block pair = bp_a p"
  by (rule pair_at_readers [OF assms]) auto

lemma pair_at_active:
  assumes "pair_at im p = Inr pair"
  shows "reader_new (im (as_u32 (active_block pair))) = Inr (mp_reader pair)" "has_commits (mp_reader pair)"
    "active_block pair = bp_a p \<or> active_block pair = bp_b p"
  by (rule pair_at_readers [OF assms]; auto)+

lemma source_is_active:
  assumes "pair_at im p = Inr pair"
  shows "source_of (active_is_a p pair) (im (as_u32 (bp_a p)), im (as_u32 (bp_b p))) = im (as_u32 (active_block pair))"
  using pair_at_active(3) [OF assms] by (auto simp: source_of_def active_is_a_def)

text \<open>An append keeps the choice of the active block; a compaction onto the alternate reverses it.\<close>

lemma pair_at_append:
  assumes "pair_at im p = Inr pair" "bp_a p \<noteq> bp_b p"
    and "reader_new buf = Inr r" "revision r = revision (mp_reader pair)" "has_commits r"
  shows "pair_at (im(as_u32 (active_block pair) := buf)) p = Inr (pair\<lparr>mp_reader := r\<rparr>)"
proof -
  have d: "as_u32 (bp_a p) \<noteq> as_u32 (bp_b p)" using assms(2) by (metis block_address.expand)
  show ?thesis
  proof (rule pair_at_readers [OF assms(1)])
    fix ra rb assume r: "reader_new (im (as_u32 (bp_a p))) = Inr ra" "reader_new (im (as_u32 (bp_b p))) = Inr rb"
      and c: "has_commits ra \<and> (has_commits rb \<longrightarrow> rev_scmp (revision ra) (revision rb) \<ge> 0) \<and>
       pair = \<lparr>active_block = bp_a p, alternate_block = bp_b p, mp_reader = ra, alternate_valid = has_commits rb\<rparr> \<or>
     has_commits rb \<and> \<not> (has_commits ra \<and> rev_scmp (revision ra) (revision rb) \<ge> 0) \<and>
       pair = \<lparr>active_block = bp_b p, alternate_block = bp_a p, mp_reader = rb, alternate_valid = has_commits ra\<rparr>"
    from c show ?thesis
    proof
      assume h: "has_commits ra \<and> (has_commits rb \<longrightarrow> rev_scmp (revision ra) (revision rb) \<ge> 0) \<and>
       pair = \<lparr>active_block = bp_a p, alternate_block = bp_b p, mp_reader = ra, alternate_valid = has_commits rb\<rparr>"
      then show ?thesis using d pair_parse_active [OF assms(3) r(2)] r(2) assms(4,5) by (simp add: pair_at_def)
    next
      assume h: "has_commits rb \<and> \<not> (has_commits ra \<and> rev_scmp (revision ra) (revision rb) \<ge> 0) \<and>
       pair = \<lparr>active_block = bp_b p, alternate_block = bp_a p, mp_reader = rb, alternate_valid = has_commits ra\<rparr>"
      then show ?thesis using d pair_parse_active [OF r(1) assms(3)] r(1) assms(4,5) by (auto simp: pair_at_def)
    qed
  qed
qed

lemma rev_scmp_next: "rev_scmp (x + 1) x = 1" "rev_scmp x (x + 1) = - 1"
  using rev_scmp_wraps [of 1 x] by simp_all

lemma pair_at_compact:
  assumes "pair_at im p = Inr pair" "bp_a p \<noteq> bp_b p"
    and "reader_new buf = Inr r" "revision r = revision (mp_reader pair) + 1" "has_commits r"
  shows "pair_at (im(as_u32 (alternate_block pair) := buf)) p = Inr \<lparr>active_block = alternate_block pair,
    alternate_block = active_block pair, mp_reader = r, alternate_valid = True\<rparr>"
proof -
  have d: "as_u32 (bp_a p) \<noteq> as_u32 (bp_b p)" using assms(2) by (metis block_address.expand)
  note act = pair_at_active(1,2) [OF assms(1)]
  show ?thesis
  proof (cases rule: pair_at_cases [OF assms(1)])
    case 1
    then show ?thesis
      using d act(2) assms(4,5) rev_scmp_next [of "revision (mp_reader pair)"]
        pair_parse_active [OF act(1) assms(3), of "bp_a p" "bp_b p"] by (simp add: pair_at_def)
  next
    case 2
    then show ?thesis
      using d act(2) assms(4,5) rev_scmp_next [of "revision (mp_reader pair)"]
        pair_parse_active [OF assms(3) act(1), of "bp_a p" "bp_b p"] by (simp add: pair_at_def)
  qed
qed

lemma pair_entries_count:
  assumes "pair_at im p = Inr pair" "view_of pair = Inr v" "gather_live_slots pair = Inr (slots, cnt)"
  shows "length (pv_entries v) = cnt"
  using gather_live_dir(1) [OF assms(3)] view_of_Inr(1) [OF assms(2)] by auto

lemma splice_between:
  assumes "take a B = take a A" "drop b B = drop b A" "a \<le> b" "b \<le> length A" "length B = length A"
  shows "splice A a (slice B a (b - a)) = B"
proof (rule nth_equalityI)
  show l: "length (splice A a (slice B a (b - a))) = length B" using assms by simp
  fix i assume "i < length (splice A a (slice B a (b - a)))"
  then have i: "i < length B" using l by simp
  consider "i < a" | "a \<le> i" "i < b" | "b \<le> i" by linarith
  then show "splice A a (slice B a (b - a)) ! i = B ! i"
  proof cases
    case 1
    then have "B ! i = A ! i" using arg_cong [OF assms(1), of "\<lambda>xs. xs ! i"] by simp
    then show ?thesis using 1 assms i by (simp add: nth_splice)
  next
    case 2
    then show ?thesis using assms i by (simp add: nth_splice)
  next
    case 3
    then have "B ! i = A ! i" using arg_cong [OF assms(2), of "\<lambda>xs. xs ! (i - b)"] assms(4,5) i by simp
    then show ?thesis using 3 assms(3-5) i by (simp add: nth_splice)
  qed
qed

text \<open>Running a step of a commit.\<close>

lemma on_storage_eq: "m (fs_storage fs) = (st', r) \<Longrightarrow> on_storage m fs = (fs\<lparr>fs_storage := st'\<rparr>, r)"
  by (simp add: on_storage_def)

lemma obind_lift_Inr: "m st = (st', Inr x) \<Longrightarrow> obind (olift m) f st = f x st'"
  by (simp add: obind_def olift_def)

lemma obind_lift_Inl: "m st = (st', Inl e) \<Longrightarrow> obind (olift m) f st = Some (st', Inl e)"
  by (simp add: obind_def olift_def)

lemma obind_return: "obind (olift (io_return x)) f st = f x st"
  by (simp add: obind_def olift_def)

lemma obind_Some_Inr: "m st = Some (st', Inr x) \<Longrightarrow> obind m f st = f x st'"
  by (simp add: obind_def)

lemma obind_Some_Inl: "m st = Some (st', Inl e) \<Longrightarrow> obind m f st = Some (st', Inl e)"
  by (simp add: obind_def)

definition captured_of :: "block_pair \<Rightarrow> metadata_pair \<Rightarrow> slot_offsets list \<times> nat \<Rightarrow> captured" where
  "captured_of p pair g = \<lparr>cp_pair = pair, cp_ia = active_is_a p pair, cp_slots = fst g, cp_count = snd g,
     cp_ms = scan_pair_move_state pair, cp_rs = scan_pair_relocate_state pair\<rparr>"

lemma captured_sel [simp]:
  "cp_pair (captured_of p pair g) = pair" "cp_ia (captured_of p pair g) = active_is_a p pair"
  "cp_slots (captured_of p pair g) = fst g" "cp_count (captured_of p pair g) = snd g"
  "cp_ms (captured_of p pair g) = scan_pair_move_state pair" "cp_rs (captured_of p pair g) = scan_pair_relocate_state pair"
  by (simp_all add: captured_of_def)

context reliable_flash
begin

lemma capture_ok:
  assumes "Inv st" "bufs_ok S bufs" "pair_in_bounds S p" "pair_at (img st) p = Inr pair"
  obtains st' where "capture S p bufs st = (st', rbind (gather_live_slots pair) (\<lambda>g.
      Inr ((img st (as_u32 (bp_a p)), img st (as_u32 (bp_b p))), captured_of p pair g)))" "Inv st'" "img st' = img st"
proof -
  obtain s1 where s1: "fetch_pair S p bufs st = (s1, Inr ((img st (as_u32 (bp_a p)), img st (as_u32 (bp_b p))), pair))"
    "Inv s1" "img s1 = img st" by (rule fetch_ok [OF assms])
  have "capture S p bufs st = (s1, rbind (gather_live_slots pair) (\<lambda>g.
      Inr ((img st (as_u32 (bp_a p)), img st (as_u32 (bp_b p))), captured_of p pair g)))"
    by (cases "gather_live_slots pair")
       (auto simp: capture_def io_bind_Inr [where m = "fetch_pair S p bufs", OF s1(1)] io_bind_lift captured_of_def)
  then show thesis using that s1(2,3) by blast
qed

lemma active_in_bounds:
  assumes "pair_in_bounds S p" "pair_at im p = Inr pair"
  shows "as_u32 (active_block pair) < BLOCK_COUNT S" "as_u32 (alternate_block pair) < BLOCK_COUNT S"
  using assms(1) by (cases rule: pair_at_cases [OF assms(2)]; auto simp: pair_in_bounds_def)+

lemma try_append_fails:
  assumes "append_commit (source_of (cp_ia cp) bufs) (committed_end (mp_reader (cp_pair cp))) (next_ptag (mp_reader (cp_pair cp))) op
      (map_option (xor_bytes (cp_ms cp)) ms) (map_option (xor_bytes (cp_rs cp)) rs) new_tail (PROG_SIZE S) (BLOCK_SIZE S) = Inl e"
  shows "try_append S cp op ms rs new_tail bufs st = (st, Inl e)"
  using assms by (simp add: try_append_def Let_def io_bind_lift)

lemma try_append_ok:
  assumes "Inv st" "pair_in_bounds S p" "pair_ready (img st) p pair" "can_append S (captured_of p pair g) op ms rs new_tail"
    and c: "append_commit (img st (as_u32 (active_block pair))) (committed_end (mp_reader pair)) (next_ptag (mp_reader pair)) op
      (map_option (xor_bytes (scan_pair_move_state pair)) ms) (map_option (xor_bytes (scan_pair_relocate_state pair)) rs) new_tail
      (PROG_SIZE S) (BLOCK_SIZE S) = Inr c" and "op_in_range op n"
    and src: "source_of (active_is_a p pair) bufs = img st (as_u32 (active_block pair))"
  obtains st' where "try_append S (captured_of p pair g) op ms rs new_tail bufs st =
      (st', Inr (with_source (active_is_a p pair) bufs (cm_buf c), True))" "Inv st'"
    "img st' = (img st)(as_u32 (active_block pair) := cm_buf c)"
proof -
  let ?r = "mp_reader pair" and ?b = "as_u32 (active_block pair)"
  let ?A = "img st ?b" and ?s = "committed_end ?r" and ?e = "cm_offset c"
  let ?d = "slice (cm_buf c) ?s (?e - ?s)"
  have pa: "pair_at (img st) p = Inr pair" and er: "erased_from ?A ?s" using assms(3) by (simp_all add: pair_ready_def)
  note act = pair_at_active [OF pa] and inb = active_in_bounds [OF assms(2) pa]
  note stg = append_commit_staged [OF act(1,2) c assms(6)]
  have la: "length ?A = BLOCK_SIZE S" using img_length [OF assms(1) inb(1)] .
  have al: "PROG_SIZE S dvd ?s" "PROG_SIZE S dvd ?e" using assms(4) stg(6) units(1) by (auto simp: can_append_def captured_of_def Let_def)
  have dl: "length ?d = ?e - ?s" using stg(1,5) by simp
  have sp: "splice ?A ?s ?d = cm_buf c" by (rule splice_between) (use stg in auto)
  have ff: "slice ?A ?s (?e - ?s) = replicate (?e - ?s) 0xFF"
    using er stg(1,4,5) by (simp add: slice_def)
  obtain s1 where s1: "st_program S st ?b (of_nat ?s) ?d = (s1, True)" "Inv s1" "img s1 = (img st)(?b := splice ?A ?s ?d)"
    by (rule program_ok [OF assms(1) inb(1), of ?s ?d]) (use al stg la ff dl in \<open>auto intro: dvd_diff_nat\<close>)
  obtain s2 where s2: "verify_programmed S (active_block pair) ?s ?d s1 = (s2, ?d, True)" "Inv s2" "img s2 = img s1"
    by (rule verify_ok [OF s1(2) inb(1), of ?s ?d]) (use al stg la dl sp s1(3) in \<open>auto intro: dvd_diff_nat\<close>)
  have sp2: "splice (cm_buf c) ?s ?d = cm_buf c" by (rule splice_between) (use stg in auto)
  show thesis
    by (rule that [of s2])
       (use s1 s2 c src sp sp2 in \<open>simp_all add: try_append_def captured_of_def Let_def io_bind_lift bytes_written_def\<close>)
qed

end

section \<open>The commit refines its specification\<close>

text \<open>The commits that keep the pair where it is: an append, or a compaction that neither splits the
  directory nor fires wear levelling.\<close>

definition op_total :: "write_op \<Rightarrow> nat \<Rightarrow> nat" where
  "op_total op cnt = cnt + (if op_adds_entry op then 1 else 0)"

definition stays_in_place ::
  "'s storage \<Rightarrow> block_pair \<Rightarrow> block_pair \<Rightarrow> (u32 \<Rightarrow> byte list) \<Rightarrow> metadata_pair \<Rightarrow> write_op \<Rightarrow> byte list option \<Rightarrow>
   byte list option \<Rightarrow> (block_pair \<times> bool) option \<Rightarrow> bool" where
  "stays_in_place S root p im pair op ms rs new_tail \<longleftrightarrow>
     can_append S (captured_of p pair ([], 0)) op ms rs new_tail \<or>
     \<not> should_relocate p root (revision (mp_reader pair) + 1) (BLOCK_CYCLES S) \<and>
     (case gather_live_slots pair of Inl _ \<Rightarrow> True
      | Inr (slots, cnt) \<Rightarrow>
          (case compute_split_index S (im (as_u32 (active_block pair))) slots cnt op 0 (op_total op cnt) of
             Inl _ \<Rightarrow> True | Inr k \<Rightarrow> k = 0))"

lemma can_append_captured: "can_append S (captured_of p pair g) = can_append S (captured_of p pair h)"
  by (simp add: can_append_def captured_of_def fun_eq_iff)

text \<open>The content of the pair, what of the device may change, and how a commit ends.\<close>

definition commit_outcome ::
  "('s \<Rightarrow> bool) \<Rightarrow> ('s \<Rightarrow> u32 \<Rightarrow> byte list) \<Rightarrow> block_pair \<Rightarrow> pair_view \<Rightarrow> 's fs \<Rightarrow> ('s fs \<times> bufs result) option \<Rightarrow> bool" where
  "commit_outcome Inv img p v' fs out \<longleftrightarrow>
     (\<exists>st' res. out = Some (fs\<lparr>fs_storage := st'\<rparr>, res) \<and> Inv st' \<and>
       (case res of
          Inl e \<Rightarrow> img st' = img (fs_storage fs)
        | Inr _ \<Rightarrow> pair_holds (img st') p v' \<and>
            (\<forall>b. b \<noteq> as_u32 (bp_a p) \<longrightarrow> b \<noteq> as_u32 (bp_b p) \<longrightarrow> img st' b = img (fs_storage fs) b)))"

lemma commit_outcomeI_Inl:
  "Inv st' \<Longrightarrow> img st' = img (fs_storage fs) \<Longrightarrow> commit_outcome Inv img p v' fs (Some (fs\<lparr>fs_storage := st'\<rparr>, Inl e))"
  by (auto simp: commit_outcome_def)

lemma commit_outcomeI_Inr:
  "Inv st' \<Longrightarrow> pair_holds (img st') p v' \<Longrightarrow> img st' = (img (fs_storage fs))(b := buf) \<Longrightarrow> b = as_u32 (bp_a p) \<or> b = as_u32 (bp_b p) \<Longrightarrow>
   commit_outcome Inv img p v' fs (Some (fs\<lparr>fs_storage := st'\<rparr>, Inr bufs'))"
  by (auto simp: commit_outcome_def)

lemma erased_from_slice: "drop n buf = replicate (length buf - n) (0xFF :: byte) \<Longrightarrow> erased_from buf n"
  by simp

context reliable_flash
begin

lemma append_outcome:
  assumes "Inv st" "pair_in_bounds S p" "bp_a p \<noteq> bp_b p" "pair_ready (img st) p pair" "view_of pair = Inr v" "op_fits op v"
    and "delta_ok MOVE_STATE_BODY_SIZE ms" "delta_ok RELOCATE_STATE_BODY_SIZE rs"
    and "can_append S (captured_of p pair g) op ms rs new_tail" and src: "source_of (active_is_a p pair) bufs = img st (as_u32 (active_block pair))"
  obtains e where "try_append S (captured_of p pair g) op ms rs new_tail bufs st = (st, Inl e)"
  | st' bufs' where "try_append S (captured_of p pair g) op ms rs new_tail bufs st = (st', Inr (bufs', True))" "Inv st'"
      "pair_holds (img st') p (commit_view op ms rs new_tail v)"
      "img st' = (img st)(as_u32 (active_block pair) := img st' (as_u32 (active_block pair)))"
proof -
  have pa: "pair_at (img st) p = Inr pair" and er: "erased_from (img st (as_u32 (active_block pair))) (committed_end (mp_reader pair))"
    using assms(4) by (simp_all add: pair_ready_def)
  note act = pair_at_active [OF pa]
  have op: "op_in_range op (length (pv_entries v))" using assms(6) by (simp add: op_fits_def)
  have nt: "\<not> clears_tail new_tail" using assms(9) by (auto simp: can_append_def Let_def)
  show thesis
  proof (cases "append_commit (img st (as_u32 (active_block pair))) (committed_end (mp_reader pair)) (next_ptag (mp_reader pair)) op
      (map_option (xor_bytes (scan_pair_move_state pair)) ms) (map_option (xor_bytes (scan_pair_relocate_state pair)) rs) new_tail
      (PROG_SIZE S) (BLOCK_SIZE S)")
    case (Inl e)
    then show thesis using that(1) try_append_fails [of "captured_of p pair g" bufs] src by (simp add: captured_of_def)
  next
    case (Inr c)
    obtain r where r: "reader_new (cm_buf c) = Inr r" "revision r = revision (mp_reader pair)" "committed_end r = cm_offset c"
      "\<forall>pair'. mp_reader pair' = r \<longrightarrow> view_of pair' = Inr (commit_view op ms rs new_tail v)"
      by (rule append_view [OF act(1,2) er assms(5) Inr op nt assms(7,8)])
    obtain st' where st': "try_append S (captured_of p pair g) op ms rs new_tail bufs st =
        (st', Inr (with_source (active_is_a p pair) bufs (cm_buf c), True))" "Inv st'"
        "img st' = (img st)(as_u32 (active_block pair) := cm_buf c)"
      by (rule try_append_ok [OF assms(1,2,4,9) Inr op src])
    note stg = append_commit_staged [OF act(1,2) Inr op]
    have hc: "has_commits r" using r(3) stg(4) act(2) by (simp add: has_commits_def)
    have "pair_at (img st') p = Inr (pair\<lparr>mp_reader := r\<rparr>)"
      unfolding st'(3) by (rule pair_at_append [OF pa assms(3) r(1,2) hc])
    moreover have "erased_from (cm_buf c) (cm_offset c)"
    proof -
      have "drop (cm_offset c) (img st (as_u32 (active_block pair))) =
          drop (cm_offset c - committed_end (mp_reader pair)) (drop (committed_end (mp_reader pair)) (img st (as_u32 (active_block pair))))"
        using stg(4) by simp
      then show ?thesis using er stg(1,3,4) by simp
    qed
    ultimately have "pair_holds (img st') p (commit_view op ms rs new_tail v)"
      unfolding pair_holds_def pair_ready_def using r(3,4) st'(3) by (intro exI [of _ "pair\<lparr>mp_reader := r\<rparr>"]) simp
    then show thesis using that(2) [OF st'(1,2)] st'(3) by simp
  qed
qed

lemma compact_whole_ok:
  assumes "Inv (fs_storage fs)" "\<not> should_relocate p (fs_root fs) (rb_revision rb) (BLOCK_CYCLES S)" "as_u32 alt < BLOCK_COUNT S"
    and "build_range S ia (rb_revision rb) rb 0 tot ms rs link bufs = Inr (bld, n)"
    and "length bld = BLOCK_SIZE S" "n \<le> length bld" "PROG_SIZE S dvd n" "erased_from bld n"
  obtains st' where "compact_whole S p act alt ia rb tot ms rs link infl bufs fs = (fs\<lparr>fs_storage := st'\<rparr>, Inr (InPlace, with_build ia bufs bld))"
    "Inv st'" "img st' = (img (fs_storage fs))(as_u32 alt := bld)"
proof -
  have w: "wear_target S p act alt ia (rb_revision rb) infl bufs fs = (fs, Inr (None, bufs))"
    using assms(2) by (simp add: wear_target_def with_root_def)
  have c: "combine_rs rs None = rs" by (simp add: combine_rs_def split: option.split)
  obtain st' where s: "rewrite_block S alt bld n (fs_storage fs) = (st', Inr (bld, True))" "Inv st'"
    "img st' = (img (fs_storage fs))(as_u32 alt := bld)"
    by (rule rewrite_ok [OF assms(1,3,6,5,7,8)])
  have o: "on_storage (rewrite_block S alt bld n) fs = (fs\<lparr>fs_storage := st'\<rparr>, Inr (bld, True))"
    by (simp add: on_storage_def s(1))
  show thesis
    by (rule that [OF _ s(2,3)])
       (simp add: compact_whole_def io_bind_Inr [where m = "wear_target S p act alt ia (rb_revision rb) infl bufs", OF w] c assms(4) io_bind_lift
         io_bind_Inr [where m = "on_storage (rewrite_block S alt bld n)", OF o])
qed

lemma compact_whole_fails:
  assumes "\<not> should_relocate p (fs_root fs) (rb_revision rb) (BLOCK_CYCLES S)"
    and "build_range S ia (rb_revision rb) rb 0 tot ms rs link bufs = Inl e"
  shows "compact_whole S p act alt ia rb tot ms rs link infl bufs fs = (fs, Inl e)"
proof -
  have w: "wear_target S p act alt ia (rb_revision rb) infl bufs fs = (fs, Inr (None, bufs))"
    using assms(1) by (simp add: wear_target_def with_root_def)
  have c: "combine_rs rs None = rs" by (simp add: combine_rs_def split: option.split)
  show ?thesis
    by (simp add: compact_whole_def io_bind_Inr [where m = "wear_target S p act alt ia (rb_revision rb) infl bufs", OF w] c assms(2) io_bind_lift)
qed

end

lemma compact_in_place:
  assumes "compute_split_index S (source_of ia bufs) (rb_slots rb) (rb_count rb) (rb_op rb) 0 (op_total (rb_op rb) (rb_count rb)) = Inr 0"
    and "compact_whole S p act alt ia rb (op_total (rb_op rb) (rb_count rb)) ms rs link infl bufs fs = (fs', r)"
    and "\<And>c b. r = Inr (c, b) \<Longrightarrow> c = InPlace"
  shows "compact_and_program S again p act alt ia rb ms rs link infl None bufs fs =
    Some (fs', rbind r (\<lambda>(_, bufs'). Inr (None, bufs')))"
proof -
  have a: "split_allowance S p act ia 0 bufs fs = (fs, Inr (None, bufs))" by (simp add: split_allowance_def)
  show ?thesis using assms(2,3)
    by (cases r) (auto simp: compact_and_program_def op_total_def [symmetric] assms(1) Let_def obind_def olift_def a finish_compact_def)
qed

lemma compact_split_fails:
  assumes "compute_split_index S (source_of ia bufs) (rb_slots rb) (rb_count rb) (rb_op rb) 0 (op_total (rb_op rb) (rb_count rb)) = Inl e"
  shows "compact_and_program S again p act alt ia rb ms rs link infl None bufs fs = Some (fs, Inl e)"
  by (simp add: compact_and_program_def op_total_def [symmetric] assms Let_def obind_def olift_def)

context reliable_flash
begin

lemma sync_ok:
  assumes "Inv st"
  obtains st' where "\<forall>fs. fs_storage fs = st \<longrightarrow> dev_sync_fs S fs = (fs\<lparr>fs_storage := st'\<rparr>, Inr ())" "Inv st'" "img st' = img st"
proof -
  obtain st' where s: "st_sync S st = (st', True)" "Inv st'" "img st' = img st" by (rule sync_image [OF assms])
  have "dev_sync_fs S fs = (fs\<lparr>fs_storage := st'\<rparr>, Inr ())" if "fs_storage fs = st" for fs
    by (simp add: dev_sync_fs_def on_storage_def dev_sync_def that s(1))
  then show thesis using that s(2,3) by blast
qed

text \<open>The compaction branch.\<close>

lemma compact_outcome:
  assumes "Inv (fs_storage fs)" "pair_in_bounds S p" "bp_a p \<noteq> bp_b p" "pair_ready (img (fs_storage fs)) p pair" "view_of pair = Inr v"
    "op_fits op v" "delta_ok MOVE_STATE_BODY_SIZE ms" "delta_ok RELOCATE_STATE_BODY_SIZE rs"
    and g: "gather_live_slots pair = Inr (slots, cnt)"
    and stay: "\<not> should_relocate p (fs_root fs) (revision (mp_reader pair) + 1) (BLOCK_CYCLES S)"
      "\<And>k. compute_split_index S (img (fs_storage fs) (as_u32 (active_block pair))) slots cnt op 0 (op_total op cnt) = Inr k \<Longrightarrow> k = 0"
    and src: "source_of (active_is_a p pair) bufs = img (fs_storage fs) (as_u32 (active_block pair))"
    and bld: "length (build_of (active_is_a p pair) bufs) = BLOCK_SIZE S"
    and rb: "rb = \<lparr>rb_revision = revision (mp_reader pair) + 1, rb_slots = slots, rb_count = cnt, rb_op = op\<rparr>"
    and out: "out = compact_and_program S again p (active_block pair) (alternate_block pair) (active_is_a p pair) rb
      (net_body MOVE_STATE_BODY_SIZE (scan_pair_move_state pair) ms) (net_body RELOCATE_STATE_BODY_SIZE (scan_pair_relocate_state pair) rs)
      (kept_tail new_tail (mp_reader pair)) infl None bufs fs"
  obtains e where "out = Some (fs, Inl e)"
  | st' bufs' where "out = Some (fs\<lparr>fs_storage := st'\<rparr>, Inr (None, bufs'))" "Inv st'"
      "pair_holds (img st') p (commit_view op ms rs new_tail v)"
      "img st' = (img (fs_storage fs))(as_u32 (alternate_block pair) := img st' (as_u32 (alternate_block pair)))"
proof -
  let ?st = "fs_storage fs" and ?ia = "active_is_a p pair"
  let ?m = "net_body MOVE_STATE_BODY_SIZE (scan_pair_move_state pair) ms"
  let ?q = "net_body RELOCATE_STATE_BODY_SIZE (scan_pair_relocate_state pair) rs"
  let ?t = "kept_tail new_tail (mp_reader pair)"
  have pa: "pair_at (img ?st) p = Inr pair" using assms(4) by (simp add: pair_ready_def)
  note act = pair_at_active [OF pa] and inb = active_in_bounds [OF assms(2) pa]
  have op: "op_in_range op (length (pv_entries v))" and len: "length (pv_entries v) = cnt"
    using assms(6) pair_entries_count [OF pa assms(5) g] by (simp_all add: op_fits_def)
  have tgt: "op_adds_entry op \<longrightarrow> cnt < op_total op cnt \<and> op_target op = Some (of_nat cnt)"
    using assms(6) len by (simp add: op_fits_def op_total_def)
  have rbs: "rb_revision rb = revision (mp_reader pair) + 1" "rb_slots rb = slots" "rb_count rb = cnt" "rb_op rb = op"
    by (simp_all add: rb)
  have nw: "\<not> should_relocate p (fs_root fs) (rb_revision rb) (BLOCK_CYCLES S)" using stay(1) by (simp add: rbs)
  show thesis
  proof (cases "compute_split_index S (source_of ?ia bufs) (rb_slots rb) (rb_count rb) (rb_op rb) 0 (op_total (rb_op rb) (rb_count rb))")
    case (Inl e)
    then show thesis using that(1) compact_split_fails [OF Inl] by (simp add: out)
  next
    case (Inr k)
    then have z: "k = 0" using stay(2) src by (simp add: rbs)
    note Inr0 = Inr [unfolded z]
    show thesis
    proof (cases "build_range S ?ia (rb_revision rb) rb 0 (op_total (rb_op rb) (rb_count rb)) ?m ?q ?t bufs")
      case (Inl e)
      have "compact_whole S p (active_block pair) (alternate_block pair) ?ia rb (op_total (rb_op rb) (rb_count rb)) ?m ?q ?t infl bufs fs = (fs, Inl e)"
        by (rule compact_whole_fails [OF nw Inl])
      from compact_in_place [OF Inr0 this, of again] have "out = Some (fs, Inl e)" unfolding out by simp
      then show thesis by (rule that(1))
    next
      case (Inr x)
      obtain buf n' where x: "x = (buf, n')" by fastforce
      have b: "build_compact_commit (build_of ?ia bufs) (img ?st (as_u32 (active_block pair))) (revision (mp_reader pair) + 1)
          slots cnt op 0 (op_total op cnt) (PROG_SIZE S) (BLOCK_SIZE S) ?m ?q ?t = Inr (buf, n')"
        using Inr x src by (simp add: build_range_def rbs)
      obtain r where r: "reader_new buf = Inr r" "revision r = revision (mp_reader pair) + 1" "committed_end r = n'"
        "\<forall>pair'. mp_reader pair' = r \<longrightarrow> view_of pair' = Inr (commit_view op ms rs new_tail v)"
        by (rule compact_view [OF act(1) g b _ assms(5) op tgt assms(7,8)]) (simp add: op_total_def)
      note stg = compact_commit_staged [OF act(1) b op]
      obtain st' where s: "compact_whole S p (active_block pair) (alternate_block pair) ?ia rb (op_total (rb_op rb) (rb_count rb)) ?m ?q ?t infl bufs fs
          = (fs\<lparr>fs_storage := st'\<rparr>, Inr (InPlace, with_build ?ia bufs buf))" "Inv st'"
          "img st' = (img ?st)(as_u32 (alternate_block pair) := buf)"
        by (rule compact_whole_ok [OF assms(1) nw inb(2) Inr [unfolded x]]) (use stg bld units(1) in auto)
      have "pair_at (img st') p = Inr \<lparr>active_block = alternate_block pair, alternate_block = active_block pair, mp_reader = r, alternate_valid = True\<rparr>"
        unfolding s(3) by (rule pair_at_compact [OF pa assms(3) r(1,2)]) (use r(3) stg(3) in \<open>simp add: has_commits_def\<close>)
      then have "pair_holds (img st') p (commit_view op ms rs new_tail v)"
        unfolding pair_holds_def pair_ready_def using r(3,4) stg(5) s(3)
          by (intro exI [of _ "\<lparr>active_block = alternate_block pair, alternate_block = active_block pair, mp_reader = r, alternate_valid = True\<rparr>"]) simp
      then show thesis
        using that(2) [OF _ s(2)] compact_in_place [OF Inr0 s(1), of again] s(3) unfolding out by simp
    qed
  qed
qed

end

context reliable_flash
begin

text \<open>The whole commit.\<close>

lemma commit_step:
  assumes "Inv (fs_storage fs)" "bufs_ok S bufs" "pair_in_bounds S p" "bp_a p \<noteq> bp_b p"
    and "pair_ready (img (fs_storage fs)) p pair" "view_of pair = Inr v" "op_fits op v"
    and "delta_ok MOVE_STATE_BODY_SIZE ms" "delta_ok RELOCATE_STATE_BODY_SIZE rs"
    and stay: "stays_in_place S (fs_root fs) p (img (fs_storage fs)) pair op ms rs new_tail"
  shows "commit_outcome Inv img p (commit_view op ms rs new_tail v) fs (apply_op_to_pair_inner (Suc n) S p op ms rs new_tail infl bufs fs)"
proof -
  let ?im = "img (fs_storage fs)" and ?ia = "active_is_a p pair"
  let ?B = "(?im (as_u32 (bp_a p)), ?im (as_u32 (bp_b p)))"
  let ?again = "apply_op_to_pair_inner n S"
  have pa: "pair_at ?im p = Inr pair" using assms(5) by (simp add: pair_ready_def)
  obtain s1 where s1: "capture S p bufs (fs_storage fs) = (s1, rbind (gather_live_slots pair) (\<lambda>g. Inr (?B, captured_of p pair g)))"
    "Inv s1" "img s1 = ?im" by (rule capture_ok [OF assms(1-3) pa])
  let ?fs1 = "fs\<lparr>fs_storage := s1\<rparr>"
  have sides: "as_u32 (active_block pair) = as_u32 (bp_a p) \<or> as_u32 (active_block pair) = as_u32 (bp_b p)"
    "as_u32 (alternate_block pair) = as_u32 (bp_a p) \<or> as_u32 (alternate_block pair) = as_u32 (bp_b p)"
    by (cases rule: pair_at_cases [OF pa]; simp)+
  show ?thesis
  proof (cases "gather_live_slots pair")
    case (Inl e)
    then have "apply_op_to_pair_inner (Suc n) S p op ms rs new_tail infl bufs fs = Some (?fs1, Inl e)"
      by (simp add: apply_body_def obind_def olift_def on_storage_def s1(1))
    then show ?thesis using commit_outcomeI_Inl [of Inv s1 img fs] s1 by simp
  next
    case (Inr g)
    obtain slots cnt where gg: "g = (slots, cnt)" by fastforce
    have src: "source_of ?ia ?B = img s1 (as_u32 (active_block pair))" using source_is_active [OF pa] s1(3) by simp
    have rd: "pair_ready (img s1) p pair" using assms(5) s1(3) by simp
    note run = apply_body_def obind_def olift_def on_storage_def s1(1) Inr Let_def
    show ?thesis
    proof (cases "can_append S (captured_of p pair g) op ms rs new_tail")
      case True
      show ?thesis
      proof (cases rule: append_outcome [OF s1(2) assms(3,4) rd assms(6-9) True src])
        fix e assume t: "try_append S (captured_of p pair g) op ms rs new_tail ?B s1 = (s1, Inl e)"
        have "apply_op_to_pair_inner (Suc n) S p op ms rs new_tail infl bufs fs = Some (fs\<lparr>fs_storage := s1\<rparr>, Inl e)"
          using t True by (simp add: run)
        then show ?thesis using commit_outcomeI_Inl [of Inv s1 img fs] s1 by simp
      next
        fix s2 bufs' assume t: "try_append S (captured_of p pair g) op ms rs new_tail ?B s1 = (s2, Inr (bufs', True))" "Inv s2"
          "pair_holds (img s2) p (commit_view op ms rs new_tail v)"
          "img s2 = (img s1)(as_u32 (active_block pair) := img s2 (as_u32 (active_block pair)))"
        obtain s3 where s3: "\<forall>fs. fs_storage fs = s2 \<longrightarrow> dev_sync_fs S fs = (fs\<lparr>fs_storage := s3\<rparr>, Inr ())" "Inv s3" "img s3 = img s2"
          by (rule sync_ok [OF t(2)])
        have "apply_op_to_pair_inner (Suc n) S p op ms rs new_tail infl bufs fs = Some (fs\<lparr>fs_storage := s3\<rparr>, Inr bufs')"
          using t(1) True by (simp add: run s3(1))
        then show ?thesis
          by (simp only:) (rule commit_outcomeI_Inr [where Inv = Inv and img = img and fs = fs and st' = s3, OF s3(2) t(3) [folded s3(3)] t(4) [folded s3(3), unfolded s1(3)] sides(1)])
      qed
    next
      case False
      then have st: "\<not> should_relocate p (fs_root ?fs1) (revision (mp_reader pair) + 1) (BLOCK_CYCLES S)"
        "compute_split_index S (img (fs_storage ?fs1) (as_u32 (active_block pair))) slots cnt op 0 (op_total op cnt) = Inr k \<Longrightarrow> k = 0" for k
        using stay can_append_captured [of S p pair "([], 0)" g] Inr gg s1(3) by (auto simp: stays_in_place_def)
      have im1: "img (fs_storage ?fs1) = ?im" using s1(3) by simp
      have bl: "length (build_of ?ia ?B) = BLOCK_SIZE S"
        using assms(3) img_length [OF assms(1)] by (simp add: build_of_def pair_in_bounds_def)
      have base: "Inv (fs_storage ?fs1)" "pair_ready (img (fs_storage ?fs1)) p pair"
        "source_of ?ia ?B = img (fs_storage ?fs1) (as_u32 (active_block pair))" using s1(2) rd src by simp_all
      show ?thesis
      proof (cases rule: compact_outcome [OF base(1) assms(3,4) base(2) assms(6-9) Inr [unfolded gg] st base(3) bl refl refl, where again = ?again and infl = infl and new_tail = new_tail])
        fix e assume t: "compact_and_program S ?again p (active_block pair) (alternate_block pair) ?ia
          \<lparr>rb_revision = revision (mp_reader pair) + 1, rb_slots = slots, rb_count = cnt, rb_op = op\<rparr>
          (net_body MOVE_STATE_BODY_SIZE (scan_pair_move_state pair) ms) (net_body RELOCATE_STATE_BODY_SIZE (scan_pair_relocate_state pair) rs)
          (kept_tail new_tail (mp_reader pair)) infl None ?B ?fs1 = Some (?fs1, Inl e)"
        have "apply_op_to_pair_inner (Suc n) S p op ms rs new_tail infl bufs fs = Some (fs\<lparr>fs_storage := s1\<rparr>, Inl e)"
          using t False by (simp add: run gg kept_tail_case)
        then show ?thesis using commit_outcomeI_Inl [of Inv s1 img fs] s1 by simp
      next
        fix s2 bufs' assume t: "compact_and_program S ?again p (active_block pair) (alternate_block pair) ?ia
          \<lparr>rb_revision = revision (mp_reader pair) + 1, rb_slots = slots, rb_count = cnt, rb_op = op\<rparr>
          (net_body MOVE_STATE_BODY_SIZE (scan_pair_move_state pair) ms) (net_body RELOCATE_STATE_BODY_SIZE (scan_pair_relocate_state pair) rs)
          (kept_tail new_tail (mp_reader pair)) infl None ?B ?fs1 = Some (?fs1\<lparr>fs_storage := s2\<rparr>, Inr (None, bufs'))" "Inv s2"
          "pair_holds (img s2) p (commit_view op ms rs new_tail v)"
          "img s2 = (img (fs_storage ?fs1))(as_u32 (alternate_block pair) := img s2 (as_u32 (alternate_block pair)))"
        obtain s3 where s3: "\<forall>fs. fs_storage fs = s2 \<longrightarrow> dev_sync_fs S fs = (fs\<lparr>fs_storage := s3\<rparr>, Inr ())" "Inv s3" "img s3 = img s2"
          by (rule sync_ok [OF t(2)])
        have "apply_op_to_pair_inner (Suc n) S p op ms rs new_tail infl bufs fs = Some (fs\<lparr>fs_storage := s3\<rparr>, Inr bufs')"
          using t(1) False by (simp add: run gg kept_tail_case s3(1))
        then show ?thesis
          by (simp only:) (rule commit_outcomeI_Inr [where Inv = Inv and img = img and fs = fs and st' = s3, OF s3(2) t(3) [folded s3(3)] t(4) [folded s3(3), unfolded im1] sides(2)])
      qed
    qed
  qed
qed

end
section \<open>An append that passes its guard succeeds\<close>

text \<open>The tags of an operation have bodies of their declared length.\<close>

definition op_sized :: "write_op \<Rightarrow> bool" where
  "op_sized op \<longleftrightarrow> list_all (\<lambda>e. length (te_body e) = body_len (te_tag e)) (op_tags op)"

lemma commit_tags_ok:
  "list_all (\<lambda>e. \<not> is_ccrc (te_tag e) \<and> length (te_body e) = body_len (te_tag e)) es \<Longrightarrow>
   cm_offset c + sum_list (map (\<lambda>e. dsize (te_tag e)) es) \<le> length (cm_buf c) \<Longrightarrow>
   \<exists>c'. commit_tags c es = Inr c'"
proof (induction es arbitrary: c)
  case (Cons e es)
  obtain d where d: "commit_tag c (te_tag e) (te_body e) = Inr d" "cm_offset d = cm_offset c + dsize (te_tag e)"
    "length (cm_buf d) = length (cm_buf c)" using commit_tag_ok [of "te_tag e" "te_body e" c] Cons.prems by auto
  show ?case using Cons.IH [of d] Cons.prems d by simp
qed simp

lemma gstate_tags_sized:
  assumes "\<And>b. mb = Some b \<Longrightarrow> length b = MOVE_STATE_BODY_SIZE" "\<And>b. qb = Some b \<Longrightarrow> length b = RELOCATE_STATE_BODY_SIZE"
  shows "list_all (\<lambda>e. length (te_body e) = body_len (te_tag e)) (gstate_tags mb qb link)"
    "sum_list (map (\<lambda>e. dsize (te_tag e)) (gstate_tags mb qb link)) =
      (if mb = None then 0 else 4 + MOVE_STATE_BODY_SIZE) + (if qb = None then 0 else 4 + RELOCATE_STATE_BODY_SIZE) +
      (if link = None then 0 else 4 + 8)"
  using assms body_len_Tag_new [of MOVE_STATE_BODY_SIZE] body_len_Tag_new [of RELOCATE_STATE_BODY_SIZE] body_len_Tag_new [of 8]
  by (auto simp: body_tags_def tail_tags_def dsize_def MOVE_STATE_BODY_SIZE_def RELOCATE_STATE_BODY_SIZE_def split: option.splits)

lemma plain_not_ccrc: "op_in_range op n \<Longrightarrow> list_all (\<lambda>e. \<not> is_ccrc (te_tag e)) (op_tags op)"
  by (cases op) (auto simp: attr_tags_def list_all_iff is_ccrc_def op_in_range_def name_type_ok_def)

lemma gstate_not_ccrc: "list_all (\<lambda>e. \<not> is_ccrc (te_tag e)) (gstate_tags mb qb link)"
  by (auto simp: body_tags_def tail_tags_def is_ccrc_def split: option.splits)

lemma sum_op_tags: "op_sized op \<Longrightarrow> sum_list (map (\<lambda>e. dsize (te_tag e)) (op_tags op)) + 8 = op_dsize_of op"
proof -
  assume s: "op_sized op"
  have "sum_list (map (\<lambda>e. 4 + length (te_body e)) (op_tags op)) + 8 = op_dsize_of op"
    by (cases op) (simp_all add: sum_attr_tags staged_dsize_def)
  then show ?thesis using sum_sized [of "op_tags op"] s by (simp add: op_sized_def list_all_iff)
qed

lemma append_commit_ok:
  assumes "op_in_range op n" "op_sized op" "p dvd bs" "0 < p" "p \<le> 1006" "length buf = bs"
    and "\<And>b. mb = Some b \<Longrightarrow> length b = MOVE_STATE_BODY_SIZE" "\<And>b. qb = Some b \<Longrightarrow> length b = RELOCATE_STATE_BODY_SIZE"
    and "fin + (op_dsize_of op + (if mb = None then 0 else 4 + MOVE_STATE_BODY_SIZE) +
      (if qb = None then 0 else 4 + RELOCATE_STATE_BODY_SIZE) + (if link = None then 0 else 4 + 8)) \<le> bs"
  shows "\<exists>c. append_commit buf fin ptag op mb qb link p bs = Inr c"
proof -
  let ?es = "op_tags op @ gstate_tags mb qb link"
  have gs: "list_all (\<lambda>e. length (te_body e) = body_len (te_tag e)) (gstate_tags mb qb link)"
    "sum_list (map (\<lambda>e. dsize (te_tag e)) (gstate_tags mb qb link)) =
      (if mb = None then 0 else 4 + MOVE_STATE_BODY_SIZE) + (if qb = None then 0 else 4 + RELOCATE_STATE_BODY_SIZE) +
      (if link = None then 0 else 4 + 8)" by (rule gstate_tags_sized; fact assms)+
  have sz: "sum_list (map (\<lambda>e. dsize (te_tag e)) ?es) + 8 = op_dsize_of op + (if mb = None then 0 else 4 + MOVE_STATE_BODY_SIZE) +
      (if qb = None then 0 else 4 + RELOCATE_STATE_BODY_SIZE) + (if link = None then 0 else 4 + 8)"
    using sum_op_tags [OF assms(2)] gs(2) by simp
  have room: "fin + sum_list (map (\<lambda>e. dsize (te_tag e)) ?es) + 8 \<le> bs" using sz assms(9) by linarith
  obtain c0 where c0: "commit_new_appending buf fin ptag = Inr c0" "cm_offset c0 = fin" "cm_buf c0 = buf"
    using room assms(6) by (auto simp: commit_new_appending_def)
  have "list_all (\<lambda>e. \<not> is_ccrc (te_tag e) \<and> length (te_body e) = body_len (te_tag e)) ?es"
    using plain_not_ccrc [OF assms(1)] gstate_not_ccrc [of mb qb link] gs(1) assms(2) unfolding op_sized_def list_all_iff by auto
  from commit_tags_ok [OF this, of c0] obtain c1 where c1: "commit_tags c0 ?es = Inr c1"
    using c0 room assms(6) by auto
  have o1: "cm_offset c1 = fin + sum_list (map (\<lambda>e. dsize (te_tag e)) ?es)" "length (cm_buf c1) = bs"
    using commit_tags_offset [OF c1] c0 assms(6) by simp_all
  let ?m = "min (cm_offset c1 + 20) bs"
  have f1: "?m \<le> div_ceil ?m p * p" by (rule div_ceil_ge [OF assms(4)])
  have f2: "div_ceil ?m p * p < ?m + p"
    by (rule le_less_trans [of _ "?m + p - 1"]) (use assms(4) in \<open>simp_all add: div_ceil_def\<close>)
  have f3: "div_ceil ?m p * p \<le> bs"
    using next_multiple_of_le [OF assms(4,3), of ?m] by (simp add: next_multiple_of_def div_ceil_def)
  have "\<exists>c. commit_finish_padded c1 0 p bs = Inr c \<and> cm_offset c = div_ceil ?m p * p \<and> length (cm_buf c) = length (cm_buf c1)"
    by (rule commit_finish_padded_ok [OF refl assms(4) f3]) (use f1 f2 o1 room assms(5) in auto)
  then show ?thesis using c0(1) c1 by (auto simp: append_commit_tags)
qed

context reliable_flash
begin

lemma append_step:
  assumes "Inv (fs_storage fs)" "bufs_ok S bufs" "pair_in_bounds S p" "bp_a p \<noteq> bp_b p"
    and "pair_ready (img (fs_storage fs)) p pair" "view_of pair = Inr v" "gather_live_slots pair = Inr g" "op_fits op v" "op_sized op"
    and "delta_ok MOVE_STATE_BODY_SIZE ms" "delta_ok RELOCATE_STATE_BODY_SIZE rs" "PROG_SIZE S \<le> 1006"
    and can: "can_append S (captured_of p pair g) op ms rs new_tail"
  shows "\<exists>st' bufs'. apply_op_to_pair_inner (Suc n) S p op ms rs new_tail infl bufs fs = Some (fs\<lparr>fs_storage := st'\<rparr>, Inr bufs') \<and>
    Inv st' \<and> pair_holds (img st') p (commit_view op ms rs new_tail v) \<and>
    (\<forall>b. b \<noteq> as_u32 (active_block pair) \<longrightarrow> img st' b = img (fs_storage fs) b)"
proof -
  let ?im = "img (fs_storage fs)" and ?ia = "active_is_a p pair" and ?b = "as_u32 (active_block pair)"
  let ?B = "(?im (as_u32 (bp_a p)), ?im (as_u32 (bp_b p)))"
  have pa: "pair_at ?im p = Inr pair" using assms(5) by (simp add: pair_ready_def)
  note act = pair_at_active [OF pa] and inb = active_in_bounds [OF assms(3) pa]
  obtain s1 where s1: "capture S p bufs (fs_storage fs) = (s1, rbind (gather_live_slots pair) (\<lambda>g. Inr (?B, captured_of p pair g)))"
    "Inv s1" "img s1 = ?im" by (rule capture_ok [OF assms(1-3) pa])
  have src: "source_of ?ia ?B = img s1 ?b" using source_is_active [OF pa] s1(3) by simp
  have rd: "pair_ready (img s1) p pair" using assms(5) s1(3) by simp
  have op: "op_in_range op (length (pv_entries v))" using assms(8) by (simp add: op_fits_def)
  let ?mb = "map_option (xor_bytes (scan_pair_move_state pair)) ms" and ?qb = "map_option (xor_bytes (scan_pair_relocate_state pair)) rs"
  have "\<exists>c. append_commit (?im ?b) (committed_end (mp_reader pair)) (next_ptag (mp_reader pair)) op ?mb ?qb new_tail (PROG_SIZE S) (BLOCK_SIZE S) = Inr c"
  proof (rule append_commit_ok [OF op assms(9) units(3,1) assms(12)])
    show "length (?im ?b) = BLOCK_SIZE S" by (rule img_length [OF assms(1) inb(1)])
    show "length b = MOVE_STATE_BODY_SIZE" if "?mb = Some b" for b
      using that assms(10) by (auto simp: delta_ok_def xor_bytes_def scan_pair_move_state_def)
    show "length b = RELOCATE_STATE_BODY_SIZE" if "?qb = Some b" for b
      using that assms(11) by (auto simp: delta_ok_def xor_bytes_def scan_pair_relocate_state_def)
  qed (use can in \<open>simp add: can_append_def Let_def commit_size_def\<close>)
  then obtain c where c: "append_commit (?im ?b) (committed_end (mp_reader pair)) (next_ptag (mp_reader pair)) op ?mb ?qb new_tail (PROG_SIZE S) (BLOCK_SIZE S) = Inr c"
    by blast
  show ?thesis
  proof (cases rule: append_outcome [OF s1(2) assms(3,4) rd assms(6,8,10,11) can src])
    fix e assume "try_append S (captured_of p pair g) op ms rs new_tail ?B s1 = (s1, Inl e)"
    moreover obtain s2 where "try_append S (captured_of p pair g) op ms rs new_tail ?B s1 = (s2, Inr (with_source ?ia ?B (cm_buf c), True))"
      by (rule try_append_ok [OF s1(2) assms(3) rd can c [folded s1(3)] op src])
    ultimately show ?thesis by simp
  next
    fix s2 bufs' assume t: "try_append S (captured_of p pair g) op ms rs new_tail ?B s1 = (s2, Inr (bufs', True))" "Inv s2"
      "pair_holds (img s2) p (commit_view op ms rs new_tail v)" "img s2 = (img s1)(?b := img s2 ?b)"
    obtain s3 where s3: "\<forall>fs. fs_storage fs = s2 \<longrightarrow> dev_sync_fs S fs = (fs\<lparr>fs_storage := s3\<rparr>, Inr ())" "Inv s3" "img s3 = img s2"
      by (rule sync_ok [OF t(2)])
    have "apply_op_to_pair_inner (Suc n) S p op ms rs new_tail infl bufs fs = Some (fs\<lparr>fs_storage := s3\<rparr>, Inr bufs')"
      using t(1) can by (simp add: apply_body_def obind_def olift_def on_storage_def s1(1) assms(7) Let_def s3(1))
    moreover have "img s3 b = ?im b" if "b \<noteq> ?b" for b using fun_cong [OF t(4), of b] that s1(3) s3(3) by simp
    ultimately show ?thesis using s3(2,3) t(3) by auto
  qed
qed

end


section \<open>A device for the witnesses\<close>

text \<open>A block of 256 bytes with one empty commit behind which the next program window is checksummed.\<close>

definition fresh_block :: "byte list" where
  "fresh_block =
     [1, 0, 0, 0, 160, 0, 3, 247, 16, 0, 0, 0, 229, 57, 76, 192, 15, 240, 0, 4, 134, 16, 149, 68, 255, 255, 255, 255, 255, 255, 255, 255]
     @ replicate 224 0xFF"

definition fresh_dev :: "byte list" where
  "fresh_dev = fresh_block @ fresh_block @ replicate 1536 0xFF"

abbreviation fresh_fs :: "byte list fs" where
  "fresh_fs \<equiv> \<lparr>fs_storage = fresh_dev,
     fs_superblock = \<lparr>version = DISK_VERSION, sb_block_size = 256, sb_block_count = 8, name_max = 255, file_max = 2147483647, attr_max = 1022\<rparr>,
     fs_root = ROOT_BLOCK_PAIR, used_cache = None, fs_pending_move = None\<rparr>"

abbreviation empty_view :: pair_view where
  "empty_view \<equiv> \<lparr>pv_entries = [], pv_tail = (None, False), pv_move = replicate MOVE_STATE_BODY_SIZE 0,
     pv_relocate = replicate RELOCATE_STATE_BODY_SIZE 0\<rparr>"

lemma fresh_reader:
  obtains r where "reader_new fresh_block = Inr r" "has_commits r" "rd_erased r" "erased_from fresh_block (committed_end r)"
    "committed_end r = 32" "crc_entries (iter_tags r)" "length fresh_block = 256"
proof -
  have "case reader_new fresh_block of Inl _ \<Rightarrow> False
    | Inr r \<Rightarrow> has_commits r \<and> rd_erased r \<and> erased_from fresh_block (committed_end r) \<and> committed_end r = 32 \<and>
        crc_entries (iter_tags r) \<and> length fresh_block = 256" by code_simp
  then show thesis using that by (auto split: sum.splits)
qed

lemma fresh_pair:
  obtains pair where "pair_ready (mem_img 256 fresh_dev) ROOT_BLOCK_PAIR pair" "view_of pair = Inr empty_view"
    "\<exists>g. gather_live_slots pair = Inr g" "rd_erased (mp_reader pair)" "committed_end (mp_reader pair) = 32" "mem_inv 256 8 fresh_dev"
    "snd (projr (gather_live_slots pair)) = 0" "active_block pair = BlockAddress 0" "alternate_block pair = BlockAddress 1"
    "mem_img 256 fresh_dev 0 = fresh_block"
proof (rule fresh_reader)
  fix r assume r: "reader_new fresh_block = Inr r" "has_commits r" "rd_erased r" "erased_from fresh_block (committed_end r)"
    "committed_end r = 32" "crc_entries (iter_tags r)" "length fresh_block = 256"
  let ?p = "\<lparr>active_block = BlockAddress 0, alternate_block = BlockAddress 1, mp_reader = r, alternate_valid = True\<rparr>"
  have im: "mem_img 256 fresh_dev 0 = fresh_block" "mem_img 256 fresh_dev 1 = fresh_block" "mem_inv 256 8 fresh_dev"
    using r(7) by (simp_all add: mem_img_def mem_inv_def fresh_dev_def slice_def)
  have pa: "pair_at (mem_img 256 fresh_dev) ROOT_BLOCK_PAIR = Inr ?p"
    by (simp add: pair_at_def ROOT_BLOCK_PAIR_def im same_block_pair [OF r(1,2)])
  have ld: "log_dir (iter_tags r) = Inr []"
    using log_dir_append [OF log_dir_Nil dir_steps_inert [OF crc_entries_inert [OF r(6)]]] by simp
  have nb: "newest_body ty n (iter_tags_rev r) = replicate n 0" if "ty = MoveState \<or> ty = RelocateState" for ty n
    using newest_body_skip [of "rev (iter_tags r)" ty n "[]"] crc_types [OF r(6)] reader_facts(1) [OF r(1)] that by auto
  have "view_of ?p = Inr empty_view"
    using ld nb tail_of_crc [OF r(6)] reader_facts(2) [OF r(1)]
    by (simp add: view_of_def scan_pair_move_state_def scan_pair_relocate_state_def)
  moreover have "gather_live_slots ?p = Inr (replicate MAX_LIVE_ENTRIES slot_EMPTY, 0)"
    using crc_gather_slots [of "tags_at (reader_iter r)"] r(6) tags_at_from [of "reader_iter r"]
    by (simp add: gather_live_slots_def iter_tags_def)
  ultimately show thesis using that [of ?p] pa r im by (simp add: pair_ready_def)
qed


section \<open>Properties\<close>

text \<open>C1. The commit refines its specification. On a device none of whose legal calls fails, applying
  an operation to a readable pair returns, and either the pair now holds the abstract content the
  operation, the gstate deltas and the tail override lead to, every block outside the pair untouched,
  or an error is returned and no block has changed. The pair is again one that a commit can be applied
  to. The property covers the commits that stay in place: the append, and the compaction that neither
  splits the directory nor fires wear levelling.\<close>

theorem commit_refines:
  assumes "reliable_flash S Inv img" and "Inv (fs_storage fs)" and "bufs_ok S bufs" and "pair_in_bounds S p" and "bp_a p \<noteq> bp_b p"
    and "pair_ready (img (fs_storage fs)) p pair" and "view_of pair = Inr v" and "op_fits op v"
    and "delta_ok MOVE_STATE_BODY_SIZE ms" and "delta_ok RELOCATE_STATE_BODY_SIZE rs"
    and "stays_in_place S (fs_root fs) p (img (fs_storage fs)) pair op ms rs new_tail"
  shows "commit_outcome Inv img p (commit_view op ms rs new_tail v) fs (apply_op_to_pair_inner (Suc n) S p op ms rs new_tail infl bufs fs)"
  by (rule reliable_flash.commit_step [OF assms])

theorem commit_refines_witness:
  "commit_outcome (mem_inv 256 8) (mem_img 256) ROOT_BLOCK_PAIR
     (commit_view (OpCreate 0 [97] [120] []) None None (Some (pair_new block_NONE block_NONE, False)) empty_view) fresh_fs
     (apply_op_to_pair_inner (Suc 0) dev256 ROOT_BLOCK_PAIR (OpCreate 0 [97] [120] []) None None
        (Some (pair_new block_NONE block_NONE, False)) inflight_NONE bufs256 fresh_fs)"
proof (rule fresh_pair)
  fix pair assume p: "pair_ready (mem_img 256 fresh_dev) ROOT_BLOCK_PAIR pair" "view_of pair = Inr empty_view"
    "\<exists>g. gather_live_slots pair = Inr g" "rd_erased (mp_reader pair)" "committed_end (mp_reader pair) = 32" "mem_inv 256 8 fresh_dev"
    "snd (projr (gather_live_slots pair)) = 0"
  have "stays_in_place dev256 ROOT_BLOCK_PAIR ROOT_BLOCK_PAIR (mem_img 256 fresh_dev) pair (OpCreate 0 [97] [120] []) None None
      (Some (pair_new block_NONE block_NONE, False))"
    using p(3,7) by (auto simp: stays_in_place_def should_relocate_def op_total_def compute_split_index_def split_loop.simps)
  then show ?thesis
    by (intro commit_refines [OF rel256.reliable_flash_axioms, where pair = pair])
       (use p dev256_facts(1) root_dev_in_bounds in \<open>simp_all add: op_fits_def op_in_range_def delta_ok_def MAX_LIVE_ENTRIES_def\<close>,
        simp add: ROOT_BLOCK_PAIR_def pair_new_def)
qed



section \<open>Interrupted commits\<close>

lemma pair_at_longer:
  assumes "pair_at im p = Inr pair" "bp_a p \<noteq> bp_b p"
    and "reader_new (im' (as_u32 (active_block pair))) = Inr r" "revision r = revision (mp_reader pair)" "has_commits r"
    and "im' (as_u32 (alternate_block pair)) = im (as_u32 (alternate_block pair))"
  shows "pair_at im' p = Inr (pair\<lparr>mp_reader := r\<rparr>)"
proof -
  have "pair_at im' p = pair_at (im(as_u32 (active_block pair) := im' (as_u32 (active_block pair)))) p"
    using assms(2,6) by (cases rule: pair_at_cases [OF assms(1)]) (auto simp: pair_at_def block_address.expand)
  then show ?thesis using pair_at_append [OF assms(1-5)] by simp
qed

text \<open>C8. An append that power loss cuts short takes nothing back: whatever bytes the active block then
  holds behind the old committed end, the pair still reads as the same block under the same revision,
  with every committed entry in place and at most further verified entries behind them.\<close>

theorem interrupted_append:
  assumes "pair_at im p = Inr pair" and "bp_a p \<noteq> bp_b p"
    and "im' (as_u32 (alternate_block pair)) = im (as_u32 (alternate_block pair))"
    and "take (committed_end (mp_reader pair)) (im' (as_u32 (active_block pair))) =
      take (committed_end (mp_reader pair)) (im (as_u32 (active_block pair)))"
    and "length (im' (as_u32 (active_block pair))) = length (im (as_u32 (active_block pair)))"
  shows "\<exists>r more. pair_at im' p = Inr (pair\<lparr>mp_reader := r\<rparr>) \<and> revision r = revision (mp_reader pair) \<and>
    iter_tags r = iter_tags (mp_reader pair) @ more"
proof -
  note act = pair_at_active [OF assms(1)]
  have l: "4 \<le> length (im' (as_u32 (active_block pair)))"
    by (rule reader_new_path [OF act(1)]) (use assms(5) in simp)
  have ce: "committed_end (mp_reader pair) \<le> length (im' (as_u32 (active_block pair)))"
    using reader_facts(4) [OF act(1)] assms(5) by simp
  obtain r more where r: "reader_new (im' (as_u32 (active_block pair))) = Inr r" "committed_end (mp_reader pair) \<le> committed_end r"
    "iter_tags r = iter_tags (mp_reader pair) @ more" "revision r = revision (mp_reader pair)"
    by (rule reader_new_prefix [OF act(1) assms(4) [symmetric] l ce]) (use act(2) in blast)
  have "has_commits r" using r(2) act(2) by (simp add: has_commits_def)
  from pair_at_longer [OF assms(1,2) r(1,4) this assms(3)] show ?thesis using r(3,4) by blast
qed

theorem interrupted_append_witness:
  "\<exists>pair r more. pair_at (mem_img 256 fresh_dev) ROOT_BLOCK_PAIR = Inr pair \<and>
     pair_at ((mem_img 256 fresh_dev)(0 := take 32 fresh_block @ [1, 2, 3, 4] @ drop 36 fresh_block)) ROOT_BLOCK_PAIR = Inr (pair\<lparr>mp_reader := r\<rparr>) \<and>
     iter_tags r = iter_tags (mp_reader pair) @ more"
proof (rule fresh_pair)
  fix pair assume p: "pair_ready (mem_img 256 fresh_dev) ROOT_BLOCK_PAIR pair" "committed_end (mp_reader pair) = 32"
    "active_block pair = BlockAddress 0" "alternate_block pair = BlockAddress 1" "mem_img 256 fresh_dev 0 = fresh_block"
  have l: "length fresh_block = 256" by (simp add: fresh_block_def)
  have pa: "pair_at (mem_img 256 fresh_dev) ROOT_BLOCK_PAIR = Inr pair" using p(1) by (simp add: pair_ready_def)
  from interrupted_append [OF pa, of "(mem_img 256 fresh_dev)(0 := take 32 fresh_block @ [1, 2, 3, 4] @ drop 36 fresh_block)"]
  show ?thesis using p pa l by (auto simp: ROOT_BLOCK_PAIR_def pair_new_def)
qed




end
