(* ===== verification/Streams.thy ===== *)
theory Streams
  imports Applied Alloc_Safety
begin

text \<open>
  Writing file content (\<open>src/src/fs.rs\<close>): building a whole CTZ chain (\<open>try_build_ctz_chain\<close> and the
  retry loop of \<open>write_ctz_to_pair\<close>), extending one at its end (\<open>stream_ctz_extend\<close>) and cutting one
  (\<open>shrink_ctz_head\<close>). None of these commits anything: they program blocks no committed metadata
  names, except for the last fill of a clean tail.

  The loops that retry with a worn block excluded end after \<open>MAX_BAD_BLOCK_RETRIES\<close> exclusions.
\<close>

section \<open>Allocation under a handle\<close>

definition MAX_CTZ_WRITE_BLOCKS :: nat where "MAX_CTZ_WRITE_BLOCKS = 256"

definition fs_allocs ::
  "'s storage \<Rightarrow> block_address list \<Rightarrow> (u32 \<times> u32) option \<Rightarrow> block_address list \<Rightarrow> bufs \<Rightarrow> ('s fs, block_address list \<times> bufs) io" where
  "fs_allocs S excluded chain out bufs = (\<lambda>fs.
     case alloc_blocks_cached S (fs_root fs) excluded chain out (fst bufs) (snd bufs) (fs_storage fs, used_cache fs) of
       ((st, cache), r) \<Rightarrow> (fs\<lparr>fs_storage := st, used_cache := cache\<rparr>, r))"


section \<open>Building a chain\<close>

text \<open>The skip pointers of a block, and its image: erased, pointers, content.\<close>

fun put_pointers :: "(nat \<Rightarrow> u32) \<Rightarrow> nat list \<Rightarrow> byte list \<Rightarrow> byte list" where
  "put_pointers tgt [] buf = buf"
| "put_pointers tgt (k # ks) buf = put_pointers tgt ks (splice buf (4 * k) (to_le_bytes (tgt k)))"

definition chain_image :: "nat \<Rightarrow> nat \<Rightarrow> (nat \<Rightarrow> u32) \<Rightarrow> byte list \<Rightarrow> byte list" where
  "chain_image n i tgt chunk =
     (let pointer_count = unat (skip_pointers_in_block (of_nat i))
      in splice (put_pointers tgt [0..<pointer_count] (replicate n 0xFF)) (4 * pointer_count) chunk)"

text \<open>The blocks of \<open>chain\<close> with the given positions; the answer names the first worn block.\<close>

fun build_blocks ::
  "'s storage \<Rightarrow> block_address list \<Rightarrow> byte list \<Rightarrow> nat list \<Rightarrow> nat \<Rightarrow> byte list \<Rightarrow> ('s, byte list \<times> u32 option) io" where
  "build_blocks S chain content [] content_off buf_a = io_return (buf_a, None)"
| "build_blocks S chain content (i # is) content_off buf_a =
     (let header = 4 * unat (skip_pointers_in_block (of_nat i));
          tk = min (BLOCK_SIZE S - header) (length content - content_off);
          img = chain_image (length buf_a) i (\<lambda>k. as_u32 (chain ! (i - 2 ^ k))) (slice content content_off tk)
      in io_bind (rewrite_block S (chain ! i) img (BLOCK_SIZE S)) (\<lambda>(buf_a, ok).
           if ok then build_blocks S chain content is (content_off + tk) buf_a
           else io_return (buf_a, Some (as_u32 (chain ! i)))))"

definition try_build_ctz_chain :: "'s storage \<Rightarrow> block_address list \<Rightarrow> byte list \<Rightarrow> byte list \<Rightarrow> ('s, byte list \<times> u32 option) io" where
  "try_build_ctz_chain S chain content buf_a = build_blocks S chain content [0..<length chain] 0 buf_a"

text \<open>The retry loop of \<open>write_ctz_to_pair\<close>.\<close>

function write_chain_loop ::
  "'s storage \<Rightarrow> byte list \<Rightarrow> block_address list \<Rightarrow> block_address list \<Rightarrow> bufs \<Rightarrow> ('s fs, block_address list \<times> bufs) io" where
  "write_chain_loop S content excluded chain bufs =
     io_bind (fs_allocs S excluded None chain bufs) (\<lambda>(chain, bufs).
     io_bind (on_storage (try_build_ctz_chain S chain content (fst bufs))) (\<lambda>(buf_a, bad).
       case bad of
         None \<Rightarrow> io_return (chain, (buf_a, snd bufs))
       | Some bad_phys \<Rightarrow>
           if length excluded \<ge> MAX_BAD_BLOCK_RETRIES then io_fail Io
           else io_bind invalidate_alloc_cache (\<lambda>_.
                  write_chain_loop S content (excluded @ [BlockAddress bad_phys]) chain (buf_a, snd bufs))))"
  by pat_completeness auto

termination
  by (relation "measure (\<lambda>(S, content, excluded, chain, bufs). MAX_BAD_BLOCK_RETRIES - length excluded)") auto

declare write_chain_loop.simps [simp del]


section \<open>Extending a chain\<close>

text \<open>Where the content of a chain of \<open>size\<close> bytes ends: the offset of the end in the tail block, and
  the room behind it.\<close>

definition tail_end :: "'s storage \<Rightarrow> u32 \<Rightarrow> u32 \<times> u32" where
  "tail_end S old_size =
     (let bs = of_nat (BLOCK_SIZE S); tail_idx = block_count old_size bs - 1;
          header = 4 * skip_pointers_in_block tail_idx;
          tail_cap = content_bytes_in_block tail_idx bs;
          abs_off = snd (block_index_at_offset (old_size - 1) bs);
          bytes_used = abs_off + 1 - header
      in (header + bytes_used, tail_cap - bytes_used))"

text \<open>The copy on write of a dirty tail: the committed bytes and the fill on a fresh block.\<close>

function cow_tail_loop ::
  "'s storage \<Rightarrow> block_address \<Rightarrow> u32 \<Rightarrow> nat \<Rightarrow> byte list \<Rightarrow> block_address list \<Rightarrow> bufs \<Rightarrow> ('s fs, block_address \<times> bufs) io" where
  "cow_tail_loop S head old_size off fill_bytes excluded bufs =
     io_bind (fs_allocs S excluded (Some (as_u32 head, old_size)) [block_NONE] bufs) (\<lambda>(one, bufs).
     io_bind (on_storage (dev_read S (as_u32 head) 0 (fst bufs))) (\<lambda>buf_a.
       let fresh = one ! 0; img = splice (take off buf_a @ replicate (length buf_a - off) 0xFF) off fill_bytes
       in io_bind (on_storage (rewrite_block S fresh img (BLOCK_SIZE S))) (\<lambda>(buf_a, ok).
          if ok then io_return (fresh, (buf_a, snd bufs))
          else if length excluded \<ge> MAX_BAD_BLOCK_RETRIES then io_fail Io
          else io_bind invalidate_alloc_cache (\<lambda>_.
                 cow_tail_loop S head old_size off fill_bytes (excluded @ [fresh]) (buf_a, snd bufs)))))"
  by pat_completeness auto

termination
  by (relation "measure (\<lambda>(S, head, old_size, off, fill_bytes, excluded, bufs). MAX_BAD_BLOCK_RETRIES - length excluded)") auto

declare cow_tail_loop.simps [simp del]

text \<open>Step 1. The bytes that fit the tail block, the block the new chain continues from, and the fill
  left to be programmed last, as its offset.\<close>

definition plan_tail ::
  "'s storage \<Rightarrow> ctz_struct \<Rightarrow> byte list \<Rightarrow> bufs \<Rightarrow> ('s fs, (nat \<times> block_address \<times> nat option) \<times> bufs) io" where
  "plan_tail S ctz data bufs =
     (if block_count (ctz_size ctz) (of_nat (BLOCK_SIZE S)) = 0 then io_return ((0, head_block ctz, None), bufs)
      else
        let (end_off, room) = tail_end S (ctz_size ctz); fill = min (unat room) (length data); off = unat end_off
        in if fill = 0 then io_return ((0, head_block ctz, None), bufs)
           else io_bind (on_storage (dev_read S (as_u32 (head_block ctz)) 0 (fst bufs))) (\<lambda>buf_a.
                if list_all (\<lambda>x. x = 0xFF) (slice buf_a off fill)
                then io_return ((fill, head_block ctz, Some off), (buf_a, snd bufs))
                else io_bind (cow_tail_loop S (head_block ctz) (ctz_size ctz) off (take fill data) [] (buf_a, snd bufs))
                       (\<lambda>(fresh, bufs). io_return ((fill, fresh, None), bufs))))"

text \<open>Step 2. The skip pointers of a new block at position \<open>i\<close>: into the new blocks, or by a seek
  from the tail of the old chain, with \<open>buf_b\<close> as its window.\<close>

fun fill_pointers ::
  "'s storage \<Rightarrow> block_address list \<Rightarrow> nat \<Rightarrow> block_address \<Rightarrow> nat \<Rightarrow> nat list \<Rightarrow> bufs \<Rightarrow> ('s, bufs) io" where
  "fill_pointers S new_blocks n_old tail_addr i [] bufs = io_return bufs"
| "fill_pointers S new_blocks n_old tail_addr i (k # ks) bufs =
     (if i < 2 ^ k then io_fail Corrupt
      else
        let target_idx = i - 2 ^ k
        in io_bind (if target_idx \<ge> n_old then io_return (new_blocks ! (target_idx - n_old), snd bufs)
                    else seek_block_buffered S tail_addr (of_nat n_old - 1) (of_nat target_idx) (snd bufs)) (\<lambda>(target, buf_b).
             fill_pointers S new_blocks n_old tail_addr i ks (splice (fst bufs) (4 * k) (to_le_bytes (as_u32 target)), buf_b)))"

fun extend_blocks ::
  "'s storage \<Rightarrow> block_address list \<Rightarrow> nat \<Rightarrow> block_address \<Rightarrow> byte list \<Rightarrow> nat list \<Rightarrow> nat \<Rightarrow> bufs \<Rightarrow>
   ('s, bufs \<times> block_address option) io" where
  "extend_blocks S new_blocks n_old tail_addr remaining [] content_off bufs = io_return (bufs, None)"
| "extend_blocks S new_blocks n_old tail_addr remaining (i # is) content_off bufs =
     (let ptr_count = unat (skip_pointers_in_block (of_nat i)); header_bytes = 4 * ptr_count
      in io_bind (fill_pointers S new_blocks n_old tail_addr i [0..<ptr_count] (replicate (length (fst bufs)) 0xFF, snd bufs))
           (\<lambda>(buf_a, buf_b).
           let tk = min (BLOCK_SIZE S - header_bytes) (length remaining - content_off);
               img = splice buf_a header_bytes (slice remaining content_off tk);
               phys = new_blocks ! (i - n_old)
           in io_bind (rewrite_block S phys img (BLOCK_SIZE S)) (\<lambda>(buf_a, ok).
              if ok then extend_blocks S new_blocks n_old tail_addr remaining is (content_off + tk) (buf_a, buf_b)
              else io_return ((buf_a, buf_b), Some phys))))"

function extend_loop ::
  "'s storage \<Rightarrow> nat \<Rightarrow> nat \<Rightarrow> block_address \<Rightarrow> u32 \<Rightarrow> byte list \<Rightarrow> block_address list \<Rightarrow> bufs \<Rightarrow> ('s fs, block_address \<times> bufs) io" where
  "extend_loop S n_old new_n tail_addr old_size remaining excluded bufs =
     (let new_count = new_n - n_old;
          exclude_chain = (if n_old > 0 then Some (as_u32 tail_addr, old_size) else None)
      in io_bind (fs_allocs S excluded exclude_chain (replicate new_count block_NONE) bufs) (\<lambda>(new_blocks, bufs).
         io_bind (on_storage (extend_blocks S new_blocks n_old tail_addr remaining [n_old..<new_n] 0 bufs)) (\<lambda>(bufs, bad).
           case bad of
             None \<Rightarrow> io_return (new_blocks ! (new_count - 1), bufs)
           | Some phys \<Rightarrow>
               if length excluded \<ge> MAX_BAD_BLOCK_RETRIES then io_fail Io
               else io_bind invalidate_alloc_cache (\<lambda>_.
                      extend_loop S n_old new_n tail_addr old_size remaining (excluded @ [phys]) bufs))))"
  by pat_completeness auto

termination
  by (relation "measure (\<lambda>(S, n_old, new_n, tail_addr, old_size, remaining, excluded, bufs). MAX_BAD_BLOCK_RETRIES - length excluded)") auto

declare extend_loop.simps [simp del]

text \<open>Step 3. The deferred fill of the committed tail, read back.\<close>

definition fill_tail :: "'s storage \<Rightarrow> block_address \<Rightarrow> nat \<Rightarrow> byte list \<Rightarrow> byte list \<Rightarrow> ('s, byte list) io" where
  "fill_tail S tail off fill_bytes buf_a =
     io_bind (dev_program S (as_u32 tail) (of_nat off) fill_bytes) (\<lambda>_. (\<lambda>st.
       case verify_programmed_bytes S tail off fill_bytes buf_a st of
         (st', buf_a', ok) \<Rightarrow> (st', if ok then Inr buf_a' else Inl Io)))"

definition stream_ctz_extend ::
  "'s storage \<Rightarrow> ctz_struct \<Rightarrow> byte list \<Rightarrow> bufs \<Rightarrow> ('s fs, (u32 \<times> u32) \<times> bufs) io" where
  "stream_ctz_extend S ctz data bufs =
     (let bs = of_nat (BLOCK_SIZE S); old_size = ctz_size ctz; n_old = unat (block_count old_size bs);
          new_total = old_size + of_nat (length data); new_n = unat (block_count new_total bs)
      in if n_old > MAX_CTZ_WRITE_BLOCKS then io_fail OutOfRange
         else if new_n > MAX_CTZ_WRITE_BLOCKS then io_fail OutOfRange
         else
           io_bind (io_lift (if n_old > 0 then require_in_bounds S (head_block ctz) else Inr (head_block ctz))) (\<lambda>_.
           io_bind (plan_tail S ctz data bufs) (\<lambda>((data_consumed, tail_addr, deferred_fill), bufs).
           io_bind (if data_consumed < length data
                    then extend_loop S n_old new_n tail_addr old_size (drop data_consumed data) [] bufs
                    else io_return (tail_addr, bufs)) (\<lambda>(head_phys, bufs).
           io_bind (case deferred_fill of
                      None \<Rightarrow> io_return bufs
                    | Some off \<Rightarrow>
                        io_bind (on_storage (fill_tail S (head_block ctz) off (take data_consumed data) (fst bufs))) (\<lambda>buf_a.
                          io_return (buf_a, snd bufs))) (\<lambda>bufs.
           io_bind (dev_sync_fs S) (\<lambda>_.
             io_return ((as_u32 head_phys, old_size + of_nat (length data)), bufs)))))))"


section \<open>Cutting a chain\<close>

function shrink_loop ::
  "'s storage \<Rightarrow> block_address list \<Rightarrow> nat \<Rightarrow> block_address \<Rightarrow> nat \<Rightarrow> bufs \<Rightarrow> ('s fs, block_address \<times> bufs) io" where
  "shrink_loop S excluded ex_len old_tail keep bufs =
     io_bind (fs_allocs S excluded None [block_NONE] bufs) (\<lambda>(fresh, bufs).
     io_bind (on_storage (dev_read S (as_u32 old_tail) 0 (take (BLOCK_SIZE S) (fst bufs)))) (\<lambda>block.
       let candidate = fresh ! 0;
           img = take keep block @ replicate (BLOCK_SIZE S - keep) 0xFF @ drop (BLOCK_SIZE S) (fst bufs)
       in io_bind (on_storage (rewrite_block S candidate img (BLOCK_SIZE S))) (\<lambda>(buf_a, ok).
          if ok then io_return (candidate, (buf_a, snd bufs))
          else if ex_len \<ge> MAX_BAD_BLOCK_RETRIES then io_fail Io
          else io_bind invalidate_alloc_cache (\<lambda>_.
                 shrink_loop S (excluded @ [candidate]) (ex_len + 1) old_tail keep (buf_a, snd bufs)))))"
  by pat_completeness auto

termination
  by (relation "measure (\<lambda>(S, excluded, ex_len, old_tail, keep, bufs). MAX_BAD_BLOCK_RETRIES - ex_len)") auto

declare shrink_loop.simps [simp del]

text \<open>A new tail that is exactly full is reused; a partial one is copied to a fresh block. The
  \<open>debug_assert\<close> on the sizes is absent in release builds.\<close>

definition shrink_ctz_head ::
  "'s storage \<Rightarrow> block_address \<Rightarrow> u32 \<Rightarrow> u32 \<Rightarrow> bufs \<Rightarrow> ('s fs, block_address \<times> bufs) io" where
  "shrink_ctz_head S head old_size new_size bufs =
     (let bs = of_nat (BLOCK_SIZE S); n_old = block_count old_size bs
      in if unat n_old > MAX_CTZ_BLOCKS then io_fail OutOfRange
         else
           io_bind (on_storage (collect_chain_blocks_buffered S head n_old (replicate (unat n_old) block_NONE) (fst bufs)))
             (\<lambda>(chain, buf_a).
             let (new_tail_idx, abs_off) = block_index_at_offset (new_size - 1) bs;
                 header = 4 * skip_pointers_in_block new_tail_idx;
                 tail_cap = content_bytes_in_block new_tail_idx bs;
                 bytes_used = abs_off + 1 - header;
                 old_tail = chain ! unat new_tail_idx
             in if bytes_used = tail_cap then io_return (old_tail, (buf_a, snd bufs))
                else io_bind (shrink_loop S chain 0 old_tail (unat (header + bytes_used)) (buf_a, snd bufs)) (\<lambda>(fresh_addr, bufs).
                     io_bind (dev_sync_fs S) (\<lambda>_. io_return (fresh_addr, bufs)))))"


section \<open>What the built blocks hold\<close>

definition planned_image :: "nat \<Rightarrow> block_address list \<Rightarrow> byte list \<Rightarrow> nat \<Rightarrow> byte list" where
  "planned_image n chain content i =
     chain_image n i (\<lambda>k. as_u32 (chain ! (i - 2 ^ k)))
       (slice content (chain_start n i) (min (n - 4 * skips i) (length content - chain_start n i)))"

lemma put_pointers_append: "put_pointers tgt (ks @ ls) buf = put_pointers tgt ls (put_pointers tgt ks buf)"
  by (induction ks arbitrary: buf) simp_all

lemma put_pointers_spec:
  assumes "4 * m \<le> length buf"
  shows "length (put_pointers tgt [0..<m] buf) = length buf \<and>
    drop (4 * m) (put_pointers tgt [0..<m] buf) = drop (4 * m) buf \<and>
    (\<forall>k < m. slice (put_pointers tgt [0..<m] buf) (4 * k) 4 = to_le_bytes (tgt k))"
  using assms
proof (induction m)
  case (Suc m)
  let ?b = "put_pointers tgt [0..<m] buf"
  have l: "length ?b = length buf" "drop (4 * m) ?b = drop (4 * m) buf" and p: "k < m \<Longrightarrow> slice ?b (4 * k) 4 = to_le_bytes (tgt k)" for k
    using Suc by auto
  have d: "drop (4 * Suc m) ?b = drop (4 * Suc m) buf"
    using l(2) by (metis add.commute drop_drop mult_Suc_right)
  have "slice (splice ?b (4 * m) (to_le_bytes (tgt m))) (4 * k) 4 = to_le_bytes (tgt k)" if "k < Suc m" for k
    using that p [of k] l(1) Suc.prems by (cases "k = m") (simp_all add: slice_splice_before)
  then show ?case using l(1) d Suc.prems by (simp add: put_pointers_append drop_splice_after)
qed simp

lemma chain_image_spec:
  assumes "i < 2 ^ 32" "4 * skips i + length chunk \<le> n"
  shows "length (chain_image n i tgt chunk) = n"
    and "k < skips i \<Longrightarrow> le_u32_at (chain_image n i tgt chunk) (4 * k) = tgt k"
    and "drop (4 * skips i) (chain_image n i tgt chunk) = chunk @ replicate (n - 4 * skips i - length chunk) 0xFF"
proof -
  have u: "unat (skip_pointers_in_block (of_nat i)) = skips i"
    using assms(1) by (simp add: unat_skip_pointers unat_of_nat)
  let ?b = "put_pointers tgt [0..<skips i] (replicate n 0xFF)"
  note p = put_pointers_spec [of "skips i" "replicate n 0xFF" tgt]
  have l: "length ?b = n" "drop (4 * skips i) ?b = replicate (n - 4 * skips i) 0xFF"
    using p assms(2) by simp_all
  have im: "chain_image n i tgt chunk = splice ?b (4 * skips i) chunk" by (simp add: chain_image_def u Let_def)
  show "length (chain_image n i tgt chunk) = n" using l(1) assms(2) by (simp add: im)
  show "le_u32_at (chain_image n i tgt chunk) (4 * k) = tgt k" if "k < skips i"
    unfolding im using that p assms(2) l(1)
    by (intro le_u32_at_to_le_bytes) (simp add: slice_splice_before)
  have "drop (4 * skips i + length chunk) ?b = replicate (n - 4 * skips i - length chunk) 0xFF"
    using l(2) by (metis add.commute drop_drop drop_replicate)
  then show "drop (4 * skips i) (chain_image n i tgt chunk) = chunk @ replicate (n - 4 * skips i - length chunk) 0xFF"
    using l(1) assms(2) by (simp add: im splice_def)
qed

lemma skips_room: "i < 2 ^ 32 \<Longrightarrow> 128 \<le> n \<Longrightarrow> 4 * skips i \<le> n"
  using skips_le_32 [of "of_nat i"] by (simp add: unat_of_nat)

context reliable_flash
begin

text \<open>A chain built on a reliable device: every block as planned, no other block touched.\<close>

lemma build_blocks_ok:
  assumes "Inv st" "length buf = BLOCK_SIZE S" "128 \<le> BLOCK_SIZE S" "distinct chain" "\<forall>b\<in>set chain. as_u32 b < BLOCK_COUNT S"
    and "length chain < 2 ^ 32" "i \<le> length chain"
  shows "\<exists>st' buf'. build_blocks S chain content [i..<length chain] (min (chain_start (BLOCK_SIZE S) i) (length content)) buf st =
      (st', Inr (buf', None)) \<and> Inv st' \<and> length buf' = BLOCK_SIZE S \<and>
      (\<forall>b. b \<notin> as_u32 ` set (drop i chain) \<longrightarrow> img st' b = img st b) \<and>
      (\<forall>j. i \<le> j \<longrightarrow> j < length chain \<longrightarrow> img st' (as_u32 (chain ! j)) = planned_image (BLOCK_SIZE S) chain content j)"
  using assms(1,2,7)
proof (induction "length chain - i" arbitrary: i st buf)
  case 0
  then show ?case by auto
next
  case (Suc d)
  let ?B = "BLOCK_SIZE S" and ?L = "length content"
  have i: "i < length chain" "i < 2 ^ 32" using Suc.hyps(2) assms(6) by simp_all
  have u: "unat (skip_pointers_in_block (of_nat i)) = skips i"
    using i(2) by (simp add: unat_skip_pointers unat_of_nat)
  let ?off = "min (chain_start ?B i) ?L" and ?im = "planned_image ?B chain content i"
  define tk where "tk = min (?B - 4 * skips i) (?L - ?off)"
  have im: "chain_image (length buf) i (\<lambda>k. as_u32 (chain ! (i - 2 ^ k))) (slice content ?off tk) = ?im"
    by (cases "chain_start ?B i \<le> ?L") (simp_all add: planned_image_def tk_def Suc.prems(2) slice_def)
  have "4 * skips i + length (slice content ?off tk) \<le> length buf"
    using skips_room [OF i(2) assms(3)] Suc.prems(2) by (simp add: tk_def)
  from chain_image_spec(1) [OF i(2) this, of "\<lambda>k. as_u32 (chain ! (i - 2 ^ k))"]
  have l: "length ?im = ?B" unfolding im using Suc.prems(2) by simp
  obtain s1 where s1: "rewrite_block S (chain ! i) ?im ?B st = (s1, Inr (?im, True))" "Inv s1" "img s1 = (img st)(as_u32 (chain ! i) := ?im)"
    by (rule rewrite_ok [OF Suc.prems(1), of "chain ! i" ?B ?im]) (use l i assms(5) units(3) in auto)
  have nxt: "?off + tk = min (chain_start ?B (Suc i)) ?L" by (auto simp: tk_def chain_start_Suc)
  have "d = length chain - Suc i" "Suc i \<le> length chain" using Suc.hyps(2) i(1) by simp_all
  note IH = Suc.hyps(1) [OF this(1) s1(2) l this(2)]
  obtain s2 b2 where s2: "build_blocks S chain content [Suc i..<length chain] (?off + tk) ?im s1 = (s2, Inr (b2, None))" "Inv s2"
      "length b2 = ?B" "\<forall>b. b \<notin> as_u32 ` set (drop (Suc i) chain) \<longrightarrow> img s2 b = img s1 b"
      "\<forall>j. Suc i \<le> j \<longrightarrow> j < length chain \<longrightarrow> img s2 (as_u32 (chain ! j)) = planned_image ?B chain content j"
    using IH unfolding nxt by blast
  have d: "drop i chain = chain ! i # drop (Suc i) chain" using i(1) by (rule Cons_nth_drop_Suc [symmetric])
  have "distinct (drop i chain)" using assms(4) by simp
  then have fresh: "as_u32 (chain ! i) \<notin> as_u32 ` set (drop (Suc i) chain)"
    unfolding d by (auto dest: block_address.expand)
  have run: "build_blocks S chain content [i..<length chain] ?off buf st = (s2, Inr (b2, None))"
    using i(1) s2(1) s1(1) by (simp add: upt_conv_Cons u Let_def tk_def [symmetric] im io_bind_eq)
  have other: "\<forall>b. b \<notin> as_u32 ` set (drop i chain) \<longrightarrow> img s2 b = img st b"
    using s2(4) s1(3) unfolding d by auto
  have "img s2 (as_u32 (chain ! j)) = planned_image ?B chain content j" if "i \<le> j" "j < length chain" for j
    using that s2(4,5) s1(3) fresh by (cases "j = i") auto
  then show ?case using run other s2(2,3) by blast
qed

end

text \<open>The blocks so planned are a linked chain that holds the content.\<close>

lemma chain_count:
  assumes "128 \<le> bs" "bs < 2 ^ 32" "0 < len" "len < 2 ^ 32" "n = unat (block_count (of_nat len) (of_nat bs))"
  shows "0 < n" "chain_start bs (n - 1) < len" "len \<le> chain_start bs n"
proof -
  have u: "unat (of_nat bs :: u32) = bs" "unat (of_nat len :: u32) = len" using assms(2,4) by (simp_all add: unat_of_nat)
  obtain i p where e: "block_index_at_offset (of_nat len - 1) (of_nat bs) = (i, p)" by fastforce
  have "unat (of_nat len - 1 :: u32) = len - 1" using unat_diff_of_nat [of 1 "of_nat len"] u(2) assms(3) by simp
  note lay = block_index_at_offset_layout [of "of_nat bs", unfolded u(1), OF assms(1) e, unfolded this]
  have "unat (i + 1) = Suc (unat i)"
    using lay(1) unat_small_of_nat [of "Suc (unat i)"] by (simp add: add.commute)
  moreover have "(of_nat len :: u32) \<noteq> 0" using u(2) assms(3) by auto
  ultimately have "n = Suc (unat i)" using assms(5) e by (simp add: block_count_def)
  then show "0 < n" "chain_start bs (n - 1) < len" "len \<le> chain_start bs n" using lay(2,3) assms(3) by auto
qed

text \<open>From block \<open>m\<close> on as planned, behind a chain that holds the start of the content.\<close>

lemma planned_chain_from:
  assumes base: "ctz_chain im cnt (take m chain)" "ctz_bytes im chain m = take (chain_start bs m) content" "m < n"
    and planned: "\<And>j. m \<le> j \<Longrightarrow> j < n \<Longrightarrow> im (as_u32 (chain ! j)) = planned_image bs chain content j"
    and n: "n = length chain" "n < 2 ^ 32" and "128 \<le> bs" and "\<forall>b\<in>set chain. as_u32 b < cnt"
    and cov: "chain_start bs (n - 1) < length content" "length content \<le> chain_start bs n"
  shows "ctz_chain im cnt chain" "take (length content) (ctz_bytes im chain n) = content"
proof -
  have room: "4 * skips j + length (slice content (chain_start bs j) (min (bs - 4 * skips j) (length content - chain_start bs j))) \<le> bs"
    if "j < n" for j using skips_room [of j bs] that n(2) assms(7) by simp
  note spec = chain_image_spec [OF _ room, where tgt = "\<lambda>k. as_u32 (chain ! (_ - 2 ^ k))", folded planned_image_def]
  have jb: "j < 2 ^ 32" if "j < n" for j using that n(2) by simp
  have "ptr_at im (chain ! i) k = chain ! (i - 2 ^ k)" if "i < n" "k < skips i" for i k
  proof (cases "i < m")
    case True
    then show ?thesis using ctz_chain_ptr [OF base(1), of i k] that base(3) n(1) by (simp add: less_imp_diff_less)
  next
    case False
    then show ?thesis using planned [of i] chain_image_spec(2) [OF jb room] that by (simp add: planned_image_def)
  qed
  then show "ctz_chain im cnt chain" unfolding ctz_chain_def using assms(8) n(1) by simp
  have body: "block_body im chain j = slice content (chain_start bs j) (min (bs - 4 * skips j) (length content - chain_start bs j)) @
      replicate (bs - 4 * skips j - min (bs - 4 * skips j) (length content - chain_start bs j)) 0xFF" if "m \<le> j" "j < n" for j
    using planned [OF that] chain_image_spec(3) [OF jb [OF that(2)] room [OF that(2)]]
    by (simp add: block_body_def planned_image_def)
  have front: "ctz_bytes im chain j = take (chain_start bs j) content" if "m \<le> j" "j < n" for j
    using that
  proof (induction j rule: dec_induct)
    case (step j)
    have "chain_start bs (Suc j) \<le> chain_start bs (n - 1)" using step.prems by (intro chain_start_mono) simp
    then have full: "chain_start bs j + (bs - 4 * skips j) \<le> length content" using cov(1) by (simp add: chain_start_Suc)
    then show ?case using step body [of j] by (simp add: ctz_bytes_Suc chain_start_Suc slice_def take_add)
  qed (rule base(2))
  obtain l where l: "n = Suc l" using base(3) by (cases n) auto
  let ?c = "chain_start bs l"
  have c: "?c < length content" "length content - ?c \<le> bs - 4 * skips l" using cov l by (simp_all add: chain_start_Suc)
  have "block_body im chain l = drop ?c content @ replicate (bs - 4 * skips l - (length content - ?c)) 0xFF"
    using body [of l] l c(2) base(3) by (simp add: slice_def min_def)
  then show "take (length content) (ctz_bytes im chain n) = content"
    using front [of l] l c(1) base(3) by (simp add: ctz_bytes_Suc)
qed

context reliable_flash
begin

lemma planned_reads:
  fixes start :: u32
  assumes "Inv st" "128 \<le> BLOCK_SIZE S" and linked: "ctz_chain (img st) (BLOCK_COUNT S) chain"
    "take (length content) (ctz_bytes (img st) chain (length chain)) = content"
    and "length content < 2 ^ 32" and count: "length chain = unat (block_count (of_nat (length content)) (of_nat (BLOCK_SIZE S)))"
    and small: "length chain \<le> MAX_CTZ_BLOCKS" "chain_start (BLOCK_SIZE S) (length chain) < 2 ^ 32"
    and out: "BLOCK_SIZE S \<le> length scratch" "length out < 2 ^ 32"
  defines "n \<equiv> min (length out) (length content - unat start)"
  shows "\<exists>st2 w. read_ctz_at S \<lparr>head_block = last chain, ctz_size = of_nat (length content)\<rparr> start out scratch st =
     (st2, Inr (n, slice content (unat start) n @ drop n out, w))"
proof -
  let ?c = "\<lparr>head_block = last chain, ctz_size = of_nat (length content)\<rparr>"
  have ul: "unat (of_nat (length content) :: u32) = length content" using assms(5) by (simp add: unat_of_nat)
  have "ctz_content (img st) chain (of_nat (length content)) = content" using linked(2) by (simp add: ctz_content_def ul)
  then have "yields st (\<lambda>r. \<exists>w. r = Inr (n, slice content (unat start) n @ drop n out, w)) (read_ctz_at S ?c start out scratch st)"
    using read_ctz_at_yields [OF assms(1,2) out(1), of chain ?c out start] linked(1) small out(2) count by (simp add: ul n_def)
  then show ?thesis by (auto simp: yields_def prod_eq_iff)
qed

lemma built_chain_reads:
  fixes start :: u32
  assumes "Inv st" "length buf = BLOCK_SIZE S" "128 \<le> BLOCK_SIZE S"
    and chain: "distinct chain" "\<forall>b\<in>set chain. as_u32 b < BLOCK_COUNT S"
    and content: "content \<noteq> []" "length content < 2 ^ 32"
    and count: "length chain = unat (block_count (of_nat (length content)) (of_nat (BLOCK_SIZE S)))"
    and small: "length chain \<le> MAX_CTZ_BLOCKS" "chain_start (BLOCK_SIZE S) (length chain) < 2 ^ 32"
    and out: "BLOCK_SIZE S \<le> length scratch" "length out < 2 ^ 32"
  defines "n \<equiv> min (length out) (length content - unat start)"
  shows "\<exists>st' buf'. try_build_ctz_chain S chain content buf st = (st', Inr (buf', None)) \<and> Inv st' \<and> length buf' = BLOCK_SIZE S \<and>
    (\<forall>b. b \<notin> as_u32 ` set chain \<longrightarrow> img st' b = img st b) \<and>
    (\<exists>st2 w. read_ctz_at S \<lparr>head_block = last chain, ctz_size = of_nat (length content)\<rparr> start out scratch st' =
       (st2, Inr (n, slice content (unat start) n @ drop n out, w)))"
proof -
  let ?B = "BLOCK_SIZE S"
  have cl: "length chain < 2 ^ 32" using small(1) by (simp add: MAX_CTZ_BLOCKS_def)
  have "0 < length content" using content(1) by simp
  note cov = chain_count [OF assms(3) units(4) this content(2) count]
  obtain st' buf' where b: "try_build_ctz_chain S chain content buf st = (st', Inr (buf', None))" "Inv st'" "length buf' = ?B"
      "\<forall>b. b \<notin> as_u32 ` set chain \<longrightarrow> img st' b = img st b"
      "\<forall>j<length chain. img st' (as_u32 (chain ! j)) = planned_image ?B chain content j"
    using build_blocks_ok [OF assms(1-3) chain cl, of 0 content]
    by (auto simp: try_build_ctz_chain_def chain_start_def)
  have planned: "img st' (as_u32 (chain ! j)) = planned_image ?B chain content j" if "0 \<le> j" "j < length chain" for j using b(5) that by blast
  note linked = planned_chain_from [of _ _ 0, OF _ _ cov(1) planned refl cl assms(3) chain(2) cov(2,3)]
  have "ctz_chain (img st') (BLOCK_COUNT S) chain" "take (length content) (ctz_bytes (img st') chain (length chain)) = content"
    using linked by (simp_all add: ctz_chain_def ctz_bytes_def chain_start_def)
  from planned_reads [OF b(2) assms(3) this content(2) count small out, of start, folded n_def] show ?thesis using b(1-4) by blast
qed

end

context reliable_flash
begin

lemma stored_content:
  fixes start :: u32
  assumes "128 \<le> BLOCK_SIZE S" and "unat (BLOCK_COUNT S) \<le> MAX_TRACKED_BLOCKS"
    and "exclusive (img (fs_storage fs)) (BLOCK_COUNT S) (BLOCK_SIZE S) (fs_root fs)" and "Inv (fs_storage fs)"
    and "pair_in_bounds S (fs_root fs)" and X: "X = in_use (img (fs_storage fs)) (BLOCK_COUNT S) (BLOCK_SIZE S) (fs_root fs)"
    and "cache_ok X (used_cache fs)" and buf: "length (fst bufs) = BLOCK_SIZE S"
    and content: "content \<noteq> []" "length content < 2 ^ 32"
    and count: "length blank = unat (block_count (of_nat (length content)) (of_nat (BLOCK_SIZE S)))"
    and small: "length blank \<le> MAX_CTZ_BLOCKS" "chain_start (BLOCK_SIZE S) (length blank) < 2 ^ 32"
    and out: "BLOCK_SIZE S \<le> length scratch" "length out < 2 ^ 32"
    and run: "write_chain_loop S content excluded blank bufs fs = (fs', r)"
  defines "n \<equiv> min (length out) (length content - unat start)"
  shows "cache_ok X (used_cache fs') \<and>
    (case snd (alloc_blocks_cached S (fs_root fs) excluded None blank (fst bufs) (snd bufs) (fs_storage fs, used_cache fs)) of
       Inl e \<Rightarrow> r = Inl e
     | Inr (chain, _, _) \<Rightarrow> (\<exists>bufs'. r = Inr (chain, bufs')) \<and> Inv (fs_storage fs') \<and> length chain = length blank \<and> distinct chain \<and>
         (\<forall>b\<in>set chain. as_u32 b \<notin> X \<and> b \<notin> set excluded) \<and>
         (\<forall>b. b \<notin> as_u32 ` set chain \<longrightarrow> img (fs_storage fs') b = img (fs_storage fs) b) \<and>
         (\<exists>st2 w. read_ctz_at S \<lparr>head_block = last chain, ctz_size = of_nat (length content)\<rparr> start out scratch (fs_storage fs') =
            (st2, Inr (n, slice content (unat start) n @ drop n out, w))))"
proof -
  obtain st1 c1 a where a: "alloc_blocks_cached S (fs_root fs) excluded None blank (fst bufs) (snd bufs) (fs_storage fs, used_cache fs) = ((st1, c1), a)"
    by (metis prod.exhaust)
  have x: "X = in_use (img (fs_storage fs)) (BLOCK_COUNT S) (BLOCK_SIZE S) (fs_root fs) \<union> inflight (img (fs_storage fs)) (BLOCK_COUNT S) (BLOCK_SIZE S) None"
    using X by (simp add: inflight_def)
  have "8 \<le> BLOCK_SIZE S" using assms(1) by simp
  note A = cached_allocation [OF readable_flash_axioms this assms(2-5) x assms(7) a]
  let ?fs = "fs\<lparr>fs_storage := st1, used_cache := c1\<rparr>"
  have al: "fs_allocs S excluded None blank bufs fs = (?fs, a)" by (simp add: fs_allocs_def a)
  show ?thesis
  proof (cases a)
    case (Inl e)
    then show ?thesis using run A by (subst (asm) write_chain_loop.simps) (auto simp: io_bind_eq al a)
  next
    case (Inr y)
    obtain chain ba bb where y: "y = (chain, ba, bb)" by (cases y) auto
    have A2: "cache_ok X c1" "Inv st1" "img st1 = img (fs_storage fs)" "length ba = BLOCK_SIZE S" "length chain = length blank" "distinct chain"
        "\<forall>b\<in>set chain. as_u32 b < BLOCK_COUNT S \<and> b \<notin> set excluded \<and> as_u32 b \<notin> X"
      using A Inr y buf by auto
    then have on: "\<forall>b\<in>set chain. as_u32 b < BLOCK_COUNT S" by blast
    note R = built_chain_reads [OF A2(2,4) assms(1) A2(6) on content, unfolded A2(5), OF count small out, of start, folded n_def]
    then obtain st' buf' where b: "try_build_ctz_chain S chain content ba st1 = (st', Inr (buf', None))" "Inv st'"
        "\<forall>b. b \<notin> as_u32 ` set chain \<longrightarrow> img st' b = img st1 b"
        "\<exists>st2 w. read_ctz_at S \<lparr>head_block = last chain, ctz_size = of_nat (length content)\<rparr> start out scratch st' =
           (st2, Inr (n, slice content (unat start) n @ drop n out, w))" by blast
    have "fs' = ?fs\<lparr>fs_storage := st'\<rparr>" "r = Inr (chain, (buf', bb))"
      using run by (subst (asm) write_chain_loop.simps; simp add: io_bind_eq al Inr y on_storage_eq b(1))+
    then show ?thesis using A2 b by (simp add: a Inr y)
  qed
qed

end


section \<open>What an extension holds\<close>

lemma skip_exp_le: "k < skips i \<Longrightarrow> 2 ^ k \<le> i"
proof -
  assume k: "k < skips i"
  then have i: "0 < i" "k \<le> ctz_nat i" by (auto simp: skips_def split: if_splits)
  have "2 ^ k \<le> (2 :: nat) ^ ctz_nat i" using i(2) by simp
  also have "\<dots> \<le> i" using ctz_nat_dvd [OF i(1)] i(1) by (rule dvd_imp_le)
  finally show ?thesis .
qed

context reliable_flash
begin

text \<open>The pointers into the old chain found by seeking, those into the new blocks taken from the list.\<close>

lemma fill_pointers_ok:
  assumes "128 \<le> BLOCK_SIZE S" and "length bl < 2 ^ 32" and "bl \<noteq> [] \<longrightarrow> tail = last bl" and "\<forall>k\<in>set ks. 2 ^ k \<le> i"
    and "Inv st" "READ_SIZE S \<le> length w" "ctz_chain (img st) (BLOCK_COUNT S) bl"
  shows "\<exists>st' w'. fill_pointers S new (length bl) tail i ks (buf, w) st =
      (st', Inr (put_pointers (\<lambda>k. as_u32 ((bl @ new) ! (i - 2 ^ k))) ks buf, w')) \<and> Inv st' \<and> img st' = img st \<and> length w' = length w"
  using assms(4-)
proof (induction ks arbitrary: buf w st)
  case (Cons k ks)
  let ?n = "length bl" and ?t = "i - 2 ^ k"
  let ?look = "if ?t \<ge> ?n then io_return (new ! (?t - ?n), w) else seek_block_buffered S tail (of_nat ?n - 1) (of_nat ?t) w"
  obtain s1 w1 where s1: "?look st = (s1, Inr ((bl @ new) ! ?t, w1))" "Inv s1" "img s1 = img st" "length w1 = length w"
  proof (cases "?t \<ge> ?n")
    case True
    then show thesis using that Cons.prems(2) by (simp add: nth_append)
  next
    case False
    then have "bl \<noteq> []" by auto
    then have hd: "tail = bl ! (?n - 1)" using assms(3) by (simp add: last_conv_nth)
    have u: "unat (of_nat ?n - 1 :: u32) = ?n - 1"
      using False assms(2) unat_diff_of_nat [of 1 "of_nat ?n"] by (simp add: unat_of_nat)
    have t: "unat (of_nat ?t :: u32) = ?t" using False assms(2) by (simp add: unat_of_nat)
    have "yields st (\<lambda>r. \<exists>w'. length w' = length w \<and> r = Inr (bl ! unat (of_nat ?t :: u32), w')) (seek_block_buffered S tail (of_nat ?n - 1) (of_nat ?t) w st)"
      by (rule seek_buffered_yields [OF Cons.prems(2) assms(1) Cons.prems(3,4)])
         (use False hd u t in \<open>simp_all add: word_le_nat_alt\<close>)
    then show thesis using that False t by (auto simp: yields_def nth_append prod_eq_iff)
  qed
  have "\<forall>k\<in>set ks. 2 ^ k \<le> i" "READ_SIZE S \<le> length w1" "ctz_chain (img s1) (BLOCK_COUNT S) bl"
    using Cons.prems(1,3,4) s1(3,4) by simp_all
  note IH = Cons.IH [OF this(1) s1(2) this(2,3), of "splice buf (4 * k) (to_le_bytes (as_u32 ((bl @ new) ! ?t)))"]
  then obtain s2 w2 where s2: "fill_pointers S new ?n tail i ks (splice buf (4 * k) (to_le_bytes (as_u32 ((bl @ new) ! ?t))), w1) s1 =
      (s2, Inr (put_pointers (\<lambda>k. as_u32 ((bl @ new) ! (i - 2 ^ k))) ks (splice buf (4 * k) (to_le_bytes (as_u32 ((bl @ new) ! ?t)))), w2))"
      "Inv s2" "img s2 = img s1" "length w2 = length w1" by blast
  have "\<not> i < 2 ^ k" using Cons.prems(1) by simp
  then have "fill_pointers S new ?n tail i (k # ks) (buf, w) =
      io_bind ?look (\<lambda>(tg, w). fill_pointers S new ?n tail i ks (splice buf (4 * k) (to_le_bytes (as_u32 tg)), w))"
    by (simp only: fill_pointers.simps Let_def if_False fst_conv snd_conv)
  then have "fill_pointers S new ?n tail i (k # ks) (buf, w) st =
      (s2, Inr (put_pointers (\<lambda>k. as_u32 ((bl @ new) ! (i - 2 ^ k))) (k # ks) buf, w2))"
    by (simp only: io_bind_eq s1(1) prod.case sum.case s2(1) put_pointers.simps)
  then show ?case using s1(3,4) s2(2-4) by simp
qed simp

lemma extend_blocks_ok:
  assumes "128 \<le> BLOCK_SIZE S" "READ_SIZE S \<le> BLOCK_SIZE S"
    and tl: "bl \<noteq> [] \<longrightarrow> tail = last bl" and full: "length C = chain_start (BLOCK_SIZE S) (length bl)"
    and dist: "distinct new" "\<forall>b\<in>set new. as_u32 b < BLOCK_COUNT S \<and> b \<notin> set bl" and size: "length bl + length new < 2 ^ 32"
    and "bufs_ok S bufs" "Inv st" "ctz_chain (img st) (BLOCK_COUNT S) bl" "m \<le> length new"
  shows "\<exists>st' bufs'. extend_blocks S new (length bl) tail rem [length bl + m..<length bl + length new]
      (min (chain_start (BLOCK_SIZE S) (length bl + m) - length C) (length rem)) bufs st = (st', Inr (bufs', None)) \<and>
      Inv st' \<and> bufs_ok S bufs' \<and> (\<forall>b. b \<notin> as_u32 ` set (drop m new) \<longrightarrow> img st' b = img st b) \<and>
      (\<forall>j. m \<le> j \<longrightarrow> j < length new \<longrightarrow> img st' (as_u32 (new ! j)) = planned_image (BLOCK_SIZE S) (bl @ new) (C @ rem) (length bl + j))"
  using assms(8-)
proof (induction "length new - m" arbitrary: m st bufs)
  case 0
  then show ?case by auto
next
  case (Suc d)
  let ?B = "BLOCK_SIZE S" and ?L = "length rem" and ?i = "length bl + m"
  have i: "m < length new" "?i < 2 ^ 32" using Suc.hyps(2) size by simp_all
  have u: "unat (skip_pointers_in_block (of_nat ?i)) = skips ?i"
    using i(2) by (simp add: unat_skip_pointers unat_of_nat del: of_nat_add)
  have lb: "length (fst bufs) = ?B" "length (snd bufs) = ?B" using Suc.prems(1) by (simp_all add: bufs_ok_def)
  let ?tgt = "\<lambda>k. as_u32 ((bl @ new) ! (?i - 2 ^ k))"
  have "\<exists>s1 w1. fill_pointers S new (length bl) tail ?i [0..<skips ?i] (replicate (length (fst bufs)) 0xFF, snd bufs) st =
      (s1, Inr (put_pointers ?tgt [0..<skips ?i] (replicate (length (fst bufs)) 0xFF), w1)) \<and> Inv s1 \<and> img s1 = img st \<and> length w1 = length (snd bufs)"
    by (rule fill_pointers_ok [OF assms(1) _ tl _ Suc.prems(2)]) (use size Suc.prems(3) lb assms(2) in \<open>auto intro: skip_exp_le\<close>)
  then obtain s1 w1 where s1: "fill_pointers S new (length bl) tail ?i [0..<skips ?i] (replicate ?B 0xFF, snd bufs) st =
      (s1, Inr (put_pointers ?tgt [0..<skips ?i] (replicate ?B 0xFF), w1))" "Inv s1" "img s1 = img st" "length w1 = ?B"
    unfolding lb by blast
  let ?off = "min (chain_start ?B ?i - length C) ?L" and ?im = "planned_image ?B (bl @ new) (C @ rem) ?i"
  define tk where "tk = min (?B - 4 * skips ?i) (?L - ?off)"
  have cs: "length C \<le> chain_start ?B ?i" unfolding full by (intro chain_start_mono) simp
  have chunk: "slice rem ?off tk = slice (C @ rem) (chain_start ?B ?i) (min (?B - 4 * skips ?i) (length (C @ rem) - chain_start ?B ?i))"
    using cs by (cases "chain_start ?B ?i - length C \<le> ?L") (auto simp: tk_def slice_def min_def)
  have im: "splice (put_pointers ?tgt [0..<skips ?i] (replicate ?B 0xFF)) (4 * skips ?i) (slice rem ?off tk) = ?im"
    unfolding chunk by (simp add: planned_image_def chain_image_def u Let_def del: of_nat_add)
  have "4 * skips ?i + length (slice rem ?off tk) \<le> ?B"
    using skips_room [OF i(2) assms(1)] by (simp add: tk_def)
  from chain_image_spec(1) [OF i(2) this [unfolded chunk], of ?tgt, folded planned_image_def]
  have l: "length ?im = ?B" .
  have nb: "(bl @ new) ! ?i = new ! m" "new ! (?i - length bl) = new ! m" by simp_all
  have on: "as_u32 (new ! m) < BLOCK_COUNT S" using dist(2) i(1) by simp
  obtain s2 where s2: "rewrite_block S (new ! m) ?im ?B s1 = (s2, Inr (?im, True))" "Inv s2" "img s2 = (img s1)(as_u32 (new ! m) := ?im)"
    by (rule rewrite_ok [OF s1(2) on, of ?B ?im]) (use l units(3) in auto)
  have notin: "as_u32 b \<noteq> as_u32 (new ! m)" if "b \<in> set bl" for b
    using dist(2) i(1) that by (metis block_address.expand nth_mem)
  have ch: "ctz_chain (img s2) (BLOCK_COUNT S) bl"
    using Suc.prems(3) s2(3) s1(3) notin [OF nth_mem] unfolding ctz_chain_def by simp
  have nxt: "?off + tk = min (chain_start ?B (length bl + Suc m) - length C) ?L"
    using cs by (auto simp: tk_def chain_start_Suc min_def)
  have bw: "bufs_ok S (?im, w1)" using l s1(4) by (simp add: bufs_ok_def)
  have "d = length new - Suc m" "Suc m \<le> length new" using Suc.hyps(2) i(1) by simp_all
  note IH = Suc.hyps(1) [OF this(1) bw s2(2) ch this(2)]
  obtain s3 b3 where s3: "extend_blocks S new (length bl) tail rem [length bl + Suc m..<length bl + length new] (?off + tk) (?im, w1) s2 = (s3, Inr (b3, None))"
      "Inv s3" "bufs_ok S b3" "\<forall>b. b \<notin> as_u32 ` set (drop (Suc m) new) \<longrightarrow> img s3 b = img s2 b"
      "\<forall>j. Suc m \<le> j \<longrightarrow> j < length new \<longrightarrow> img s3 (as_u32 (new ! j)) = planned_image ?B (bl @ new) (C @ rem) (length bl + j)"
    using IH unfolding nxt by blast
  have d: "drop m new = new ! m # drop (Suc m) new" using i(1) by (rule Cons_nth_drop_Suc [symmetric])
  have "distinct (drop m new)" using dist(1) by simp
  then have fresh: "as_u32 (new ! m) \<notin> as_u32 ` set (drop (Suc m) new)" unfolding d by (auto dest: block_address.expand)
  have up: "[?i..<length bl + length new] = ?i # [length bl + Suc m..<length bl + length new]" using i(1) by (simp add: upt_conv_Cons)
  have run: "extend_blocks S new (length bl) tail rem [?i..<length bl + length new] ?off bufs st = (s3, Inr (b3, None))"
    unfolding up using s3(1) s2(1) s1(1)
    by (simp add: u Let_def lb tk_def [symmetric] im io_bind_eq del: of_nat_add)
  have other: "\<forall>b. b \<notin> as_u32 ` set (drop m new) \<longrightarrow> img s3 b = img st b" using s3(4) s2(3) s1(3) unfolding d by auto
  have "img s3 (as_u32 (new ! j)) = planned_image ?B (bl @ new) (C @ rem) (length bl + j)" if "m \<le> j" "j < length new" for j
    using that s3(4,5) s2(3) fresh by (cases "j = m") auto
  then show ?case using run other s3(2,3) by blast
qed

end

context reliable_flash
begin

lemma extended_chain_reads:
  fixes start :: u32
  assumes "Inv st" "bufs_ok S bufs" "128 \<le> BLOCK_SIZE S"
    and old: "ctz_chain (img st) (BLOCK_COUNT S) bl" "bl \<noteq> [] \<longrightarrow> tail = last bl" "C = ctz_bytes (img st) bl (length bl)"
    and new: "distinct new" "\<forall>b\<in>set new. as_u32 b < BLOCK_COUNT S \<and> b \<notin> set bl"
    and content: "rem \<noteq> []" "length (C @ rem) < 2 ^ 32"
    and count: "length (bl @ new) = unat (block_count (of_nat (length (C @ rem))) (of_nat (BLOCK_SIZE S)))"
    and small: "length (bl @ new) \<le> MAX_CTZ_BLOCKS" "chain_start (BLOCK_SIZE S) (length (bl @ new)) < 2 ^ 32"
    and out: "BLOCK_SIZE S \<le> length scratch" "length out < 2 ^ 32"
  defines "n \<equiv> min (length out) (length (C @ rem) - unat start)"
  shows "\<exists>st' bufs'. extend_blocks S new (length bl) tail rem [length bl..<length bl + length new] 0 bufs st = (st', Inr (bufs', None)) \<and>
    Inv st' \<and> (\<forall>b. b \<notin> as_u32 ` set new \<longrightarrow> img st' b = img st b) \<and>
    (\<exists>st2 w. read_ctz_at S \<lparr>head_block = last (bl @ new), ctz_size = of_nat (length (C @ rem))\<rparr> start out scratch st' =
       (st2, Inr (n, slice (C @ rem) (unat start) n @ drop n out, w)))"
proof -
  let ?B = "BLOCK_SIZE S" and ?ch = "bl @ new"
  have full: "length C = chain_start ?B (length bl)"
    unfolding old(3) by (rule length_ctz_bytes) (use img_length [OF assms(1)] ctz_chain_bound [OF old(1)] in blast)
  have rs: "READ_SIZE S \<le> ?B" using dvd_imp_le [OF read_unit(2)] assms(3) by simp
  have sz: "length bl + length new < 2 ^ 32" using small(1) by (simp add: MAX_CTZ_BLOCKS_def)
  have "\<exists>st' bufs'. extend_blocks S new (length bl) tail rem [length bl + 0..<length bl + length new]
      (min (chain_start ?B (length bl + 0) - length C) (length rem)) bufs st = (st', Inr (bufs', None)) \<and>
      Inv st' \<and> bufs_ok S bufs' \<and> (\<forall>b. b \<notin> as_u32 ` set (drop 0 new) \<longrightarrow> img st' b = img st b) \<and>
      (\<forall>j. 0 \<le> j \<longrightarrow> j < length new \<longrightarrow> img st' (as_u32 (new ! j)) = planned_image ?B ?ch (C @ rem) (length bl + j))"
    by (rule extend_blocks_ok [OF assms(3) rs old(2) full new sz assms(2,1) old(1)]) simp
  then obtain st' bufs' where e: "extend_blocks S new (length bl) tail rem [length bl..<length bl + length new] 0 bufs st = (st', Inr (bufs', None))"
      "Inv st'" "\<forall>b. b \<notin> as_u32 ` set new \<longrightarrow> img st' b = img st b"
      "\<forall>j<length new. img st' (as_u32 (new ! j)) = planned_image ?B ?ch (C @ rem) (length bl + j)"
    unfolding full by auto
  have "0 < length (C @ rem)" using content(1) by simp
  note cov = chain_count [OF assms(3) units(4) this content(2) count]
  have same: "img st' (as_u32 b) = img st (as_u32 b)" if "b \<in> set bl" for b
    using e(3) new(2) that by (metis (no_types, lifting) block_address.expand imageE)
  have base: "ctz_chain (img st') (BLOCK_COUNT S) (take (length bl) ?ch)"
    using old(1) same [OF nth_mem] unfolding ctz_chain_def by simp
  have "ctz_bytes (img st') ?ch (length bl) = C"
    unfolding old(3) ctz_bytes_def
    by (rule arg_cong [of _ _ concat], rule map_cong) (use same [OF nth_mem] in \<open>auto simp: block_body_def nth_append\<close>)
  then have bytes: "ctz_bytes (img st') ?ch (length bl) = take (chain_start ?B (length bl)) (C @ rem)"
    unfolding full [symmetric] by simp
  have "chain_start ?B (length bl) < chain_start ?B (length ?ch)" 
  proof -
    have "0 < length rem" using content(1) by simp
    then show ?thesis using cov(3) full length_append [of C rem] by linarith
  qed
  then have lt: "length bl < length ?ch" using chain_start_mono [of "length ?ch" "length bl" ?B] by (cases "new = []") auto
  have planned: "img st' (as_u32 (?ch ! j)) = planned_image ?B ?ch (C @ rem) j" if "length bl \<le> j" "j < length ?ch" for j
    using that e(4) [rule_format, of "j - length bl"] by (simp add: nth_append)
  have on: "\<forall>b\<in>set ?ch. as_u32 b < BLOCK_COUNT S" using old(1) new(2) by (auto simp: ctz_chain_def)
  note linked = planned_chain_from [OF base bytes lt planned refl _ assms(3) on cov(2,3)]
  have "ctz_chain (img st') (BLOCK_COUNT S) ?ch" "take (length (C @ rem)) (ctz_bytes (img st') ?ch (length ?ch)) = C @ rem"
    using linked sz by auto
  from planned_reads [OF e(2) assms(3) this content(2) count small out, of start, folded n_def] show ?thesis using e(1-3) by blast
qed

end


section \<open>Properties\<close>

text \<open>C18. A file's content written as a chain reads back: on a device none of whose legal calls fails,
  building the chain of \<open>content\<close> on as many distinct blocks as it needs succeeds, programs those
  blocks only, and reading the file at any offset then delivers the content from there.\<close>

theorem built_chain_reads_back:
  fixes start :: u32
  assumes "reliable_flash S Inv img" and "Inv st" and "length buf = BLOCK_SIZE S" and "128 \<le> BLOCK_SIZE S"
    and "distinct chain" and "\<forall>b\<in>set chain. as_u32 b < BLOCK_COUNT S"
    and "content \<noteq> []" and "length content < 2 ^ 32"
    and "length chain = unat (block_count (of_nat (length content)) (of_nat (BLOCK_SIZE S)))"
    and "length chain \<le> MAX_CTZ_BLOCKS" and "chain_start (BLOCK_SIZE S) (length chain) < 2 ^ 32"
    and "BLOCK_SIZE S \<le> length scratch" and "length out < 2 ^ 32"
    and "n = min (length out) (length content - unat start)"
  shows "\<exists>st' buf'. try_build_ctz_chain S chain content buf st = (st', Inr (buf', None)) \<and> Inv st' \<and>
    (\<forall>b. b \<notin> as_u32 ` set chain \<longrightarrow> img st' b = img st b) \<and>
    (\<exists>st2 w. read_ctz_at S \<lparr>head_block = last chain, ctz_size = of_nat (length content)\<rparr> start out scratch st' =
       (st2, Inr (n, slice content (unat start) n @ drop n out, w)))"
  using reliable_flash.built_chain_reads [OF assms(1-13), of start] unfolding assms(14) by blast

theorem built_chain_reads_back_witness:
  "\<exists>st' buf' st2 w. try_build_ctz_chain dev256 two_block_chain (replicate 200 7 @ replicate 100 9) (replicate 256 0) (mem_new 256 8) =
      (st', Inr (buf', None)) \<and> mem_img 256 st' 0 = mem_img 256 (mem_new 256 8) 0 \<and>
    read_ctz_at dev256 \<lparr>head_block = BlockAddress 5, ctz_size = 300\<rparr> 198 (replicate 4 0) (replicate 256 0) st' =
      (st2, Inr (4, [7, 7, 9, 9], w))"
proof -
  have s: "slice (replicate 200 7 @ replicate 100 9) 198 4 = [7, 7, 9, 9 :: byte]" by code_simp
  show ?thesis
    using built_chain_reads_back [OF rel256.reliable_flash_axioms mem_inv_new, of "replicate 256 0" two_block_chain
        "replicate 200 7 @ replicate 100 9" "replicate 256 0" "replicate 4 0" 4 198] two_block_sizes s
    by (fastforce simp: MAX_CTZ_BLOCKS_def)
qed






end
