(* ===== verification/FsOps.thy ===== *)
theory FsOps
  imports Streams
begin

text \<open>
  The operations on a mounted handle (\<open>src/src/fs.rs\<close>): reading, writing, appending, truncating and
  removing files, directories, attributes and renames. Each resolves its path, searches the parent's
  chain, and commits one operation (a rename across directories two) through
  \<open>apply_op_to_pair_inner\<close>; its first argument here is the bound on nested commits.

  An operation returns the scratch buffers with its result. Where the source goes on after a callee
  that hands none back in the model (a listing, an error that is absorbed) the caller's earlier
  buffers are passed on: every use of a buffer starts with a read of a whole block into it.
\<close>

type_synonym ('s, 'a) run = "'s fs \<Rightarrow> ('s fs \<times> 'a result) option"

definition on_walk :: "('s \<Rightarrow> ('s \<times> 'a result) option) \<Rightarrow> ('s, 'a) run" where
  "on_walk m = (\<lambda>fs. map_option (\<lambda>(st, r). (fs\<lparr>fs_storage := st\<rparr>, r)) (m (fs_storage fs)))"

abbreviation ret :: "'a \<Rightarrow> ('s, 'a) run" where
  "ret x \<equiv> olift (io_return x)"

abbreviation throw :: "error \<Rightarrow> ('s, 'a) run" where
  "throw e \<equiv> olift (io_fail e)"

definition owith_root :: "(block_pair \<Rightarrow> ('s, 'a) run) \<Rightarrow> ('s, 'a) run" where
  "owith_root m = (\<lambda>fs. m (fs_root fs) fs)"

abbreviation drop_cache :: "('s, unit) run" where
  "drop_cache \<equiv> olift invalidate_alloc_cache"

definition INLINE_MAX :: nat where "INLINE_MAX = 128"

text \<open>The searches of \<open>Walks\<close> under a handle.\<close>

abbreviation seek_entry :: "'s storage \<Rightarrow> block_pair \<Rightarrow> byte list \<Rightarrow> bufs \<Rightarrow> ('s, bufs \<times> chain_seek) run" where
  "seek_entry S p nm bufs \<equiv> on_walk (seek_entry_in_chain S p nm bufs)"

definition parent_of :: "'s storage \<Rightarrow> byte list \<Rightarrow> bufs \<Rightarrow> ('s, bufs \<times> block_pair \<times> byte list) run" where
  "parent_of S path bufs = owith_root (\<lambda>root. on_walk (resolve_parent S root path bufs))"

definition resolve_in :: "'s storage \<Rightarrow> byte list \<Rightarrow> bufs \<Rightarrow> ('s, bufs \<times> resolved_path) run" where
  "resolve_in S path bufs = owith_root (\<lambda>root. on_walk (resolve S root path bufs))"

text \<open>\<open>u16::try_from(count)\<close> and the check against \<open>ID_NONE\<close>.\<close>

definition new_entry_id :: "nat \<Rightarrow> u16 result" where
  "new_entry_id cnt = rbind (u16_try cnt) (\<lambda>i. if i = ID_NONE then Inl OutOfRange else Inr i)"

text \<open>The live entries of the pair a create targets.\<close>

definition count_entries :: "'s storage \<Rightarrow> block_pair \<Rightarrow> bufs \<Rightarrow> ('s, bufs \<times> nat) run" where
  "count_entries S p bufs = olift (on_storage (
     io_bind (fetch_pair S p bufs) (\<lambda>(bufs, pair).
     io_bind (io_lift (gather_live_slots pair)) (\<lambda>(_, cnt). io_return (bufs, cnt)))))"

text \<open>The parse of a pair the buffers already hold, and the lookup of a name in it.\<close>

definition parse_held :: "block_pair \<Rightarrow> bufs \<Rightarrow> ('s, metadata_pair) run" where
  "parse_held p bufs = olift (io_lift (pair_parse (bp_a p) (fst bufs) (bp_b p) (snd bufs)))"

definition lookup_held :: "block_pair \<Rightarrow> byte list \<Rightarrow> bufs \<Rightarrow> ('s, metadata_pair \<times> resolved option) run" where
  "lookup_held p nm bufs = obind (parse_held p bufs) (\<lambda>pair.
     obind (olift (io_lift (lookup_checked pair nm))) (\<lambda>hit. ret (pair, hit)))"


section \<open>Writing a file\<close>

definition write_inline_to_pair :: "nat \<Rightarrow> 's storage \<Rightarrow> block_pair \<Rightarrow> byte list \<Rightarrow> byte list \<Rightarrow> bufs \<Rightarrow> ('s, bufs) run" where
  "write_inline_to_pair n S pair_addr nm content bufs =
     (if \<not> bufs_ok S bufs then throw GeometryMismatch
      else if nm = [] \<or> length nm > NAME_MAX \<or> length content > 0x3FF then throw InvalidPath
      else
        obind (seek_entry S pair_addr nm bufs) (\<lambda>(bufs, hit).
          case hit of
            Found pair i kind \<Rightarrow>
              if kind \<noteq> KindFile then throw AlreadyExists
              else apply_op_to_pair n S pair (OpUpdate i content) bufs
          | Absent last_pair cnt \<Rightarrow>
              obind (olift (io_lift (new_entry_id cnt))) (\<lambda>new_id.
                apply_op_to_pair n S last_pair (OpCreate new_id nm content []) bufs)))"

definition write_ctz_to_pair :: "nat \<Rightarrow> 's storage \<Rightarrow> block_pair \<Rightarrow> byte list \<Rightarrow> byte list \<Rightarrow> bufs \<Rightarrow> ('s, bufs) run" where
  "write_ctz_to_pair n S pair_addr nm content bufs =
     (if \<not> bufs_ok S bufs then throw GeometryMismatch
      else if nm = [] \<or> length nm > NAME_MAX then throw InvalidPath
      else
        obind (seek_entry S pair_addr nm bufs) (\<lambda>(bufs, hit).
        obind (case hit of
                 Found pair i kind \<Rightarrow> if kind \<noteq> KindFile then throw AlreadyExists else ret (pair, Some i)
               | Absent last_pair _ \<Rightarrow> ret (last_pair, None)) (\<lambda>(target, existing_id).
          let total_blocks = unat (block_count (of_nat (length content)) (of_nat (BLOCK_SIZE S)))
          in if total_blocks = 0 then write_inline_to_pair n S pair_addr nm content bufs
             else if total_blocks > MAX_CTZ_WRITE_BLOCKS then throw OutOfRange
             else
               obind (olift (write_chain_loop S content [] (replicate total_blocks block_NONE) bufs)) (\<lambda>(chain, bufs).
               obind (olift (dev_sync_fs S)) (\<lambda>_.
               obind (count_entries S target bufs) (\<lambda>(bufs, cnt).
                 let head = as_u32 (chain ! (total_blocks - 1)); total_size = of_nat (length content)
                 in obind (case existing_id of
                             Some i \<Rightarrow> ret (OpUpdateCtz i head total_size)
                           | None \<Rightarrow> obind (olift (io_lift (new_entry_id cnt))) (\<lambda>new_id.
                               ret (OpCreateCtz new_id nm head total_size []))) (\<lambda>op.
                    apply_op_to_pair_inner n S target op None None None
                      \<lparr>in_blocks = [], in_chain = Some (head, total_size)\<rparr> bufs)))))))"

definition write_to_pair :: "nat \<Rightarrow> 's storage \<Rightarrow> block_pair \<Rightarrow> byte list \<Rightarrow> byte list \<Rightarrow> bufs \<Rightarrow> ('s, bufs) run" where
  "write_to_pair n S p nm content bufs =
     (if length content \<le> INLINE_MAX then write_inline_to_pair n S p nm content bufs
      else write_ctz_to_pair n S p nm content bufs)"

definition write_to_path :: "nat \<Rightarrow> 's storage \<Rightarrow> byte list \<Rightarrow> byte list \<Rightarrow> bufs \<Rightarrow> ('s, bufs) run" where
  "write_to_path n S path content bufs =
     obind (parent_of S path bufs) (\<lambda>(bufs, parent, nm). write_to_pair n S parent nm content bufs)"

definition write_to_root :: "nat \<Rightarrow> 's storage \<Rightarrow> byte list \<Rightarrow> byte list \<Rightarrow> bufs \<Rightarrow> ('s, bufs) run" where
  "write_to_root n S nm content bufs = owith_root (\<lambda>root. write_to_pair n S root nm content bufs)"

definition write_ctz_to_root :: "nat \<Rightarrow> 's storage \<Rightarrow> byte list \<Rightarrow> byte list \<Rightarrow> bufs \<Rightarrow> ('s, bufs) run" where
  "write_ctz_to_root n S nm content bufs = owith_root (\<lambda>root. write_ctz_to_pair n S root nm content bufs)"

definition write_inline_to_root :: "nat \<Rightarrow> 's storage \<Rightarrow> byte list \<Rightarrow> byte list \<Rightarrow> bufs \<Rightarrow> ('s, bufs) run" where
  "write_inline_to_root n S nm content bufs = owith_root (\<lambda>root. write_inline_to_pair n S root nm content bufs)"

definition commit_update_ctz :: "nat \<Rightarrow> 's storage \<Rightarrow> block_pair \<Rightarrow> u16 \<Rightarrow> u32 \<Rightarrow> u32 \<Rightarrow> bufs \<Rightarrow> ('s, bufs) run" where
  "commit_update_ctz n S pair_addr i head total_size bufs =
     apply_op_to_pair_inner n S pair_addr (OpUpdateCtz i head total_size) None None None
       \<lparr>in_blocks = [], in_chain = Some (head, total_size)\<rparr> bufs"

definition append_ctz_streaming ::
  "nat \<Rightarrow> 's storage \<Rightarrow> block_pair \<Rightarrow> u16 \<Rightarrow> ctz_struct \<Rightarrow> byte list \<Rightarrow> bufs \<Rightarrow> ('s, bufs) run" where
  "append_ctz_streaming n S pair_addr entry_id ctz data bufs =
     obind (olift (stream_ctz_extend S ctz data bufs)) (\<lambda>((head_phys, new_size), bufs).
       commit_update_ctz n S pair_addr entry_id head_phys new_size bufs)"

text \<open>The layout of a regular file's entry; \<open>max_inline\<close> is the size of the caller's copy buffer.\<close>

datatype file_layout = LayoutInline "byte list" | LayoutCtz ctz_struct

definition layout_of :: "nat \<Rightarrow> resolved \<Rightarrow> file_layout result" where
  "layout_of max_inline r =
     (if de_kind (rs_entry r) \<noteq> KindFile then Inl AlreadyExists
      else case struct_type r of
        InlineStruct \<Rightarrow> if length (struct_body r) > max_inline then Inl OutOfRange else Inr (LayoutInline (struct_body r))
      | CtzStruct \<Rightarrow> rbind (ctz_from_bytes (struct_body r)) (\<lambda>ctz. Inr (LayoutCtz ctz))
      | _ \<Rightarrow> Inl Corrupt)"

definition append_to_path :: "nat \<Rightarrow> 's storage \<Rightarrow> byte list \<Rightarrow> byte list \<Rightarrow> byte list \<Rightarrow> bufs \<Rightarrow> ('s, bufs) run" where
  "append_to_path n S path additional content_scratch bufs =
     (if \<not> bufs_ok S bufs then throw GeometryMismatch
      else if additional = [] then ret bufs
      else
        obind (parent_of S path bufs) (\<lambda>(bufs, parent, nm).
          if nm = [] \<or> length nm > 0x3FF then throw InvalidPath
          else
            obind (seek_entry S parent nm bufs) (\<lambda>(bufs, hit).
              let owner = (case hit of Found pair _ _ \<Rightarrow> pair | Absent last_pair _ \<Rightarrow> last_pair)
              in obind (lookup_held owner nm bufs) (\<lambda>(_, found).
                 case found of
                   None \<Rightarrow> write_to_path n S path additional bufs
                 | Some r \<Rightarrow>
                     obind (olift (io_lift (layout_of 256 r))) (\<lambda>layout.
                       case layout of
                         LayoutInline body \<Rightarrow>
                           if length body + length additional > length content_scratch then throw OutOfRange
                           else write_to_path n S path (body @ additional) bufs
                       | LayoutCtz ctz \<Rightarrow> append_ctz_streaming n S owner (de_id (rs_entry r)) ctz additional bufs)))))"


section \<open>Reading a file\<close>

text \<open>The bytes copied, as the count and the destination.\<close>

definition read_at_path :: "'s storage \<Rightarrow> byte list \<Rightarrow> u32 \<Rightarrow> byte list \<Rightarrow> bufs \<Rightarrow> ('s, nat \<times> byte list \<times> bufs) run" where
  "read_at_path S path offset out bufs =
     (if \<not> bufs_ok S bufs then throw GeometryMismatch
      else
        obind (resolve_in S path bufs) (\<lambda>(bufs, rp).
        obind (olift (io_lift (layout_of 1024 (rp_resolved rp)))) (\<lambda>layout.
          case layout of
            LayoutInline body \<Rightarrow>
              if unat offset \<ge> length body then ret (0, out, bufs)
              else (let tk = min (length body - unat offset) (length out)
                    in ret (tk, slice body (unat offset) tk @ drop tk out, bufs))
          | LayoutCtz ctz \<Rightarrow>
              obind (olift (on_storage (read_ctz_at S ctz offset out (fst bufs)))) (\<lambda>(k, out, buf_a).
                ret (k, out, (buf_a, snd bufs))))))"

definition size_of :: "'s storage \<Rightarrow> byte list \<Rightarrow> bufs \<Rightarrow> ('s, u32 \<times> bufs) run" where
  "size_of S path bufs =
     obind (resolve_in S path bufs) (\<lambda>(bufs, rp).
       let r = rp_resolved rp
       in if de_kind (rs_entry r) \<noteq> KindFile then throw AlreadyExists
          else case struct_type r of
            InlineStruct \<Rightarrow> ret (of_nat (length (struct_body r)), bufs)
          | CtzStruct \<Rightarrow> obind (olift (io_lift (ctz_from_bytes (struct_body r)))) (\<lambda>ctz. ret (ctz_size ctz, bufs))
          | _ \<Rightarrow> throw Corrupt)"

definition tail_room :: "'s storage \<Rightarrow> byte list \<Rightarrow> bufs \<Rightarrow> ('s, u32 \<times> bufs) run" where
  "tail_room S path bufs =
     obind (resolve_in S path bufs) (\<lambda>(bufs, rp).
       let r = rp_resolved rp
       in if de_kind (rs_entry r) \<noteq> KindFile then throw AlreadyExists
          else case struct_type r of
            InlineStruct \<Rightarrow> ret (0, bufs)
          | CtzStruct \<Rightarrow> obind (olift (io_lift (ctz_from_bytes (struct_body r)))) (\<lambda>ctz.
              ret (if ctz_size ctz = 0 then 0 else snd (tail_end S (ctz_size ctz)), bufs))
          | _ \<Rightarrow> throw Corrupt)"

text \<open>The full rewrite: the kept prefix is read into the scratch, the rest of it zeroed.\<close>

definition truncate_path :: "nat \<Rightarrow> 's storage \<Rightarrow> byte list \<Rightarrow> u32 \<Rightarrow> byte list \<Rightarrow> bufs \<Rightarrow> ('s, bufs) run" where
  "truncate_path n S path new_size content_scratch bufs =
     obind drop_cache (\<lambda>_.
       if unat new_size > length content_scratch then throw OutOfRange
       else
         obind (\<lambda>fs. case size_of S path bufs fs of
                  Some (fs1, Inl NotFound) \<Rightarrow> Some (fs1, Inr (0, bufs)) | res \<Rightarrow> res) (\<lambda>(current_size, bufs).
           let copy_len = unat (min new_size current_size)
           in obind (if copy_len > 0
                     then obind (read_at_path S path 0 (take copy_len content_scratch) bufs) (\<lambda>(_, kept, bufs). ret (kept, bufs))
                     else ret ([], bufs)) (\<lambda>(kept, bufs).
              let content = (if new_size > current_size then kept @ replicate (unat new_size - unat current_size) 0 else kept)
              in write_to_path n S path content bufs)))"

definition exists_path :: "'s storage \<Rightarrow> byte list \<Rightarrow> bufs \<Rightarrow> ('s, bool) run" where
  "exists_path S path bufs = (\<lambda>fs.
     map_option (\<lambda>(fs1, r). (fs1,
        case r of
          Inr _ \<Rightarrow> Inr True
        | Inl NotFound \<Rightarrow> Inr False
        | Inl InvalidPath \<Rightarrow> if is_root path then Inr True else Inl InvalidPath
        | Inl e \<Rightarrow> Inl e)) (resolve_in S path bufs fs))"


section \<open>Listing\<close>

definition list_chain_fs :: "'s storage \<Rightarrow> (dir_entry \<Rightarrow> 'c \<Rightarrow> 'c) \<Rightarrow> block_pair \<Rightarrow> bufs \<Rightarrow> 'c \<Rightarrow> ('s, nat \<times> 'c) run" where
  "list_chain_fs S f start bufs c = on_walk (\<lambda>st.
     map_option (\<lambda>((st', c'), r). (st', rbind r (\<lambda>k. Inr (k, c')))) (list_pair_chain S f start bufs (st, c)))"

definition list_root :: "'s storage \<Rightarrow> (dir_entry \<Rightarrow> 'c \<Rightarrow> 'c) \<Rightarrow> bufs \<Rightarrow> 'c \<Rightarrow> ('s, nat \<times> 'c) run" where
  "list_root S f bufs c =
     (if \<not> bufs_ok S bufs then throw GeometryMismatch else owith_root (\<lambda>root. list_chain_fs S f root bufs c))"

definition list_dir :: "'s storage \<Rightarrow> byte list \<Rightarrow> (dir_entry \<Rightarrow> 'c \<Rightarrow> 'c) \<Rightarrow> bufs \<Rightarrow> 'c \<Rightarrow> ('s, nat \<times> 'c) run" where
  "list_dir S path f bufs c =
     (if \<not> bufs_ok S bufs then throw GeometryMismatch
      else
        obind (if is_root path then owith_root (\<lambda>root. ret (bufs, root))
               else obind (resolve_in S path bufs) (\<lambda>(bufs, rp).
                    obind (olift (io_lift (dir_target (rp_resolved rp)))) (\<lambda>p. ret (bufs, p)))) (\<lambda>(bufs, target_pair).
          list_chain_fs S f target_pair bufs c))"


section \<open>Attributes\<close>

text \<open>The pair and id of an existing entry.\<close>

definition locate :: "'s storage \<Rightarrow> byte list \<Rightarrow> bufs \<Rightarrow> ('s, bufs \<times> block_pair \<times> u16) run" where
  "locate S path bufs =
     obind (parent_of S path bufs) (\<lambda>(bufs, parent, leaf).
     obind (seek_entry S parent leaf bufs) (\<lambda>(bufs, hit).
       case hit of Found pair i _ \<Rightarrow> ret (bufs, pair, i) | Absent _ _ \<Rightarrow> throw NotFound))"

definition set_attr :: "nat \<Rightarrow> 's storage \<Rightarrow> byte list \<Rightarrow> byte \<Rightarrow> byte list \<Rightarrow> bufs \<Rightarrow> ('s, bufs) run" where
  "set_attr n S path attr_id val bufs =
     (if length val \<ge> 0x3FF then throw OutOfRange
      else obind (locate S path bufs) (\<lambda>(bufs, target, i). apply_op_to_pair n S target (OpSetAttr i attr_id val) bufs))"

definition remove_attr :: "nat \<Rightarrow> 's storage \<Rightarrow> byte list \<Rightarrow> byte \<Rightarrow> bufs \<Rightarrow> ('s, bufs) run" where
  "remove_attr n S path attr_id bufs =
     obind (locate S path bufs) (\<lambda>(bufs, target, i). apply_op_to_pair n S target (OpRemoveAttr i attr_id) bufs)"

definition get_attr :: "'s storage \<Rightarrow> byte list \<Rightarrow> byte \<Rightarrow> byte list \<Rightarrow> bufs \<Rightarrow> ('s, nat \<times> byte list \<times> bufs) run" where
  "get_attr S path attr_id out bufs =
     obind (locate S path bufs) (\<lambda>(bufs, target, i).
     obind (parse_held target bufs) (\<lambda>pair.
       ret (case attr_get (mp_reader pair) i attr_id of
              None \<Rightarrow> (0, out, bufs)
            | Some body \<Rightarrow> (let k = min (length body) (length out) in (k, take k body @ drop k out, bufs)))))"


section \<open>Removing\<close>

definition remove_from_pair :: "nat \<Rightarrow> 's storage \<Rightarrow> block_pair \<Rightarrow> byte list \<Rightarrow> bufs \<Rightarrow> ('s, bufs) run" where
  "remove_from_pair n S first_pair nm bufs =
     obind drop_cache (\<lambda>_.
       if \<not> bufs_ok S bufs then throw GeometryMismatch
       else if nm = [] then throw InvalidPath
       else
         obind (seek_entry S first_pair nm bufs) (\<lambda>(bufs, hit).
           case hit of
             Found pair i _ \<Rightarrow> apply_op_to_pair n S pair (OpRemove i) bufs
           | Absent _ _ \<Rightarrow> throw NotFound))"

definition remove_from_root :: "nat \<Rightarrow> 's storage \<Rightarrow> byte list \<Rightarrow> bufs \<Rightarrow> ('s, bufs) run" where
  "remove_from_root n S nm bufs = owith_root (\<lambda>root. remove_from_pair n S root nm bufs)"

definition remove_at_path :: "nat \<Rightarrow> 's storage \<Rightarrow> byte list \<Rightarrow> bufs \<Rightarrow> ('s, bufs) run" where
  "remove_at_path n S path bufs =
     obind (parent_of S path bufs) (\<lambda>(bufs, parent, leaf).
     obind (seek_entry S parent leaf bufs) (\<lambda>(bufs, hit).
       case hit of
         Found _ _ KindDirectory \<Rightarrow> throw AlreadyExists
       | Found _ _ _ \<Rightarrow> remove_from_pair n S parent leaf bufs
       | Absent _ _ \<Rightarrow> throw NotFound))"

text \<open>The walk of a dropped directory's chain: the XOR of its pairs' gstate shares and the tail of its
  last pair.\<close>

definition steal_visit ::
  "'s storage \<Rightarrow> block_pair \<Rightarrow> byte list \<times> byte list \<times> bufs \<Rightarrow>
   ('s, (byte list \<times> byte list \<times> bufs \<times> block_pair option, byte list \<times> byte list \<times> bufs) visit) io" where
  "steal_visit S current = (\<lambda>(ms, rs, bufs).
     io_bind (fetch_pair S current bufs) (\<lambda>(bufs, p).
       let ms1 = xor_bytes ms (scan_pair_move_state p); rs1 = xor_bytes rs (scan_pair_relocate_state p);
           tail = rd_tail (mp_reader p)
       in io_return (if is_hard_tail (mp_reader p)
            then (case tail of Some t \<Rightarrow> Follow t (ms1, rs1, bufs) | None \<Rightarrow> Done (ms1, rs1, bufs, None))
            else Done (ms1, rs1, bufs, tail))))"

definition nonzero_body :: "nat \<Rightarrow> byte list \<Rightarrow> byte list option" where
  "nonzero_body k b = (if b \<noteq> replicate k 0 then Some b else None)"

definition unthread_and_steal :: "nat \<Rightarrow> 's storage \<Rightarrow> block_pair \<Rightarrow> block_pair \<Rightarrow> bufs \<Rightarrow> ('s, bufs) run" where
  "unthread_and_steal n S pred_pair dropped bufs =
     obind (on_walk (chase (steal_visit S) (brent_new dropped) dropped
              (replicate MOVE_STATE_BODY_SIZE 0, replicate RELOCATE_STATE_BODY_SIZE 0, bufs)))
       (\<lambda>(stolen_ms, stolen_rs, bufs, successor).
          apply_op_to_pair_inner n S pred_pair OpNoop
            (nonzero_body MOVE_STATE_BODY_SIZE stolen_ms) (nonzero_body RELOCATE_STATE_BODY_SIZE stolen_rs)
            (Some (case successor of Some s \<Rightarrow> s | None \<Rightarrow> pair_new block_NONE block_NONE, False))
            inflight_NONE bufs)"

text \<open>\<open>dir_target\<close> without the kind check, which the search has already made.\<close>

definition struct_target :: "resolved \<Rightarrow> block_pair result" where
  "struct_target r =
     (if struct_type r \<noteq> DirStruct \<or> length (struct_body r) \<noteq> 8 then Inl Corrupt
      else Inr (decode_pair (struct_body r) 0))"

definition rmdir :: "nat \<Rightarrow> 's storage \<Rightarrow> byte list \<Rightarrow> bufs \<Rightarrow> ('s, bufs) run" where
  "rmdir n S path bufs =
     obind (parent_of S path bufs) (\<lambda>(bufs, parent, leaf).
     obind (seek_entry S parent leaf bufs) (\<lambda>(bufs, hit).
       case hit of
         Absent _ _ \<Rightarrow> throw NotFound
       | Found owner _ kind \<Rightarrow>
           if kind \<noteq> KindDirectory then throw AlreadyExists
           else
             obind (lookup_held owner leaf bufs) (\<lambda>(_, found).
             obind (case found of None \<Rightarrow> throw NotFound | Some r \<Rightarrow> olift (io_lift (struct_target r))) (\<lambda>dir_pair.
             obind (list_chain_fs S (\<lambda>_ u. u) dir_pair bufs ()) (\<lambda>(live_count, _).
               if live_count > 0 then throw NotEmpty
               else
                 obind (remove_from_pair n S parent leaf bufs) (\<lambda>bufs.
                 obind (olift (with_root (\<lambda>root. on_storage (find_thread_predecessor S root dir_pair bufs)))) (\<lambda>(pred, bufs).
                   case pred of
                     Some (pred_pair, _) \<Rightarrow> unthread_and_steal n S pred_pair dir_pair bufs
                   | None \<Rightarrow> ret bufs)))))))"


section \<open>Making a directory\<close>

text \<open>The first commit of a new directory, which takes over the tail of the pair it is threaded
  behind, and the programming of its pair: the buffer, and the worn block if one was met.\<close>

definition empty_dir_commit :: "'s storage \<Rightarrow> (block_pair \<times> bool) option \<Rightarrow> nat \<Rightarrow> commit result" where
  "empty_dir_commit S parent_tail len =
     rbind (commit_new (replicate len 0xFF) 1) (\<lambda>c.
     rbind (emit_tail parent_tail c) (\<lambda>c. commit_finish_padded c 0 (PROG_SIZE S) (BLOCK_SIZE S)))"

definition init_dir_pair ::
  "'s storage \<Rightarrow> (block_pair \<times> bool) option \<Rightarrow> block_pair \<Rightarrow> byte list \<Rightarrow> ('s, byte list \<times> block_address option) io" where
  "init_dir_pair S parent_tail candidate buf_a = (\<lambda>st.
     case st_erase S st (as_u32 (bp_a candidate)) of
       (st, False) \<Rightarrow> (st, Inr (buf_a, Some (bp_a candidate)))
     | (st, True) \<Rightarrow>
         (case st_erase S st (as_u32 (bp_b candidate)) of
            (st, False) \<Rightarrow> (st, Inr (buf_a, Some (bp_b candidate)))
          | (st, True) \<Rightarrow>
              (case empty_dir_commit S parent_tail (length buf_a) of
                 Inl e \<Rightarrow> (st, Inl e)
               | Inr c \<Rightarrow>
                   let new_end = bytes_written c; region = take new_end (cm_buf c)
                   in case st_program S st (as_u32 (bp_a candidate)) 0 region of
                        (st, False) \<Rightarrow> (st, Inr (cm_buf c, Some (bp_a candidate)))
                      | (st, True) \<Rightarrow>
                          (case verify_programmed S (bp_a candidate) 0 region st of
                             (st, region, ok) \<Rightarrow>
                               (st, Inr (region @ drop new_end (cm_buf c), if ok then None else Some (bp_a candidate)))))))"

function new_dir_loop ::
  "'s storage \<Rightarrow> (block_pair \<times> bool) option \<Rightarrow> block_address list \<Rightarrow> block_address list \<Rightarrow> bufs \<Rightarrow>
   ('s fs, block_pair \<times> block_address list \<times> bufs) io" where
  "new_dir_loop S parent_tail excluded new_blocks bufs =
     io_bind (fs_allocs S excluded None new_blocks bufs) (\<lambda>(new_blocks, bufs).
       let candidate = pair_new (new_blocks ! 0) (new_blocks ! 1)
       in io_bind (on_storage (init_dir_pair S parent_tail candidate (fst bufs))) (\<lambda>(buf_a, worn).
          case worn of
            None \<Rightarrow> io_return (candidate, new_blocks, (buf_a, snd bufs))
          | Some bad \<Rightarrow>
              if length excluded \<ge> MAX_BAD_BLOCK_RETRIES then io_fail Io
              else io_bind invalidate_alloc_cache (\<lambda>_.
                     new_dir_loop S parent_tail (excluded @ [bad]) new_blocks (buf_a, snd bufs))))"
  by pat_completeness auto

termination
  by (relation "measure (\<lambda>(S, parent_tail, excluded, new_blocks, bufs). MAX_BAD_BLOCK_RETRIES - length excluded)") auto

declare new_dir_loop.simps [simp del]

definition mkdir :: "nat \<Rightarrow> 's storage \<Rightarrow> byte list \<Rightarrow> bufs \<Rightarrow> ('s, bufs) run" where
  "mkdir n S path bufs =
     obind (parent_of S path bufs) (\<lambda>(bufs, parent, nm).
       if nm = [] \<or> length nm > 0x3FF then throw InvalidPath
       else
         obind (seek_entry S parent nm bufs) (\<lambda>(bufs, hit).
           case hit of
             Found _ _ _ \<Rightarrow> throw AlreadyExists
           | Absent target _ \<Rightarrow>
               obind (parse_held target bufs) (\<lambda>p.
                 let parent_tail = map_option (\<lambda>t. (t, is_hard_tail (mp_reader p))) (rd_tail (mp_reader p))
                 in obind (olift (with_root (\<lambda>root. on_storage (collect_live_tree_pairs S root bufs)))) (\<lambda>(tree, bufs).
                    if length tree + 2 > MAX_QUEUED_PAIRS then throw OutOfRange
                    else
                      obind (olift (new_dir_loop S parent_tail [] (replicate 2 block_NONE) bufs)) (\<lambda>(new_dir, new_blocks, bufs).
                      obind (olift (dev_sync_fs S)) (\<lambda>_.
                      obind (count_entries S target bufs) (\<lambda>(bufs, cnt).
                      obind (olift (io_lift (new_entry_id cnt))) (\<lambda>new_id.
                        apply_op_to_pair_inner n S target (OpCreateDir new_id nm new_dir []) None None (Some (new_dir, False))
                          \<lparr>in_blocks = new_blocks, in_chain = None\<rparr> bufs))))))))"


section \<open>Renaming\<close>

definition rename_in_dir :: "nat \<Rightarrow> 's storage \<Rightarrow> byte list \<Rightarrow> byte list \<Rightarrow> bufs \<Rightarrow> ('s, bufs) run" where
  "rename_in_dir n S old_path new_path bufs =
     obind drop_cache (\<lambda>_.
     obind (parent_of S old_path bufs) (\<lambda>(bufs, old_parent, old_leaf).
     obind (parent_of S new_path bufs) (\<lambda>(bufs, new_parent, new_leaf).
       if old_parent \<noteq> new_parent then throw InvalidPath
       else if new_leaf = [] \<or> length new_leaf > 0x3FF then throw InvalidPath
       else if old_leaf = new_leaf then ret bufs
       else
         obind (seek_entry S old_parent old_leaf bufs) (\<lambda>(bufs, old_hit).
           case old_hit of
             Absent _ _ \<Rightarrow> throw NotFound
           | Found old_pair old_id kind \<Rightarrow>
               obind (seek_entry S old_parent new_leaf bufs) (\<lambda>(bufs, new_hit).
                 case new_hit of
                   Found _ _ _ \<Rightarrow> throw AlreadyExists
                 | Absent _ _ \<Rightarrow>
                     apply_op_to_pair n S old_pair
                       (OpRenameInPlace old_id (case kind of KindFile \<Rightarrow> RegularFile | KindDirectory \<Rightarrow> Directory) new_leaf) bufs)))))"

text \<open>The create that carries a moved entry to its destination.\<close>

definition moved_create :: "tag_type \<Rightarrow> byte list \<Rightarrow> u16 \<Rightarrow> byte list \<Rightarrow> byte list \<Rightarrow> write_op result" where
  "moved_create sty body new_id nm moved =
     (case sty of
        InlineStruct \<Rightarrow> Inr (OpCreate new_id nm body moved)
      | CtzStruct \<Rightarrow>
          if length body \<noteq> 8 then Inl Corrupt
          else Inr (OpCreateCtz new_id nm (le_u32_at body 0) (le_u32_at body 4) moved)
      | DirStruct \<Rightarrow>
          if length body \<noteq> 8 then Inl Corrupt
          else Inr (OpCreateDir new_id nm (pair_new (BlockAddress (le_u32_at body 0)) (BlockAddress (le_u32_at body 4))) moved)
      | _ \<Rightarrow> Inl Corrupt)"

text \<open>The two commits of a move. The pending record follows the source pair through a relocation that
  the first commit causes, and is cleared whether or not that commit succeeds.\<close>

definition move_commits ::
  "nat \<Rightarrow> 's storage \<Rightarrow> block_pair \<Rightarrow> write_op \<Rightarrow> block_pair \<Rightarrow> u16 \<Rightarrow> bufs \<Rightarrow> ('s, bufs) run" where
  "move_commits n S dst_last create_op src_owner src_id bufs = (\<lambda>fs.
     let move_body = build_move_body src_owner src_id;
         pm = \<lparr>pm_cur_pair = src_owner, pm_cur_id = src_id, pm_delta = move_body\<rparr>
     in case apply_op_to_pair_with_movestate n S dst_last create_op (Some move_body) bufs (fs\<lparr>fs_pending_move := Some pm\<rparr>) of
          None \<Rightarrow> None
        | Some (fs1, r) \<Rightarrow>
            let now = (case fs_pending_move fs1 of Some p \<Rightarrow> p | None \<Rightarrow> pm); fs2 = fs1\<lparr>fs_pending_move := None\<rparr>
            in case r of
                 Inl e \<Rightarrow> Some (fs2, Inl e)
               | Inr bufs \<Rightarrow>
                   apply_op_to_pair_with_movestate n S (pm_cur_pair now) (OpRemove (pm_cur_id now)) (Some (pm_delta now)) bufs fs2)"

definition rename :: "nat \<Rightarrow> 's storage \<Rightarrow> byte list \<Rightarrow> byte list \<Rightarrow> bufs \<Rightarrow> ('s, bufs) run" where
  "rename n S old_path new_path bufs =
     obind drop_cache (\<lambda>_.
     obind (parent_of S old_path bufs) (\<lambda>(bufs, old_parent, old_leaf).
     obind (parent_of S new_path bufs) (\<lambda>(bufs, new_parent, new_leaf).
       if old_parent = new_parent then rename_in_dir n S old_path new_path bufs
       else if new_leaf = [] \<or> length new_leaf > 0x3FF then throw InvalidPath
       else if path_is_strict_ancestor old_path new_path then throw InvalidPath
       else
         obind (seek_entry S old_parent old_leaf bufs) (\<lambda>(bufs, old_hit).
           case old_hit of
             Absent _ _ \<Rightarrow> throw NotFound
           | Found src_owner _ _ \<Rightarrow>
               obind (lookup_held src_owner old_leaf bufs) (\<lambda>(p, found).
                 case found of
                   None \<Rightarrow> throw NotFound
                 | Some r \<Rightarrow>
                     if length (struct_body r) > 1024 then throw OutOfRange
                     else
                       let src_id = de_id (rs_entry r)
                       in obind (olift (io_lift (stage_live_attrs (mp_reader p) src_id (replicate RENAME_ATTR_STAGE 0)))) (\<lambda>moved.
                          obind (seek_entry S new_parent new_leaf bufs) (\<lambda>(bufs, new_hit).
                            case new_hit of
                              Found _ _ _ \<Rightarrow> throw AlreadyExists
                            | Absent dst_last cnt \<Rightarrow>
                                obind (olift (io_lift (new_entry_id cnt))) (\<lambda>new_id.
                                obind (olift (io_lift (moved_create (struct_type r) (struct_body r) new_id new_leaf moved))) (\<lambda>create_op.
                                  move_commits n S dst_last create_op src_owner src_id bufs)))))))))"

end
