(* ===== verification/Files.thy ===== *)
theory Files
  imports FsOps
begin

text \<open>
  File handles (\<open>src/src/file.rs\<close>): \<open>Fs::open\<close> and the methods of \<open>File\<close>. A handle borrows the
  filesystem, so its state is a record with the handle of the filesystem in its first field, and a
  method is a step of that record that keeps what it changed also when it fails.
\<close>

section \<open>Options and handles\<close>

record open_options =
  oo_read :: bool
  oo_write :: bool
  oo_append :: bool
  oo_truncate :: bool
  oo_create :: bool

definition options_new :: open_options where
  "options_new = \<lparr>oo_read = False, oo_write = False, oo_append = False, oo_truncate = False, oo_create = False\<rparr>"

definition set_read :: "bool \<Rightarrow> open_options \<Rightarrow> open_options" where
  "set_read on o1 = o1\<lparr>oo_read := on\<rparr>"

definition set_write :: "bool \<Rightarrow> open_options \<Rightarrow> open_options" where
  "set_write on o1 = o1\<lparr>oo_write := on\<rparr>"

definition set_append :: "bool \<Rightarrow> open_options \<Rightarrow> open_options" where
  "set_append on o1 = o1\<lparr>oo_append := on\<rparr>"

definition set_truncate :: "bool \<Rightarrow> open_options \<Rightarrow> open_options" where
  "set_truncate on o1 = o1\<lparr>oo_truncate := on\<rparr>"

definition set_create :: "bool \<Rightarrow> open_options \<Rightarrow> open_options" where
  "set_create on o1 = o1\<lparr>oo_create := on\<rparr>"

definition writable :: "open_options \<Rightarrow> bool" where
  "writable o1 \<longleftrightarrow> oo_write o1 \<or> oo_append o1"

datatype seek_from = SeekStart u32 | SeekCurrent int | SeekEnd int

record 's file_state =
  fl_fs :: "'s fs"
  fl_parent :: block_pair
  fl_id :: u16
  fl_pos :: u32
  fl_head :: block_address
  fl_size :: u32
  fl_dirty :: bool
  fl_options :: open_options

type_synonym ('s, 'a) filerun = "'s file_state \<Rightarrow> ('s file_state \<times> 'a result) option"

definition on_fs :: "('s, 'a) run \<Rightarrow> ('s, 'a) filerun" where
  "on_fs m = (\<lambda>f. map_option (\<lambda>(fs, r). (f\<lparr>fl_fs := fs\<rparr>, r)) (m (fl_fs f)))"


section \<open>Opening\<close>

definition create_empty_entry :: "nat \<Rightarrow> 's storage \<Rightarrow> block_pair \<Rightarrow> byte list \<Rightarrow> bufs \<Rightarrow> ('s, bufs \<times> block_pair \<times> u16) run" where
  "create_empty_entry n S parent nm bufs =
     obind (write_inline_to_pair n S parent nm [] bufs) (\<lambda>bufs.
     obind (seek_entry S parent nm bufs) (\<lambda>(bufs, hit).
       case hit of Found pair i _ \<Rightarrow> ret (bufs, pair, i) | Absent _ _ \<Rightarrow> throw Corrupt))"

datatype existing = Missing | ExistingInline u16 nat | ExistingCtz u16 ctz_struct

definition existing_of :: "resolved option \<Rightarrow> existing result" where
  "existing_of hit =
     (case hit of
        None \<Rightarrow> Inr Missing
      | Some r \<Rightarrow>
          if de_kind (rs_entry r) \<noteq> KindFile then Inl AlreadyExists
          else case struct_type r of
            InlineStruct \<Rightarrow> Inr (ExistingInline (de_id (rs_entry r)) (length (struct_body r)))
          | CtzStruct \<Rightarrow> rbind (ctz_from_bytes (struct_body r)) (\<lambda>ctz. Inr (ExistingCtz (de_id (rs_entry r)) ctz))
          | _ \<Rightarrow> Inl Corrupt)"

text \<open>The access mode gate, and the fields of a new handle.\<close>

definition options_ok :: "open_options \<Rightarrow> bool" where
  "options_ok o1 \<longleftrightarrow> (oo_read o1 \<or> writable o1) \<and> (oo_create o1 \<or> oo_truncate o1 \<longrightarrow> writable o1)"

definition new_file :: "'s fs \<Rightarrow> open_options \<Rightarrow> block_pair \<Rightarrow> u16 \<Rightarrow> block_address \<Rightarrow> u32 \<Rightarrow> 's file_state" where
  "new_file fs o1 parent i head sz =
     (let head1 = (if oo_truncate o1 then block_NONE else head); sz1 = (if oo_truncate o1 then 0 else sz)
      in \<lparr>fl_fs = fs, fl_parent = parent, fl_id = i, fl_pos = (if oo_append o1 then sz1 else 0), fl_head = head1,
          fl_size = sz1, fl_dirty = oo_truncate o1, fl_options = o1\<rparr>)"

definition open_file :: "nat \<Rightarrow> 's storage \<Rightarrow> byte list \<Rightarrow> open_options \<Rightarrow> bufs \<Rightarrow> ('s, 's file_state \<times> bufs) run" where
  "open_file n S path o1 bufs =
     (if \<not> bufs_ok S bufs then throw GeometryMismatch
      else if \<not> options_ok o1 then throw InvalidPath
      else
        obind (parent_of S path bufs) (\<lambda>(bufs, parent, nm).
          if nm = [] \<or> length nm > 0x3FF then throw InvalidPath
          else
            obind (seek_entry S parent nm bufs) (\<lambda>(bufs, hit).
              let owner = (case hit of Found pair _ _ \<Rightarrow> pair | Absent last_pair _ \<Rightarrow> last_pair)
              in obind (lookup_held owner nm bufs) (\<lambda>(_, found).
                 obind (olift (io_lift (existing_of found))) (\<lambda>ex.
                 obind (case ex of
                          Missing \<Rightarrow>
                            if \<not> oo_create o1 then throw NotFound
                            else obind (create_empty_entry n S parent nm bufs) (\<lambda>(bufs, p, i). ret (bufs, p, i, block_NONE, 0))
                        | ExistingInline i sz \<Rightarrow>
                            if \<not> oo_truncate o1 then throw OutOfRange else ret (bufs, owner, i, block_NONE, of_nat sz)
                        | ExistingCtz i ctz \<Rightarrow> ret (bufs, owner, i, head_block ctz, ctz_size ctz)) (\<lambda>(bufs, p, i, head, sz).
                   (\<lambda>fs. ret (new_file fs o1 p i head sz, bufs) fs)))))))"


section \<open>The methods\<close>

definition file_seek :: "seek_from \<Rightarrow> ('s file_state, u32) io" where
  "file_seek from = (\<lambda>f.
     let new_pos = (case from of SeekStart p \<Rightarrow> int (unat p) | SeekCurrent d \<Rightarrow> int (unat (fl_pos f)) + d
                    | SeekEnd d \<Rightarrow> int (unat (fl_size f)) + d)
     in if \<not> (0 \<le> new_pos \<and> new_pos \<le> 0xFFFFFFFF) then (f, Inl OutOfRange)
        else (f\<lparr>fl_pos := word_of_int new_pos\<rparr>, Inr (word_of_int new_pos)))"

text \<open>The bytes copied, as the count and the destination.\<close>

definition file_read :: "'s storage \<Rightarrow> byte list \<Rightarrow> byte list \<Rightarrow> ('s file_state, nat \<times> byte list \<times> byte list) io" where
  "file_read S out buf_a = (\<lambda>f.
     if \<not> oo_read (fl_options f) then (f, Inl InvalidPath)
     else if length buf_a \<noteq> BLOCK_SIZE S then (f, Inl GeometryMismatch)
     else if out = [] \<or> fl_pos f \<ge> fl_size f then (f, Inr (0, out, buf_a))
     else if is_none (fl_head f) then (f, Inr (0, out, buf_a))
     else
       let tk = min (length out) (unat (fl_size f - fl_pos f))
       in case on_storage (read_ctz_at S \<lparr>head_block = fl_head f, ctz_size = fl_size f\<rparr> (fl_pos f) (take tk out) buf_a) (fl_fs f) of
            (fs, Inl e) \<Rightarrow> (f\<lparr>fl_fs := fs\<rparr>, Inl e)
          | (fs, Inr (_, got, buf_a)) \<Rightarrow>
              (f\<lparr>fl_fs := fs, fl_pos := fl_pos f + of_nat tk\<rparr>, Inr (tk, got @ drop tk out, buf_a)))"

text \<open>The extension shared by \<open>write\<close> and the zero fill of \<open>set_len\<close>.\<close>

definition file_extend :: "'s storage \<Rightarrow> byte list \<Rightarrow> bufs \<Rightarrow> ('s file_state, bufs) io" where
  "file_extend S data bufs = (\<lambda>f.
     case stream_ctz_extend S \<lparr>head_block = fl_head f, ctz_size = fl_size f\<rparr> data bufs (fl_fs f) of
       (fs, Inl e) \<Rightarrow> (f\<lparr>fl_fs := fs\<rparr>, Inl e)
     | (fs, Inr ((new_head, new_size), bufs)) \<Rightarrow>
         (f\<lparr>fl_fs := fs, fl_head := BlockAddress new_head, fl_size := new_size\<rparr>, Inr bufs))"

definition file_write :: "'s storage \<Rightarrow> byte list \<Rightarrow> bufs \<Rightarrow> ('s file_state, nat \<times> bufs) io" where
  "file_write S data bufs = (\<lambda>f.
     if \<not> writable (fl_options f) then (f, Inl InvalidPath)
     else if \<not> bufs_ok S bufs then (f, Inl GeometryMismatch)
     else if data = [] then (f, Inr (0, bufs))
     else
       let f1 = (if oo_append (fl_options f) then f\<lparr>fl_pos := fl_size f\<rparr> else f)
       in if fl_pos f1 \<noteq> fl_size f1 then (f1, Inl OutOfRange)
          else
            (case file_extend S data bufs f1 of
               (f2, Inl e) \<Rightarrow> (f2, Inl e)
             | (f2, Inr bufs) \<Rightarrow> (f2\<lparr>fl_pos := fl_size f2, fl_dirty := True\<rparr>, Inr (length data, bufs))))"

definition ZERO_CHUNK :: nat where "ZERO_CHUNK = 1024"

function zero_fill :: "'s storage \<Rightarrow> nat \<Rightarrow> bufs \<Rightarrow> ('s file_state, bufs) io" where
  "zero_fill S remaining bufs =
     (if remaining > 0
      then let chunk = min remaining ZERO_CHUNK
           in io_bind (file_extend S (replicate chunk 0) bufs) (\<lambda>bufs. zero_fill S (remaining - chunk) bufs)
      else io_return bufs)"
  by pat_completeness auto

termination
  by (relation "measure (\<lambda>(S, remaining, bufs). remaining)") (auto simp: ZERO_CHUNK_def)

declare zero_fill.simps [simp del]

definition set_len :: "'s storage \<Rightarrow> u32 \<Rightarrow> bufs \<Rightarrow> ('s file_state, bufs) io" where
  "set_len S new_size bufs = (\<lambda>f.
     if \<not> writable (fl_options f) then (f, Inl InvalidPath)
     else if \<not> bufs_ok S bufs then (f, Inl GeometryMismatch)
     else if new_size = fl_size f then (f, Inr bufs)
     else if new_size < fl_size f then
       if new_size = 0 then
         (f\<lparr>fl_head := block_NONE, fl_size := 0, fl_pos := min (fl_pos f) 0, fl_dirty := True\<rparr>, Inr bufs)
       else
         (case shrink_ctz_head S (fl_head f) (fl_size f) new_size bufs (fl_fs f) of
            (fs, Inl e) \<Rightarrow> (f\<lparr>fl_fs := fs\<rparr>, Inl e)
          | (fs, Inr (new_head, bufs)) \<Rightarrow>
              (f\<lparr>fl_fs := fs, fl_head := new_head, fl_size := new_size, fl_pos := min (fl_pos f) new_size, fl_dirty := True\<rparr>,
               Inr bufs))
     else
       let saved_pos = fl_pos f
       in case zero_fill S (unat (new_size - fl_size f)) bufs (f\<lparr>fl_pos := fl_size f\<rparr>) of
            (f1, Inl e) \<Rightarrow> (f1, Inl e)
          | (f1, Inr bufs) \<Rightarrow> (f1\<lparr>fl_pos := min saved_pos (fl_size f1), fl_dirty := True\<rparr>, Inr bufs))"

definition file_sync :: "nat \<Rightarrow> 's storage \<Rightarrow> bufs \<Rightarrow> ('s, bufs) filerun" where
  "file_sync n S bufs = (\<lambda>f.
     if \<not> fl_dirty f then Some (f, Inr bufs)
     else if \<not> bufs_ok S bufs then Some (f, Inl GeometryMismatch)
     else
       obind (on_fs (if is_none (fl_head f) then update_inline_at_id n S (fl_parent f) (fl_id f) [] bufs
                     else commit_update_ctz n S (fl_parent f) (fl_id f) (as_u32 (fl_head f)) (fl_size f) bufs)) (\<lambda>bufs f1.
         Some (f1\<lparr>fl_fs := (fl_fs f1)\<lparr>used_cache := None\<rparr>, fl_dirty := False\<rparr>, Inr bufs)) f)"

text \<open>\<open>close\<close> consumes the handle: what is left is the filesystem.\<close>

definition file_close :: "nat \<Rightarrow> 's storage \<Rightarrow> bufs \<Rightarrow> 's file_state \<Rightarrow> ('s fs \<times> bufs result) option" where
  "file_close n S bufs f = map_option (\<lambda>(f1, r). (fl_fs f1, r)) (file_sync n S bufs f)"

end
