(* ===== verification/Mounts.thy ===== *)
theory Mounts
  imports FsOps Geometry
begin

text \<open>
  Formatting a device and mounting it (\<open>src/src/fs.rs\<close>): the superblock commit, the checks of a mount
  with their error variants, and the three recoveries it ends with, of an interrupted move, of a
  pending relocation and of pairs left in the thread.
\<close>

section \<open>Formatting\<close>

definition format_superblock :: "'s storage \<Rightarrow> superblock" where
  "format_superblock S = \<lparr>version = DISK_VERSION, sb_block_size = of_nat (BLOCK_SIZE S), sb_block_count = BLOCK_COUNT S,
     name_max = 0, file_max = 0, attr_max = 0\<rparr>"

definition format_commit :: "'s storage \<Rightarrow> commit result" where
  "format_commit S =
     rbind (commit_new (replicate (BLOCK_SIZE S) 0xFF) 1) (\<lambda>c.
     rbind (commit_tag c (Tag_new True Superblock 0 8) MAGIC) (\<lambda>c.
     rbind (commit_tag c (Tag_new True InlineStruct 0 (of_nat SUPERBLOCK_SIZE)) (superblock_to_bytes (format_superblock S))) (\<lambda>c.
     commit_finish_padded c 0 (PROG_SIZE S) (BLOCK_SIZE S))))"

definition validate_storage :: "'s storage \<Rightarrow> unit result" where
  "validate_storage S = geometry_validate (READ_SIZE S) (PROG_SIZE S) (BLOCK_SIZE S) (BLOCK_COUNT S)"

text \<open>The result is the scratch block.\<close>

definition format_fs :: "'s storage \<Rightarrow> byte list \<Rightarrow> ('s, byte list) io" where
  "format_fs S scratch =
     io_bind (io_lift (validate_storage S)) (\<lambda>_.
       if length scratch < BLOCK_SIZE S then io_fail GeometryMismatch
       else
         io_bind (io_lift (format_commit S)) (\<lambda>c.
           let new_end = bytes_written c; region = take new_end (cm_buf c)
           in io_bind (dev_erase S 0) (\<lambda>_.
              io_bind (dev_program S 0 0 region) (\<lambda>_. (\<lambda>st.
                case verify_programmed S (BlockAddress 0) 0 region st of
                  (st, region, ok) \<Rightarrow>
                    (if \<not> ok then io_fail Io
                     else io_bind (dev_erase S 1) (\<lambda>_. io_bind (dev_sync S) (\<lambda>_.
                            io_return (region @ drop new_end (cm_buf c) @ drop (BLOCK_SIZE S) scratch)))) st)))))"


section \<open>Recovery\<close>

text \<open>The live address of the source pair of an interrupted move: the recorded one when the tree
  still has it, else its relocated twin.\<close>

definition live_pair_of :: "'s storage \<Rightarrow> block_pair list \<Rightarrow> block_pair \<Rightarrow> bufs \<Rightarrow> ('s, block_pair \<times> bufs) io" where
  "live_pair_of S tree p bufs =
     (if contains_pair tree p then io_return (p, bufs)
      else io_bind (relocated_twin_in S tree p bufs) (\<lambda>(twin, bufs).
           io_return (case twin of Some t \<Rightarrow> t | None \<Rightarrow> p, bufs)))"

definition recover_pending_move :: "nat \<Rightarrow> 's storage \<Rightarrow> block_pair \<Rightarrow> u16 \<Rightarrow> bufs \<Rightarrow> ('s, bufs) run" where
  "recover_pending_move n S src_pair src_id bufs =
     obind (olift (with_root (\<lambda>root. on_storage (
        io_bind (collect_live_tree_pairs S root bufs) (\<lambda>(tree, bufs). live_pair_of S tree src_pair bufs))))) (\<lambda>(target, bufs).
     obind (count_entries S target bufs) (\<lambda>(bufs, cnt).
       if unat src_id \<ge> cnt then throw Corrupt
       else apply_op_to_pair_with_movestate n S target (OpRemove src_id) (Some (build_move_body src_pair src_id)) bufs))"

definition recover_pending_relocation :: "nat \<Rightarrow> 's storage \<Rightarrow> block_pair \<Rightarrow> block_pair \<Rightarrow> bufs \<Rightarrow> ('s, bufs) run" where
  "recover_pending_relocation n S old_pair new_pair bufs =
     apply_op_to_pair_inner n S old_pair OpNoop None (Some (build_relocate_body old_pair new_pair)) None inflight_NONE bufs"

text \<open>The sweep along the thread: \<open>tree\<close> are the live pairs, \<open>visited\<close> those already passed, \<open>steps\<close>
  the iterations made.\<close>

definition deorphan_steps :: nat where "deorphan_steps = 4 * MAX_QUEUED_PAIRS"

function deorphan_loop ::
  "nat \<Rightarrow> 's storage \<Rightarrow> block_pair list \<Rightarrow> block_pair \<Rightarrow> block_pair list \<Rightarrow> nat \<Rightarrow> bufs \<Rightarrow> ('s, bufs) run" where
  "deorphan_loop n S tree cur visited steps bufs =
     (if steps + 1 > deorphan_steps then ret bufs
      else
        obind (olift (on_storage (fetch_pair S cur bufs))) (\<lambda>(bufs, p).
          let cur_is_hard = is_hard_tail (mp_reader p)
          in case rd_tail (mp_reader p) of
               None \<Rightarrow> ret bufs
             | Some nxt \<Rightarrow>
                 if contains_pair tree nxt then
                   if contains_pair visited nxt then ret bufs
                   else deorphan_loop n S tree nxt (if length visited < MAX_QUEUED_PAIRS then visited @ [nxt] else visited)
                          (steps + 1) bufs
                 else
                   obind (olift (on_storage (relocated_twin_in S tree nxt bufs))) (\<lambda>(twin, bufs).
                   obind (case twin of
                            Some t \<Rightarrow> apply_op_to_pair_inner n S cur OpNoop None None (Some (t, cur_is_hard)) inflight_NONE bufs
                          | None \<Rightarrow> unthread_and_steal n S cur nxt bufs) (\<lambda>bufs.
                   obind drop_cache (\<lambda>_. deorphan_loop n S tree cur visited (steps + 1) bufs)))))"
  by pat_completeness auto

termination
  by (relation "measure (\<lambda>(n, S, tree, cur, visited, steps, bufs). deorphan_steps - steps)") auto

declare deorphan_loop.simps [simp del]

definition deorphan_sweep :: "nat \<Rightarrow> 's storage \<Rightarrow> bufs \<Rightarrow> ('s, bufs) run" where
  "deorphan_sweep n S bufs =
     owith_root (\<lambda>root.
       obind (olift (on_storage (collect_live_tree_pairs S root bufs))) (\<lambda>(tree, bufs).
         deorphan_loop n S tree root [root] 0 bufs))"


section \<open>Mounting\<close>

definition is_all_erased :: "byte list \<Rightarrow> bool" where
  "is_all_erased buf \<longleftrightarrow> list_all (\<lambda>b. b = 0xFF) buf"

text \<open>The superblock of the two root blocks, with every check a mount makes of it.\<close>

definition mount_superblock :: "'s storage \<Rightarrow> bufs \<Rightarrow> superblock result" where
  "mount_superblock S bufs =
     (if is_all_erased (fst bufs) \<and> is_all_erased (snd bufs) then Inl Unformatted
      else
        rbind (pair_parse (BlockAddress 0) (fst bufs) (BlockAddress 1) (snd bufs)) (\<lambda>pair.
        rbind (superblock_from_pair pair) (\<lambda>sb.
          if unat (sb_block_size sb) \<noteq> BLOCK_SIZE S then Inl GeometryMismatch
          else if sb_block_count sb \<noteq> BLOCK_COUNT S then Inl GeometryMismatch
          else Inr sb)))"

definition mount_recover :: "nat \<Rightarrow> 's storage \<Rightarrow> bufs \<Rightarrow> ('s, bufs) run" where
  "mount_recover n S bufs =
     obind (olift (with_root (\<lambda>root. on_storage (accumulate_gstate S root bufs)))) (\<lambda>(g, bufs).
     obind (case pending_move g of
              None \<Rightarrow> ret bufs
            | Some (src_pair, src_id) \<Rightarrow>
                if \<not> pair_in_bounds S src_pair then throw Corrupt else recover_pending_move n S src_pair src_id bufs) (\<lambda>bufs.
     obind (case pending_relocation g of
              None \<Rightarrow> ret bufs
            | Some (old_pair, new_pair) \<Rightarrow>
                if \<not> pair_in_bounds S old_pair \<or> \<not> pair_in_bounds S new_pair then throw Corrupt
                else recover_pending_relocation n S old_pair new_pair bufs) (\<lambda>bufs.
       deorphan_sweep n S bufs)))"

text \<open>On success the handle, which owns the device.\<close>

definition mount :: "nat \<Rightarrow> 's storage \<Rightarrow> bufs \<Rightarrow> 's \<Rightarrow> ('s \<times> ('s fs) result) option" where
  "mount n S bufs =
     obind (olift (
       io_bind (io_lift (validate_storage S)) (\<lambda>_.
         if \<not> bufs_ok S bufs then io_fail GeometryMismatch
         else
           io_bind (dev_read S 0 0 (fst bufs)) (\<lambda>buf_a.
           io_bind (dev_read S 1 0 (snd bufs)) (\<lambda>buf_b.
           io_bind (io_lift (mount_superblock S (buf_a, buf_b))) (\<lambda>sb. io_return (sb, (buf_a, buf_b)))))))) (\<lambda>(sb, bufs). (\<lambda>st.
       let fs = \<lparr>fs_storage = st, fs_superblock = sb, fs_root = ROOT_BLOCK_PAIR, used_cache = None, fs_pending_move = None\<rparr>
       in map_option (\<lambda>(fs', r). (fs_storage fs', rbind r (\<lambda>_. Inr fs'))) (mount_recover n S bufs fs)))"

definition fs_sync :: "'s storage \<Rightarrow> ('s fs, unit) io" where
  "fs_sync S = dev_sync_fs S"



section \<open>Mounting a settled device\<close>

text \<open>The root pair of a device with nothing to recover: no successor, no child, no gstate.\<close>

definition settled_root :: "metadata_pair \<Rightarrow> bool" where
  "settled_root pair \<longleftrightarrow> rd_tail (mp_reader pair) = None \<and>
     (\<exists>slots cnt. gather_live_slots pair = Inr (slots, cnt) \<and> (\<forall>src. slot_children src (take cnt slots) = [])) \<and>
     scan_pair_move_state pair = replicate MOVE_STATE_BODY_SIZE 0 \<and>
     scan_pair_relocate_state pair = replicate RELOCATE_STATE_BODY_SIZE 0"

lemma le_u32_at_zeros: "off + 4 \<le> n \<Longrightarrow> le_u32_at (replicate n 0) off = 0"
proof -
  assume "off + 4 \<le> n"
  then have "slice (replicate n 0) off 4 = to_le_bytes 0" by (simp add: slice_def numeral_eq_Suc to_le_bytes_def)
  then show ?thesis by (rule le_u32_at_to_le_bytes)
qed

lemma settled_refs:
  assumes "settled_root pair"
  shows "gstate_refs S p bufs pair queue = Inr queue" "tree_refs S p bufs pair queue = Inr queue" "fold_contribution g pair = g"
  using assms
  by (auto simp: settled_root_def gstate_refs_def tree_refs_def fold_contribution_def hard_next_def xor_body_def
      xor_relocate_body_def le_u32_at_zeros MOVE_STATE_BODY_SIZE_def RELOCATE_STATE_BODY_SIZE_def)

context reliable_flash
begin

lemma settled_walks:
  assumes "Inv st" "bufs_ok S bufs" "pair_in_bounds S p" "pair_at (img st) p = Inr pair" "settled_root pair"
  obtains st' bufs' where "accumulate_gstate S p bufs st = (st', Inr (gstate_ZERO, bufs'))" "Inv st'" "img st' = img st" "bufs_ok S bufs'"
    and "\<exists>st' bufs'. collect_live_tree_pairs S p bufs st = (st', Inr ([p], bufs')) \<and> Inv st' \<and> img st' = img st \<and> bufs_ok S bufs'"
proof -
  let ?b = "(img st (as_u32 (bp_a p)), img st (as_u32 (bp_b p)))"
  obtain s1 where s1: "fetch_pair S p bufs st = (s1, Inr (?b, pair))" "Inv s1" "img s1 = img st"
    by (rule fetch_ok [OF assms(1-4)])
  have b: "bufs_ok S ?b" using assms(1,3) img_length by (simp add: bufs_ok_def pair_in_bounds_def)
  have "accumulate_gstate S p bufs st = (s1, Inr (gstate_ZERO, ?b))"
    by (simp add: accumulate_gstate_def gstate_loop.simps [of _ _ 0] gstate_loop.simps [of _ _ "Suc 0"] io_bind_eq s1(1) settled_refs [OF assms(5)])
  moreover have "collect_live_tree_pairs S p bufs st = (s1, Inr ([p], ?b))"
    by (simp add: collect_live_tree_pairs_def tree_loop.simps [of _ _ 0] tree_loop.simps [of _ _ "Suc 0"] io_bind_eq s1(1) settled_refs [OF assms(5)])
  ultimately show thesis using that s1(2,3) b by blast
qed

lemma mount_recover_settled:
  assumes "Inv (fs_storage fs)" "bufs_ok S bufs" "pair_in_bounds S (fs_root fs)" "pair_at (img (fs_storage fs)) (fs_root fs) = Inr pair" "settled_root pair"
  obtains st' bufs' where "mount_recover n S bufs fs = Some (fs\<lparr>fs_storage := st'\<rparr>, Inr bufs')" "Inv st'" "img st' = img (fs_storage fs)"
proof -
  obtain s1 b1 where s1: "accumulate_gstate S (fs_root fs) bufs (fs_storage fs) = (s1, Inr (gstate_ZERO, b1))" "Inv s1"
      "img s1 = img (fs_storage fs)" "bufs_ok S b1"
    by (rule settled_walks [OF assms])
  have p1: "pair_at (img s1) (fs_root fs) = Inr pair" using assms(4) s1(3) by simp
  obtain s2 b2 where s2: "collect_live_tree_pairs S (fs_root fs) b1 s1 = (s2, Inr ([fs_root fs], b2))" "Inv s2" "img s2 = img s1" "bufs_ok S b2"
    by (rule settled_walks [OF s1(2,4) assms(3) p1 assms(5)]) blast
  have "pair_at (img s2) (fs_root fs) = Inr pair" using p1 s2(3) by simp
  then obtain s3 b3 where s3: "fetch_pair S (fs_root fs) b2 s2 = (s3, Inr (b3, pair))" "Inv s3" "img s3 = img s2"
    using fetch_ok [OF s2(2,4) assms(3)] by metis
  have pend: "pending_move gstate_ZERO = None" "pending_relocation gstate_ZERO = None"
    by (simp_all add: pending_move_def has_pending_move_def pending_relocation_def has_pending_relocation_def gstate_ZERO_def)
  have t: "rd_tail (mp_reader pair) = None" using assms(5) by (simp add: settled_root_def)
  have "mount_recover n S bufs fs = Some (fs\<lparr>fs_storage := s3\<rparr>, Inr b3)"
    using s1(1) s2(1) s3(1) t
    by (simp add: mount_recover_def obind_def olift_def with_root_def on_storage_def pend deorphan_sweep_def owith_root_def
        deorphan_loop.simps [of _ _ _ _ _ 0] deorphan_steps_def MAX_QUEUED_PAIRS_def Let_def)
  then show thesis using that s1(3) s2(3) s3(2,3) by simp
qed

lemma read_block:
  assumes "Inv st" "b < BLOCK_COUNT S" "length buf = BLOCK_SIZE S"
  obtains st' where "dev_read S b 0 buf st = (st', Inr (img st b))" "Inv st'" "img st' = img st"
proof -
  obtain st' where "dev_read S b (of_nat 0) buf st = (st', Inr (slice (img st b) 0 (length buf)))" "Inv st'" "img st' = img st"
    by (rule dev_read_grid [OF assms(1,2), of 0 buf]) (use assms(3) read_unit(2) in auto)
  then show thesis using that assms(3) img_length [OF assms(1,2)] by (simp add: slice_def)
qed

lemma valid_geometry: "validate_storage S = Inr ()" "128 \<le> BLOCK_SIZE S" "0 < BLOCK_COUNT S" "1 < BLOCK_COUNT S"
proof -
  show "validate_storage S = Inr ()" using geometry by (simp add: validate_storage_def geometry_validate_def)
  show "128 \<le> BLOCK_SIZE S" "0 < BLOCK_COUNT S" "1 < BLOCK_COUNT S"
    using geometry by (simp_all add: fault_for_None_iff BLOCK_SIZE_MIN_def BLOCK_COUNT_MIN_def word_less_nat_alt word_le_nat_alt)
qed

lemma mount_settled:
  assumes "Inv st" "bufs_ok S bufs" "mount_superblock S (img st 0, img st 1) = Inr sb"
    and "pair_at (img st) ROOT_BLOCK_PAIR = Inr pair" "settled_root pair"
  shows "\<exists>st'. mount n S bufs st = Some (st', Inr \<lparr>fs_storage = st', fs_superblock = sb, fs_root = ROOT_BLOCK_PAIR, used_cache = None,
    fs_pending_move = None\<rparr>) \<and> Inv st' \<and> img st' = img st"
proof -
  note g = valid_geometry
  have l: "length (fst bufs) = BLOCK_SIZE S" "length (snd bufs) = BLOCK_SIZE S" using assms(2) by (simp_all add: bufs_ok_def)
  obtain s1 where s1: "dev_read S 0 0 (fst bufs) st = (s1, Inr (img st 0))" "Inv s1" "img s1 = img st"
    by (rule read_block [OF assms(1) g(3) l(1)])
  obtain s2 where s2: "dev_read S 1 0 (snd bufs) s1 = (s2, Inr (img s1 1))" "Inv s2" "img s2 = img s1"
    by (rule read_block [OF s1(2) g(4) l(2)])
  let ?fs = "\<lparr>fs_storage = s2, fs_superblock = sb, fs_root = ROOT_BLOCK_PAIR, used_cache = None, fs_pending_move = None\<rparr>"
  have b: "bufs_ok S (img st 0, img st 1)" using img_length [OF assms(1) g(3)] img_length [OF assms(1) g(4)] by (simp add: bufs_ok_def)
  have r: "pair_in_bounds S ROOT_BLOCK_PAIR" using g(3,4) by (simp add: pair_in_bounds_def ROOT_BLOCK_PAIR_def)
  obtain s3 b3 where s3: "mount_recover n S (img st 0, img st 1) ?fs = Some (?fs\<lparr>fs_storage := s3\<rparr>, Inr b3)" "Inv s3" "img s3 = img (fs_storage ?fs)"
    by (rule mount_recover_settled [of ?fs, OF _ b _ _ assms(5)]) (use s2 s1(3) r assms(4) in auto)
  have "mount n S bufs st = Some (s3, Inr (?fs\<lparr>fs_storage := s3\<rparr>))"
    using s1(1,3) s2(1) s3(1) assms(2,3) g(1)
    by (simp add: mount_def obind_def olift_def io_bind_eq Let_def)
  then show ?thesis using s3(2,3) s2(3) s1(3) by simp
qed

end


section \<open>The formatted device\<close>

lemma erased_block_empty:
  assumes "8 \<le> n"
  obtains e where "reader_new (replicate n 0xFF) = Inr e" "\<not> has_commits e"
proof -
  let ?b = "replicate n (0xFF :: byte)"
  have w: "be_u32_at ?b i = 0xFFFFFFFF" if "i + 4 \<le> n" for i by (rule be_u32_at_erased) (use that in simp_all)
  have z: "is_valid 0" "\<not> is_ccrc 0" "dsize 0 = 4" "body_len 0 = 0" "\<not> is_valid 0xFFFFFFFF" by code_simp+
  let ?s = "scan_init ?b"
  obtain s1 where s1: "scan_step ?b ?s = Some s1" "sc_ptag s1 = 0" "sc_off s1 = 4" "sc_end s1 = 0"
    using assms w [of 4] by (simp add: scan_step_def scan_init_def z)
  have "scan_step ?b s1 = None" using w [of 8] s1(2,3) z by (simp add: scan_step_def Let_def)
  then have "sc_end (scan_loop ?b ?s) = 0" using s1(1,4) by (simp add: scan_loop.simps)
  moreover obtain t h where "scan_for_tail ?b 0 = (t, h)" by fastforce
  ultimately show thesis using that assms by (simp add: reader_new_def has_commits_def Let_def)
qed

text \<open>Where the bodies of the first entries lie.\<close>

lemma tags_at_next:
  assumes "tags_at it = (e, off) # xs"
  obtains it' where "xs = tags_at it'" "off = ti_offset it + dsize (ti_ptag it) + 4" "ti_offset it' + 4 = off"
    "\<not> is_ccrc (te_tag e) \<longrightarrow> ti_ptag it' = te_tag e"
proof (cases "tag_iter_next it")
  case None
  then show thesis using assms by (subst (asm) tags_at.simps) simp
next
  case (Some q)
  obtain e' it' where q: "q = (e', it')" by (cases q)
  then have "e' = e" "off = ti_offset it' + 4" "xs = tags_at it'" using assms Some by (subst (asm) tags_at.simps; simp)+
  then show thesis using that Some q
    by (auto simp: tag_iter_next_def Let_def is_ccrc_iff_chunk split: if_splits option.splits)
qed

lemma root_pair_settled:
  assumes "reader_new b = Inr (mp_reader pair)" "iter_tags (mp_reader pair) = root_tags sb @ fs" "crc_entries fs"
  shows "settled_root pair"
proof -
  let ?r = "mp_reader pair"
  have ty: "tag_type (te_tag e) \<notin> {HardTail, SoftTail, MoveState, RelocateState}" if "e \<in> set (iter_tags ?r)" for e
    using that assms(2) crc_types [OF assms(3)] by (auto simp: root_tags_def root_tag_types)
  have "filter is_tail_entry (iter_tags ?r) = []" using ty by (auto simp: filter_empty_conv is_tail_entry_def)
  then have t: "rd_tail ?r = None" using reader_facts(2) [OF assms(1)] by (simp add: tail_of_def)
  have nb: "newest_body ty n (iter_tags_rev ?r) = replicate n 0" if "ty = MoveState \<or> ty = RelocateState" for ty n
    using newest_body_skip [of "rev (iter_tags ?r)" ty n "[]"] ty reader_facts(1) [OF assms(1)] that by auto
  have "map fst (tags_at (reader_iter ?r)) = root_tags sb @ fs" using assms(2) tags_at_from [of "reader_iter ?r"] by (simp add: iter_tags_def)
  then obtain o1 o2 xs where x: "tags_at (reader_iter ?r) = (root_tags sb ! 0, o1) # (root_tags sb ! 1, o2) # xs" "map fst xs = fs"
    by (auto simp: root_tags_def map_eq_Cons_conv)
  obtain it1 where i1: "(root_tags sb ! 1, o2) # xs = tags_at it1" "o1 = ti_offset (reader_iter ?r) + dsize (ti_ptag (reader_iter ?r)) + 4"
      "ti_offset it1 + 4 = o1" "\<not> is_ccrc (te_tag (root_tags sb ! 0)) \<longrightarrow> ti_ptag it1 = te_tag (root_tags sb ! 0)"
    using x(1) by (rule tags_at_next)
  have o1: "o1 = 8" using i1(2) by (simp add: reader_iter_def)
  have p1: "ti_ptag it1 = Tag_new True Superblock 0 8" using i1(4) by (simp add: root_tags_def is_ccrc_def root_tag_types)
  have o2: "o2 = 20"
    using i1(1) [symmetric] by (rule tags_at_next) (use p1 o1 i1(3) in \<open>simp add: root_tag_types\<close>)
  have "gather_slots xs slots cnt = Inr (slots, cnt)" for slots cnt by (rule crc_gather_slots) (use x(2) assms(3) in simp)
  then have g: "gather_live_slots pair = Inr ((replicate MAX_LIVE_ENTRIES slot_EMPTY)[0 := slot_EMPTY\<lparr>name_off := 8, name_len := 8, name_kind := 2,
      struct_off := 20, struct_len := 24, struct_kind := 0\<rparr>], 1)"
    using superblock_roundtrip(1) [of sb]
    by (simp add: gather_live_slots_def x(1) root_tags_def splice_step_cases is_name_tag_def is_struct_type_def root_tag_types o1 o2
        u16_try_def MAGIC_def SUPERBLOCK_SIZE_def name_kind_of_def struct_kind_of_def MAX_LIVE_ENTRIES_def Let_def)
  have "slot_children src (take 1 ((replicate MAX_LIVE_ENTRIES slot_EMPTY)[0 := slot_EMPTY\<lparr>name_off := 8, name_len := 8, name_kind := 2,
      struct_off := 20, struct_len := 24, struct_kind := 0\<rparr>])) = []" for src
    by (simp add: MAX_LIVE_ENTRIES_def slot_children_def slot_child_def map_filter_simps take_Suc_conv_app_nth)
  then show ?thesis using t nb g by (auto simp: settled_root_def scan_pair_move_state_def scan_pair_relocate_state_def)
qed

text \<open>The commit a format stages.\<close>

lemma format_commit_ok:
  assumes "128 \<le> BLOCK_SIZE S" "PROG_SIZE S dvd BLOCK_SIZE S" "0 < PROG_SIZE S" "PROG_SIZE S \<le> 1018"
  obtains c r fs where "format_commit S = Inr c" "bytes_written c \<le> BLOCK_SIZE S" "PROG_SIZE S dvd bytes_written c"
    "length (cm_buf c) = BLOCK_SIZE S" "drop (bytes_written c) (cm_buf c) = replicate (BLOCK_SIZE S - bytes_written c) 0xFF"
    "reader_new (cm_buf c) = Inr r" "iter_tags r = root_tags (format_superblock S) @ fs" "crc_entries fs" "has_commits r"
proof -
  let ?sb = "format_superblock S" and ?B = "BLOCK_SIZE S" and ?p = "PROG_SIZE S"
  obtain c0 where c0: "commit_new (replicate ?B 0xFF) 1 = Inr c0" "cm_offset c0 = 4" "length (cm_buf c0) = ?B"
    using assms(1) by (simp add: commit_new_def Let_def)
  obtain d where d: "commit_tag c0 (Tag_new True Superblock 0 8) MAGIC = Inr d" "cm_offset d = 16" "length (cm_buf d) = ?B"
    using commit_tag_ok [of "Tag_new True Superblock 0 8" MAGIC c0] c0 body_len_Tag_new [of 8] assms(1)
    by (auto simp: dsize_def is_ccrc_def MAGIC_def)
  obtain c1 where c1: "commit_tag d (Tag_new True InlineStruct 0 24) (superblock_to_bytes ?sb) = Inr c1"
      "cm_offset c1 = 44" "length (cm_buf c1) = ?B"
    using commit_tag_ok [of "Tag_new True InlineStruct 0 24" "superblock_to_bytes ?sb" d] d
      body_len_Tag_new [of 24] superblock_roundtrip(1) [of ?sb] assms(1)
    by (auto simp: dsize_def is_ccrc_def SUPERBLOCK_SIZE_def)
  have tags: "commit_tags c0 (root_tags ?sb) = Inr c1" using d(1) c1(1) by (simp add: root_tags_def)
  have ve: "valid_entries (root_tags ?sb)" by (simp add: root_tags_def)
  have ch: "(0 :: byte) AND 0x80 = 0" by simp
  let ?fin = "div_ceil (min (cm_offset c1 + 20) ?B) ?p * ?p"
  have m: "min (cm_offset c1 + 20) ?B = 64" using c1(2) assms(1) by simp
  have f1: "64 \<le> ?fin" unfolding m by (rule div_ceil_ge [OF assms(3)])
  have f3: "?fin \<le> ?B"
    using next_multiple_of_le [OF assms(3,2), of 64] assms(1) unfolding m by (simp add: next_multiple_of_def div_ceil_def)
  have f4: "?fin \<le> 1018"
  proof (cases "64 \<le> ?p")
    case True
    then have "(64 + ?p - 1) div ?p = 1" by (intro div_nat_eqI) simp_all
    then show ?thesis using assms(4) unfolding m by (simp add: div_ceil_def)
  next
    case False
    have "?fin \<le> 64 + ?p - 1" unfolding m div_ceil_def by (rule div_times_less_eq_dividend)
    then show ?thesis using False by simp
  qed
  have "\<exists>c'. commit_finish_padded c1 0 ?p ?B = Inr c' \<and> cm_offset c' = ?fin \<and> length (cm_buf c') = length (cm_buf c1)"
    by (rule commit_finish_padded_ok [OF refl assms(3) f3]) (use f1 f4 c1(2,3) in auto)
  then obtain c2 where c2: "commit_finish_padded c1 0 ?p ?B = Inr c2" "cm_offset c2 = ?fin" "length (cm_buf c2) = length (cm_buf c1)"
    by (elim exE conjE)
  note c2 = c2(1,2) c2(3) [unfolded c1(3)]
  obtain r fs where r: "reader_new (cm_buf c2) = Inr r" "iter_tags r = root_tags ?sb @ fs" "crc_entries fs" "committed_end r = cm_offset c2"
    using fresh_commit_reader [OF c0(1) tags c2(1) ve ch] by blast
  have "erased_from (cm_buf c2) (cm_offset c2)" by (rule fresh_commit_erased [OF c0(1) tags c2(1) ve ch])
  moreover have "format_commit S = Inr c2"
    using c0(1) d(1) c1(1) c2(1) by (simp add: format_commit_def SUPERBLOCK_SIZE_def)
  moreover have "0 < cm_offset c2" using f1 unfolding c2(2) by (rule less_le_trans [rotated]) simp
  moreover have "cm_offset c2 \<le> ?B" "?p dvd cm_offset c2" using f3 unfolding c2(2) by simp_all
  ultimately show thesis
    using that [of c2 r fs] c2(3) r by (simp add: bytes_written_def has_commits_def)
qed

context reliable_flash
begin

lemma format_then_mount:
  assumes "Inv st" "bufs_ok S bufs" "BLOCK_SIZE S \<le> length scratch" "PROG_SIZE S \<le> 1018"
  shows "\<exists>st1 scratch' st2. format_fs S scratch st = (st1, Inr scratch') \<and> length scratch' = length scratch \<and>
    (\<forall>b. b \<noteq> 0 \<longrightarrow> b \<noteq> 1 \<longrightarrow> img st1 b = img st b) \<and>
    mount n S bufs st1 = Some (st2, Inr \<lparr>fs_storage = st2, fs_superblock = format_superblock S, fs_root = ROOT_BLOCK_PAIR,
      used_cache = None, fs_pending_move = None\<rparr>) \<and> Inv st2 \<and> img st2 = img st1"
proof -
  note g = valid_geometry
  let ?B = "BLOCK_SIZE S" and ?sb = "format_superblock S"
  obtain c r fs where c: "format_commit S = Inr c" "bytes_written c \<le> ?B" "PROG_SIZE S dvd bytes_written c"
    "length (cm_buf c) = ?B" "drop (bytes_written c) (cm_buf c) = replicate (?B - bytes_written c) 0xFF"
    and r: "reader_new (cm_buf c) = Inr r" "iter_tags r = root_tags ?sb @ fs" "crc_entries fs" "has_commits r"
    by (rule format_commit_ok [OF g(2) units(3,1) assms(4)])
  let ?k = "bytes_written c" and ?d = "take (bytes_written c) (cm_buf c)"
  have dl: "length ?d = ?k" using c(2,4) by simp
  obtain s1 where s1: "st_erase S st 0 = (s1, True)" "Inv s1" "img s1 = (img st)(0 := replicate ?B 0xFF)"
    by (rule erase_image [OF assms(1) g(3)])
  obtain s2 where "st_program S s1 0 (of_nat 0) ?d = (s2, True)" "Inv s2" "img s2 = (img s1)(0 := splice (img s1 0) 0 ?d)"
    by (rule program_ok [OF s1(2) g(3), of 0 ?d]) (use c(2-4) s1(3) in \<open>simp_all add: slice_def\<close>)
  moreover have "splice (replicate ?B 0xFF) 0 ?d = cm_buf c"
    using c(2,4,5) by (metis append_take_drop_id append_Nil dl add_0 drop_replicate splice_def take0)
  ultimately have s2: "st_program S s1 0 0 ?d = (s2, True)" "Inv s2" "img s2 = (img st)(0 := cm_buf c)" using s1(3) by simp_all
  have z: "as_u32 (BlockAddress 0) = 0" by simp
  obtain s3 where s3: "verify_programmed S (BlockAddress 0) 0 ?d s2 = (s3, ?d, True)" "Inv s3" "img s3 = img s2"
    by (rule verify_ok [OF s2(2), of "BlockAddress 0" 0 ?d]) (use c(2-4) g(3) s2(3) in \<open>simp_all add: slice_def\<close>)
  obtain s4 where s4: "st_erase S s3 1 = (s4, True)" "Inv s4" "img s4 = (img s3)(1 := replicate ?B 0xFF)"
    by (rule erase_image [OF s3(2) g(4)])
  obtain s5 where s5: "st_sync S s4 = (s5, True)" "Inv s5" "img s5 = img s4" by (rule sync_image [OF s4(2)])
  let ?out = "?d @ drop ?k (cm_buf c) @ drop ?B scratch"
  have fmt: "format_fs S scratch st = (s5, Inr ?out)"
    using assms(3) g(1) c(1) s1(1) s2(1) s3(1) s4(1) s5(1)
    by (simp add: format_fs_def io_bind_eq dev_erase_def dev_program_def dev_sync_def Let_def)
  have im: "img s5 0 = cm_buf c" "img s5 1 = replicate ?B 0xFF" "\<forall>b. b \<noteq> 0 \<longrightarrow> b \<noteq> 1 \<longrightarrow> img s5 b = img st b"
    using s5(3) s4(3) s3(3) s2(3) by simp_all
  have "8 \<le> ?B" using g(2) by simp
  then obtain e where e: "reader_new (replicate ?B 0xFF) = Inr e" "\<not> has_commits e" by (rule erased_block_empty)
  let ?pair = "\<lparr>active_block = BlockAddress 0, alternate_block = BlockAddress 1, mp_reader = r, alternate_valid = False\<rparr>"
  have pp: "pair_parse (BlockAddress 0) (cm_buf c) (BlockAddress 1) (replicate ?B 0xFF) = Inr ?pair"
    using r(1,4) e by (simp add: pair_parse_def Let_def)
  have v: "major_version ?sb = 2" "minor_version ?sb \<le> 1"
    unfolding major_version_def minor_version_def format_superblock_def DISK_VERSION_def by code_simp+
  have sb: "superblock_from_pair ?pair = Inr ?sb" by (rule root_pair_superblock [OF _ r(3) v]) (use r(2) in simp)
  have "\<not> is_all_erased (cm_buf c)"
  proof
    assume "is_all_erased (cm_buf c)"
    then have "cm_buf c = replicate ?B 0xFF" using c(4) by (simp add: is_all_erased_def list_all_iff replicate_eqI)
    then show False using e r(1,4) by simp
  qed
  then have msb: "mount_superblock S (img s5 0, img s5 1) = Inr ?sb"
    using pp sb units(4) by (simp add: mount_superblock_def im format_superblock_def unat_of_nat)
  have pa: "pair_at (img s5) ROOT_BLOCK_PAIR = Inr ?pair" using pp im by (simp add: pair_at_def ROOT_BLOCK_PAIR_def)
  have "settled_root ?pair" by (rule root_pair_settled [of "cm_buf c"]) (use r in simp_all)
  from mount_settled [OF s5(2) assms(2) msb pa this] obtain s6 where
    "mount n S bufs s5 = Some (s6, Inr \<lparr>fs_storage = s6, fs_superblock = ?sb, fs_root = ROOT_BLOCK_PAIR, used_cache = None,
      fs_pending_move = None\<rparr>)" "Inv s6" "img s6 = img s5" by blast
  moreover have "length ?out = length scratch" using c(2,4) assms(3) by simp
  ultimately show ?thesis using fmt im(3) by blast
qed

end


section \<open>Properties\<close>

text \<open>C3. A formatted device mounts: on a device none of whose legal calls fails, formatting succeeds,
  writes the two root blocks only, and mounting the result returns a handle with the superblock the
  format wrote, having found nothing to recover and changed no block.\<close>

theorem formatted_device_mounts:
  assumes "reliable_flash S Inv img" and "Inv st" and "bufs_ok S bufs" and "BLOCK_SIZE S \<le> length scratch" and "PROG_SIZE S \<le> 1018"
  shows "\<exists>st1 scratch' st2. format_fs S scratch st = (st1, Inr scratch') \<and> length scratch' = length scratch \<and>
    (\<forall>b. b \<noteq> 0 \<longrightarrow> b \<noteq> 1 \<longrightarrow> img st1 b = img st b) \<and>
    mount n S bufs st1 = Some (st2, Inr \<lparr>fs_storage = st2, fs_superblock = format_superblock S, fs_root = ROOT_BLOCK_PAIR,
      used_cache = None, fs_pending_move = None\<rparr>) \<and> Inv st2 \<and> img st2 = img st1"
  by (rule reliable_flash.format_then_mount [OF assms])

theorem formatted_device_mounts_witness:
  "\<exists>st1 scratch' st2. format_fs dev256 (replicate 256 0) (mem_new 256 8) = (st1, Inr scratch') \<and>
    mount 0 dev256 bufs256 st1 = Some (st2, Inr \<lparr>fs_storage = st2, fs_superblock = format_superblock dev256, fs_root = ROOT_BLOCK_PAIR,
      used_cache = None, fs_pending_move = None\<rparr>)"
  using formatted_device_mounts [OF rel256.reliable_flash_axioms mem_inv_new dev256_facts(1), of "replicate 256 0" 0] by auto

end
