(* ===== verification/Queries.thy ===== *)
theory Queries
  imports Files
begin

text \<open>
  What the operations that only look do: every query of \<open>fs.rs\<close> and a read only \<open>open\<close> return on any
  device contents, call nothing but reads the storage contract allows, and leave the handle as it was.

  The queries are one datatype, so that the property is one statement over all of them; the rules of
  \<open>quiet\<close> follow the combinators the operations are built from.
\<close>

section \<open>The queries\<close>

datatype query =
    ReadAt "byte list" u32 "byte list"
  | SizeOf "byte list"
  | TailRoom "byte list"
  | ExistsPath "byte list"
  | GetAttr "byte list" byte "byte list"
  | ListRoot
  | ListDir "byte list"
  | OpenReadOnly "byte list"

definition forget :: "('s, 'a) run \<Rightarrow> ('s, unit) run" where
  "forget m = obind m (\<lambda>_. ret ())"

definition read_only :: open_options where
  "read_only = set_read True options_new"

fun run_query :: "'s storage \<Rightarrow> query \<Rightarrow> bufs \<Rightarrow> ('s, unit) run" where
  "run_query S (ReadAt path off out) bufs = forget (read_at_path S path off out bufs)"
| "run_query S (SizeOf path) bufs = forget (size_of S path bufs)"
| "run_query S (TailRoom path) bufs = forget (tail_room S path bufs)"
| "run_query S (ExistsPath path) bufs = forget (exists_path S path bufs)"
| "run_query S (GetAttr path i out) bufs = forget (get_attr S path i out bufs)"
| "run_query S ListRoot bufs = forget (list_root S (\<lambda>e es. es @ [e]) bufs [])"
| "run_query S (ListDir path) bufs = forget (list_dir S path (\<lambda>e es. es @ [e]) bufs [])"
| "run_query S (OpenReadOnly path) bufs = forget (open_file 0 S path read_only bufs)"

fun query_out :: "query \<Rightarrow> nat" where
  "query_out (ReadAt path off out) = length out"
| "query_out _ = 0"


section \<open>Computations that change nothing\<close>

definition quiet :: "('s \<Rightarrow> bool) \<Rightarrow> ('s \<Rightarrow> u32 \<Rightarrow> byte list) \<Rightarrow> ('a \<Rightarrow> bool) \<Rightarrow> ('s, 'a) run \<Rightarrow> bool" where
  "quiet I im P m \<longleftrightarrow> (\<forall>fs. I (fs_storage fs) \<longrightarrow>
     (\<exists>st r. m fs = Some (fs\<lparr>fs_storage := st\<rparr>, r) \<and> I st \<and> im st = im (fs_storage fs) \<and> (\<forall>x. r = Inr x \<longrightarrow> P x)))"

named_theorems quiet_rules

lemma quietE:
  assumes "quiet I im P m" "I (fs_storage fs)"
  obtains st r where "m fs = Some (fs\<lparr>fs_storage := st\<rparr>, r)" "I st" "im st = im (fs_storage fs)" "\<forall>x. r = Inr x \<longrightarrow> P x"
  using assms unfolding quiet_def by blast

lemma quiet_ret [quiet_rules]: "P x \<Longrightarrow> quiet I im P (ret x)"
  by (auto simp: quiet_def olift_def io_return_def intro!: exI [of _ "fs_storage _"])

lemma quiet_throw [quiet_rules]: "quiet I im P (throw e)"
  by (auto simp: quiet_def olift_def io_fail_def intro!: exI [of _ "fs_storage _"])

lemma quiet_lift [quiet_rules]: "(\<And>x. r = Inr x \<Longrightarrow> P x) \<Longrightarrow> quiet I im P (olift (io_lift r))"
  by (auto simp: quiet_def olift_def io_lift_def intro!: exI [of _ "fs_storage _"])

lemma quiet_bind:
  fixes m :: "('s, 'a) run" and f :: "'a \<Rightarrow> ('s, 'b) run"
  assumes "quiet I im P m" "\<And>x. P x \<Longrightarrow> quiet I im Q (f x)"
  shows "quiet I im Q (obind m f)"
  unfolding quiet_def
proof (intro allI impI)
  fix fs :: "'s fs" assume I: "I (fs_storage fs)"
  obtain st r where m: "m fs = Some (fs\<lparr>fs_storage := st\<rparr>, r)" "I st" "im st = im (fs_storage fs)" "\<forall>x. r = Inr x \<longrightarrow> P x"
    by (rule quietE [OF assms(1) I])
  show "\<exists>st r. obind m f fs = Some (fs\<lparr>fs_storage := st\<rparr>, r) \<and> I st \<and> im st = im (fs_storage fs) \<and> (\<forall>x. r = Inr x \<longrightarrow> Q x)"
  proof (cases r)
    case (Inl e)
    then show ?thesis using m by (auto simp: obind_def intro!: exI [of _ st])
  next
    case (Inr x)
    then have "quiet I im Q (f x)" using assms(2) m(4) by simp
    moreover have "I (fs_storage (fs\<lparr>fs_storage := st\<rparr>))" using m(2) by simp
    ultimately obtain st2 r2 where "f x (fs\<lparr>fs_storage := st\<rparr>) = Some (fs\<lparr>fs_storage := st2\<rparr>, r2)" "I st2" "im st2 = im st" "\<forall>x. r2 = Inr x \<longrightarrow> Q x"
      by (rule quietE) simp
    then show ?thesis using m(1,3) Inr by (auto simp: obind_def intro!: exI [of _ st2])
  qed
qed

lemma obind_ret [simp]: "obind (ret x) f = f x" and obind_throw [simp]: "obind (throw e) f = throw e"
  by (simp_all add: obind_def olift_def fun_eq_iff)

lemma quiet_root [quiet_rules]: "(\<And>root. quiet I im P (m root)) \<Longrightarrow> quiet I im P (owith_root m)"
  by (simp add: quiet_def owith_root_def)

lemma quiet_if [quiet_rules]: "(b \<Longrightarrow> quiet I im P m) \<Longrightarrow> (\<not> b \<Longrightarrow> quiet I im P m') \<Longrightarrow> quiet I im P (if b then m else m')"
  by simp

lemma quiet_forget: "quiet I im P m \<Longrightarrow> quiet I im (\<lambda>_. True) (forget m)"
  unfolding forget_def by (erule quiet_bind) (rule quiet_ret, rule TrueI)

lemma quiet_walk:
  "(\<And>st. I st \<Longrightarrow> \<exists>st' r. m st = Some (st', r) \<and> I st' \<and> im st' = im st \<and> (\<forall>x. r = Inr x \<longrightarrow> P x)) \<Longrightarrow> quiet I im P (on_walk m)"
  by (fastforce simp: quiet_def on_walk_def)

lemma quiet_storage:
  "(\<And>st. I st \<Longrightarrow> I (fst (m st)) \<and> im (fst (m st)) = im st \<and> (\<forall>x. snd (m st) = Inr x \<longrightarrow> P x)) \<Longrightarrow> quiet I im P (olift (on_storage m))"
  by (auto simp: quiet_def olift_def on_storage_def split: prod.splits) (metis fst_conv snd_conv)+

lemma quiet_parse [quiet_rules]: "quiet I im (\<lambda>_. True) (parse_held p bufs)"
  unfolding parse_held_def by (rule quiet_lift) simp

lemma quiet_lookup [quiet_rules]: "quiet I im (\<lambda>_. True) (lookup_held p nm bufs)"
  unfolding lookup_held_def by (intro quiet_bind [where P = "\<lambda>_. True"] quiet_rules TrueI)

context walkable_flash
begin

lemma seek_quiet: "bufs_ok S bufs \<Longrightarrow> quiet Inv img (\<lambda>x. bufs_ok S (fst x)) (seek_entry S p nm bufs)"
  unfolding seek_entry_in_chain_def
  by (rule quiet_walk) (use seek.chase_outcome in blast)

lemma parent_quiet: "quiet Inv img (\<lambda>x. bufs_ok S (fst x)) (parent_of S path bufs)"
  unfolding parent_of_def resolve_parent_def
  by (intro quiet_rules quiet_walk) (use descend_outcome in \<open>auto simp: olift_def\<close>)

lemma resolve_quiet: "quiet Inv img (\<lambda>x. bufs_ok S (fst x)) (resolve_in S path bufs)"
  unfolding resolve_in_def by (intro quiet_rules quiet_walk resolve_outcome)

lemma list_quiet:
  assumes "bufs_ok S bufs"
  shows "quiet Inv img (\<lambda>_. True) (list_chain_fs S f start bufs c)"
  unfolding list_chain_fs_def
proof (rule quiet_walk)
  fix st assume "Inv st"
  then have I: "case (st, c, 0 :: nat) of (s, _, _) \<Rightarrow> Inv s \<and> img s = img st" by simp
  from lister.chase_outcome [OF I assms, of f start]
  show "\<exists>st' r. map_option (\<lambda>((st', c'), r). (st', rbind r (\<lambda>k. Inr (k, c')))) (list_pair_chain S f start bufs (st, c)) = Some (st', r) \<and>
      Inv st' \<and> img st' = img st \<and> (\<forall>x. r = Inr x \<longrightarrow> True)"
    by (auto simp: list_pair_chain_def)
qed

text \<open>Reading a file whose metadata may be anything: a pointer off the device is found before it is used.\<close>

lemma read_ctz_quiet:
  assumes "Inv st" "128 \<le> BLOCK_SIZE S" "chain_start (BLOCK_SIZE S) MAX_CTZ_BLOCKS < 2 ^ 32" "length out < 2 ^ 32"
  shows "yields st (\<lambda>_. True) (read_ctz_at S c start out scratch st)"
proof (cases "length scratch < BLOCK_SIZE S \<or> ctz_size c = 0 \<or> out = [] \<or> start \<ge> ctz_size c \<or>
    unat (block_count (ctz_size c) (of_nat (BLOCK_SIZE S))) > MAX_CTZ_BLOCKS")
  case True
  then show ?thesis using assms(1) by (auto simp: read_ctz_at_def Let_def yields_def)
next
  case False
  let ?B = "BLOCK_SIZE S" and ?s = "unat start" and ?sz = "unat (ctz_size c)" and ?out = "replicate MAX_CTZ_BLOCKS block_NONE"
  define N where "N = unat (block_count (ctz_size c) (of_nat ?B))"
  have ss: "?s < ?sz" using False by (simp add: word_le_nat_alt)
  have cov: "0 < N" "?sz \<le> chain_start ?B N"
    using chain_count [OF assms(2) read_unit(3), of ?sz N] ss unat_u32_less [of "ctz_size c"] by (simp_all add: N_def)
  have N: "N \<le> MAX_CTZ_BLOCKS" using False by (simp add: N_def)
  define fin where "fin = min (ctz_size c) (saturating_add start (of_nat (length out)))"
  have ufin: "?s \<le> unat fin" "unat fin \<le> ?sz" "unat fin \<le> ?s + length out"
    using assms(4) ss Suc_leI [OF unat_u32_less [of start]] Suc_leI [OF unat_u32_less [of "ctz_size c"]]
    by (auto simp: fin_def saturating_add_def min_def word_le_nat_alt unat_small_of_nat unat_word_ariths)
  have tgt: "unat (fin - start) = unat fin - ?s" using unat_diff_of_nat [of ?s fin] ufin(1) by (simp add: of_nat_unat)
  have nz: "block_count (ctz_size c) (of_nat ?B) \<noteq> 0" using cov(1) by (auto simp: N_def)
  have rs: "READ_SIZE S \<le> length scratch" using False dvd_imp_le [OF read_unit(2)] assms(2) by simp
  have collect: "yields st (windowed (length scratch) (collect_spec (img st) (BLOCK_COUNT S) (head_block c) (N - 1) ?out))
     (collect_chain_blocks_buffered S (head_block c) (block_count (ctz_size c) (of_nat ?B)) ?out scratch st)"
    using collect_buffered_refines [OF _ assms(1) rs nz, of ?out "head_block c"] assms(2) N by (simp add: MAX_CTZ_BLOCKS_def N_def)
  have rd: "yields st' (\<lambda>_. True) (read_blocks S bl start (unat (fin - start)) [0..<N] 0 0 out w st')"
    if i: "Inv st'" "img st' = img st" "collect_spec (img st) (BLOCK_COUNT S) (head_block c) (N - 1) ?out = Inr bl" "length w = length scratch"
    for st' bl w
  proof -
    have on: "as_u32 (bl ! j) < BLOCK_COUNT S" if "j < N" for j
      using collect_spec_safe [OF i(3)] that N cov(1) by auto
    have "yields st' (\<lambda>r. \<exists>out' w'. r = Inr (unat (fin - start), out', w') \<and>
        out' = slice (ctz_bytes (img st) bl N) ?s (unat (fin - start)) @ drop (unat (fin - start)) out)
      (read_blocks S bl start (unat (fin - start)) [0..<N] 0 (of_nat (chain_start ?B 0)) out w st')"
    proof (rule read_blocks_correct [OF assms(2) _ _ on _ _ i(1,2)])
      show "N < 2 ^ 26" using N by (simp add: MAX_CTZ_BLOCKS_def)
      show "chain_start ?B N < 2 ^ 32" using chain_start_mono [OF N, of ?B] assms(3) by simp
      show "?s + unat (fin - start) \<le> chain_start ?B N" "unat (fin - start) \<le> length out" using ufin cov(2) tgt by simp_all
      show "READ_SIZE S \<le> length w" using rs i(4) by simp
    qed (simp_all add: chain_start_def)
    then show ?thesis by (auto simp: chain_start_def elim: yields_mono)
  qed
  show ?thesis
    unfolding read_ctz_at_def Let_def fin_def [symmetric] N_def [symmetric]
    using False assms(1,2) N
    by (auto simp: BLOCK_SIZE_MIN_def N_def [symmetric] simp del: upt_Suc windowed_simps
        intro!: yields_bind [where m = "collect_chain_blocks_buffered _ _ _ _ _", OF collect])
      (use rd collect_spec_safe in \<open>auto simp: windowed_def split: sum.splits\<close>)
qed

section \<open>The queries are quiet\<close>

lemma locate_quiet: "quiet Inv img (\<lambda>x. bufs_ok S (fst x)) (locate S path bufs)"
  unfolding locate_def
  by (intro quiet_bind [OF parent_quiet] quiet_bind [OF seek_quiet])
     (auto intro!: quiet_rules quiet_bind [OF seek_quiet] split: prod.splits chain_seek.splits)

lemma read_at_quiet:
  assumes "128 \<le> BLOCK_SIZE S" "chain_start (BLOCK_SIZE S) MAX_CTZ_BLOCKS < 2 ^ 32" "length out < 2 ^ 32"
  shows "quiet Inv img (\<lambda>_. True) (read_at_path S path off out bufs)"
proof -
  have rd: "quiet Inv img (\<lambda>_. True) (olift (on_storage (read_ctz_at S c off out b)))" for c b
    using read_ctz_quiet [OF _ assms] by (intro quiet_storage) (simp add: yields_def)
  show ?thesis
    unfolding read_at_path_def
    by (intro quiet_if quiet_rules quiet_bind [OF resolve_quiet])
       (auto intro!: quiet_rules quiet_bind [where P = "\<lambda>_. True"] rd simp: Let_def split: prod.splits file_layout.splits)
qed

lemma size_quiet: "quiet Inv img (\<lambda>_. True) (size_of S path bufs)" "quiet Inv img (\<lambda>_. True) (tail_room S path bufs)"
  unfolding size_of_def tail_room_def
  by (intro quiet_bind [OF resolve_quiet];
      auto intro!: quiet_rules quiet_bind [where P = "\<lambda>_. True"] simp: Let_def split: prod.splits tag_type.splits)+

lemma exists_quiet: "quiet Inv img (\<lambda>_. True) (exists_path S path bufs)"
  unfolding quiet_def
proof (intro allI impI)
  fix fs :: "'a fs" assume I: "Inv (fs_storage fs)"
  obtain st r where "resolve_in S path bufs fs = Some (fs\<lparr>fs_storage := st\<rparr>, r)" "Inv st" "img st = img (fs_storage fs)"
    by (rule quietE [OF resolve_quiet I])
  then show "\<exists>st r. exists_path S path bufs fs = Some (fs\<lparr>fs_storage := st\<rparr>, r) \<and> Inv st \<and> img st = img (fs_storage fs) \<and> (\<forall>x. r = Inr x \<longrightarrow> True)"
    by (auto simp: exists_path_def intro!: exI [of _ st])
qed

lemma get_attr_quiet: "quiet Inv img (\<lambda>_. True) (get_attr S path i out bufs)"
  unfolding get_attr_def
  by (intro quiet_bind [OF locate_quiet]) (auto intro!: quiet_rules quiet_bind [OF quiet_parse] split: prod.splits)

lemma listing_quiet: "quiet Inv img (\<lambda>_. True) (list_root S f bufs c)" "quiet Inv img (\<lambda>_. True) (list_dir S path f bufs c)"
proof -
  show "quiet Inv img (\<lambda>_. True) (list_root S f bufs c)"
    unfolding list_root_def by (intro quiet_if quiet_rules list_quiet) simp
  have target: "quiet Inv img (\<lambda>x. bufs_ok S (fst x)) (if is_root path then owith_root (\<lambda>root. ret (bufs, root))
      else obind (resolve_in S path bufs) (\<lambda>(bufs, rp). obind (olift (io_lift (dir_target (rp_resolved rp)))) (\<lambda>p. ret (bufs, p))))"
    if "bufs_ok S bufs"
    using that
    by (intro quiet_if quiet_rules quiet_bind [OF resolve_quiet])
       (auto intro!: quiet_rules quiet_bind [where P = "\<lambda>_. True"] split: prod.splits)
  show "quiet Inv img (\<lambda>_. True) (list_dir S path f bufs c)"
    unfolding list_dir_def
    by (intro quiet_if quiet_rules quiet_bind [OF target]) (auto intro!: list_quiet split: prod.splits)
qed

lemma open_quiet:
  assumes "\<not> writable o1"
  shows "quiet Inv img (\<lambda>_. True) (open_file n S path o1 bufs)"
proof (cases "options_ok o1")
  case True
  then have o: "\<not> oo_create o1" "\<not> oo_truncate o1" using assms by (auto simp: options_ok_def)
  have new: "quiet Inv img (\<lambda>_. True) (\<lambda>fs. ret (new_file fs o1 p i head sz, b) fs)" for p i head sz and b :: bufs
    by (auto simp: quiet_def olift_def io_return_def intro!: exI [of _ "fs_storage _"])
  show ?thesis
    unfolding open_file_def
    by (intro quiet_if quiet_rules quiet_bind [OF parent_quiet])
       (auto intro!: quiet_rules quiet_bind [OF seek_quiet] quiet_bind [OF quiet_lookup] quiet_bind [OF quiet_lift [where P = "\<lambda>_. True"]] new
         simp: Let_def o split: prod.splits chain_seek.splits existing.splits)
next
  case False
  then show ?thesis unfolding open_file_def by (intro quiet_if quiet_rules) simp_all
qed

lemma query_quiet:
  assumes "128 \<le> BLOCK_SIZE S" "chain_start (BLOCK_SIZE S) MAX_CTZ_BLOCKS < 2 ^ 32" "query_out q < 2 ^ 32"
  shows "quiet Inv img (\<lambda>_. True) (run_query S q bufs)"
proof (cases q)
  case (OpenReadOnly path)
  have "\<not> writable read_only" by (simp add: read_only_def set_read_def options_new_def writable_def)
  then show ?thesis unfolding OpenReadOnly run_query.simps by (rule quiet_forget [OF open_quiet])
qed (use assms in \<open>simp add: quiet_forget [OF read_at_quiet] quiet_forget [OF size_quiet(1)] quiet_forget [OF size_quiet(2)]
      quiet_forget [OF exists_quiet] quiet_forget [OF get_attr_quiet] quiet_forget [OF listing_quiet(1)] quiet_forget [OF listing_quiet(2)]\<close>)+

end


section \<open>Properties\<close>

text \<open>C17. A query only looks: whatever the device holds, reading a file, its size or an attribute, asking
  whether a path exists, listing a directory and opening a file read only return, with an answer or an
  error, leave every block of the device and the whole handle as they were, and issue only calls the
  storage contract allows. The bound on the block size keeps the CTZ offsets inside 32 bits.\<close>

theorem queries_change_nothing:
  assumes "readable_flash S Inv img live" and "unat (BLOCK_COUNT S) < 2 ^ 31" and "Inv (fs_storage fs)"
    and "128 \<le> BLOCK_SIZE S" and "MAX_CTZ_BLOCKS * BLOCK_SIZE S < 2 ^ 32" and "query_out q < 2 ^ 32"
  shows "\<exists>st r. run_query S q bufs fs = Some (fs\<lparr>fs_storage := st\<rparr>, r) \<and> Inv st \<and> img st = img (fs_storage fs)"
  using walkable_flash.query_quiet [OF walkableI [OF assms(1,2)] assms(4) le_less_trans [OF chain_start_le assms(5)] assms(6)] assms(3) unfolding quiet_def by blast

abbreviation loop_fs :: "byte list fs" where
  "loop_fs \<equiv> fresh_fs\<lparr>fs_storage := loop_dev\<rparr>"

theorem queries_change_nothing_witness:
  "\<exists>st r. run_query dev256 (ReadAt [47, 97] 0 (replicate 4 0)) bufs256 loop_fs = Some (loop_fs\<lparr>fs_storage := st\<rparr>, r) \<and>
    mem_inv 256 8 st \<and> mem_img 256 st = mem_img 256 (fs_storage loop_fs)"
proof -
  have "MAX_CTZ_BLOCKS * BLOCK_SIZE dev256 < 2 ^ 32" "mem_inv 256 8 (fs_storage loop_fs)"
    using loop_dev_facts(1) by (simp_all add: MAX_CTZ_BLOCKS_def)
  then show ?thesis by (intro queries_change_nothing [OF dev256_facts(3,2)]) simp_all
qed

end
