(* ===== verification/Spec2Isabelle.thy ===== *)
theory Spec2Isabelle
  imports Tags Blocks Crc Geometry Paths Storages Ctz Commits Gstates Superblocks Nor Dirs Alloc_Safety Compact Walks Forest Writes Applied Streams
    FsOps Files Mounts Queries
begin

text \<open>
  A verification development for \<open>littlefs2-pure\<close>, a \<open>no_std\<close> Rust implementation of the LittleFS v2 on
  disk format (\<open>src/src/\<close>). This header says what is modelled where, what the theorems show, and what
  is left out; every other theory opens with a shorter text of its own.

  The program. A file system lives on a block device behind the \<open>Storage\<close> trait. Directories are
  metadata pairs: two blocks that hold a log of tagged entries with commit CRCs, the newer valid one
  active. A commit appends to the active block, or compacts the live entries onto the other; it may
  split a full directory, or move a pair off worn blocks. Small files live in the log, larger ones in CTZ
  skip lists of copy on write blocks, found by an allocator that rescans the whole tree. A record XORed
  over all pairs carries an unfinished move or relocation over a power loss; mounting resolves it.

  Theories and code, in dependency order. \<open>Prelude\<close>: machine words, byte slices, results as sums.
  \<open>Errors\<close> (\<open>error.rs\<close>). \<open>Tags\<close> (\<open>tag.rs\<close>), \<open>Blocks\<close> (\<open>block.rs\<close>), \<open>Crc\<close> (\<open>crc.rs\<close>), \<open>Geometry\<close>
  (\<open>geometry.rs\<close>), \<open>Paths\<close> (\<open>path.rs\<close>), \<open>Gstates\<close> (\<open>gstate.rs\<close>). \<open>Storages\<close> (\<open>storage.rs\<close> and the RAM device
  of \<open>tests/common/mod.rs\<close>): the trait is the record \<open>storage\<close>, its documented contract the locales
  \<open>readable_flash\<close> and \<open>flash\<close>. \<open>Nor\<close> (\<open>nor.rs\<close>): the program buffering adapter. \<open>Ctz_Index\<close> and \<open>Ctz\<close>
  (\<open>ctz.rs\<close>): index arithmetic on wrapping \<open>u32\<close>, chain walks, reading a file. \<open>Metadata\<close> and \<open>Commits\<close>
  (\<open>meta.rs\<close>): the log reader with its iterators, the commit builder. \<open>Superblocks\<close> (\<open>superblock.rs\<close>).
  \<open>Dirs\<close> (\<open>dir.rs\<close>): lookup, listing and attributes over one shared splice step. \<open>Alloc\<close>, \<open>Alloc_Scan\<close>,
  \<open>Alloc_Safety\<close> (\<open>alloc.rs\<close>): bitmap, scan, cached allocation. The rest is \<open>fs.rs\<close>: \<open>Ops\<close> (the write
  operations as tags), \<open>Compact\<close> (the compacted commit), \<open>Walks\<close> (fetching pairs, the chain walks with
  their cycle check, path resolution), \<open>Forest\<close> (the breadth first walks over all pairs), \<open>Writes\<close>
  (\<open>apply_op_to_pair_inner\<close>: append, compaction, split, relocation and its propagation), \<open>Applied\<close> (what
  such a commit means), \<open>Streams\<close> (building, extending and cutting chains), \<open>FsOps\<close> (every operation of a
  mounted handle), \<open>Mounts\<close> (format, mount, recovery); \<open>Files\<close> is \<open>file.rs\<close>, and \<open>Queries\<close> gathers what
  is shown of the operations that only look.

  Conventions. A Rust function is a HOL function of the same name where that is free. State is passed
  explicitly: \<open>('s, 'a) io\<close> takes a state to a state and a result, \<open>('s, 'a) run\<close> may also be \<open>None\<close>, not
  returning. Errors are values of \<open>error + 'a\<close>, and a step keeps what it changed before an error. The
  state of a handle is the record \<open>fs\<close> (device, superblock, root, allocation cache, pending move); scratch
  buffers are arguments and results. \<open>u32\<close>, \<open>u16\<close> and bytes are words and wrap; \<open>usize\<close> is \<open>nat\<close> where no
  size can reach its bound.

  What the lemmas show, by group. Byte level: CRC tables equal the bitwise routine and catch bursts,
  tags and structs round trip. Log level: the reader stays in the block, never loses a durable entry to
  later bytes, reads back exactly what the builder staged; the forward CRC guards an append. Directory
  level: the splice step refines list insertion and removal, an appended and a compacted commit both
  read back as the directory the operation means. Commit level (\<open>Applied\<close>): on a device none of whose
  legal calls fails (\<open>reliable_flash\<close>) a commit that stays in place refines its abstract operation on
  entries, gstate and tail, and one cut short by power loss leaves the old content. Walk level: every
  chain walk returns on any device contents, and on a sound chain computes the list it should. Data
  level: allocations avoid everything reachable, a stored or extended file reads back, also through the adapter of
  \<open>nor.rs\<close>, which again is a \<open>flash\<close>. Handle level: a formatted device mounts with its superblock, and
  the queries change nothing.

  Locales and their interpretations: \<open>readable_flash\<close>, \<open>flash\<close>, \<open>steady_flash\<close>, \<open>reliable_flash\<close>,
  \<open>walkable_flash\<close> on the RAM device of the tests in two geometries (and \<open>flash\<close> on the adapter by
  \<open>sublocale\<close>), \<open>slot_walker\<close> on the three log walkers of the model, \<open>walk_graph\<close> on the four chain walks.

  Bounds and fuel. Loops recurse on a measure, with three exceptions. The chain walks are
  \<open>partial_function (option)\<close>, as the cycle check alone ends them, and are shown to return on devices of
  fewer than \<open>2^31\<close> blocks. The nesting of a commit that relocates its pair and must update the parent is
  bounded by the first argument \<open>n\<close> of \<open>apply_op_to_pair_inner\<close>: \<open>None\<close> at 0; the commits of \<open>Applied\<close>
  need \<open>n = 1\<close>. Retries with a worn block excluded end after \<open>MAX_BAD_BLOCK_RETRIES\<close>, tree walks hold
  \<open>MAX_QUEUED_PAIRS\<close> pairs, the orphan sweep takes \<open>deorphan_steps\<close>, each as in the source.

  Not modelled: the module declarations and re-exports of \<open>lib.rs\<close>, \<open>Debug\<close> formatting, accessors that
  return a field, the bounded model checking harnesses in \<open>verify/\<close>, tests, fuzz targets and tools, and
  the bytes a callee leaves in a scratch buffer when it fails. The proofs on commits leave out splits,
  wear levelling relocation and failing devices; the definitions have them.
\<close>

end
